(* ===== verification/Powdb_Prelude.thy ===== *)
theory Powdb_Prelude
  imports Main "HOL-Library.Word" "HOL-Library.Monad_Syntax"
begin

text \<open>
  Shared vocabulary of the development: the machine types of the Rust sources, the outcome of a
  computation that may panic, bounds-checked slices of byte buffers, and the little-endian codecs
  that every on-disk format of PowDB is built from.

  A Rust computation that may panic, or may run forever, has the type \<open>'a run\<close>: \<open>Some x\<close> is a
  normal return and \<open>None\<close> stands for "does not return". A Rust \<open>Option\<close> is a HOL \<open>option\<close>
  inside it, and a Rust \<open>Result\<close> is a sum whose left side is the error.
\<close>

type_synonym u8 = "8 word"
type_synonym u16 = "16 word"
type_synonym u32 = "32 word"
type_synonym u64 = "64 word"

type_synonym bytes = "u8 list"

type_synonym 'a run = "'a option"

named_theorems layout_simps \<open>unfolding rules of the on-disk layout constants\<close>
named_theorems buf_simps \<open>reading back a buffer after a write\<close>

subsection \<open>Byte buffers\<close>

text \<open>
  \<open>sub xs a n\<close> reads \<open>n\<close> bytes at \<open>a\<close> where the source's types guarantee the range (constant
  offsets of a fixed-size array). \<open>slice_run\<close> is the indexing \<open>&xs[a..b]\<close>, which panics outside the
  buffer, and \<open>slice_get\<close> is \<open>xs.get(a..b)\<close>, whose \<open>None\<close> is an ordinary value.
\<close>

definition sub :: "'a list \<Rightarrow> nat \<Rightarrow> nat \<Rightarrow> 'a list" where
  "sub xs a n = take n (drop a xs)"

definition slice_run :: "'a list \<Rightarrow> nat \<Rightarrow> nat \<Rightarrow> 'a list run" where
  "slice_run xs a b = (if a \<le> b \<and> b \<le> length xs then Some (sub xs a (b - a)) else None)"

definition slice_get :: "'a list \<Rightarrow> nat \<Rightarrow> nat \<Rightarrow> 'a list option" where
  "slice_get xs a b = (if a \<le> b \<and> b \<le> length xs then Some (sub xs a (b - a)) else None)"

definition index_run :: "'a list \<Rightarrow> nat \<Rightarrow> 'a run" where
  "index_run xs i = (if i < length xs then Some (xs ! i) else None)"

text \<open>\<open>put xs a ys\<close> overwrites the bytes of \<open>xs\<close> from \<open>a\<close> on; \<open>copy_from_slice\<close> is the checked form.\<close>

definition put :: "'a list \<Rightarrow> nat \<Rightarrow> 'a list \<Rightarrow> 'a list" where
  "put xs a ys = take a xs @ ys @ drop (a + length ys) xs"

definition copy_from_slice :: "'a list \<Rightarrow> nat \<Rightarrow> 'a list \<Rightarrow> 'a list run" where
  "copy_from_slice xs a ys = (if a + length ys \<le> length xs then Some (put xs a ys) else None)"

text \<open>\<open>xs.copy_within(a..b, dest)\<close>: a move between overlapping ranges of one buffer.\<close>

definition copy_within :: "'a list \<Rightarrow> nat \<Rightarrow> nat \<Rightarrow> nat \<Rightarrow> 'a list run" where
  "copy_within xs a b dest =
     (if a \<le> b \<and> b \<le> length xs \<and> dest + (b - a) \<le> length xs
      then Some (put xs dest (sub xs a (b - a))) else None)"

lemma length_sub [simp]: "length (sub xs a n) = min n (length xs - a)"
  by (simp add: sub_def)

lemma sub_0 [simp]: "sub xs a 0 = []"
  by (simp add: sub_def)

lemma nth_sub: "i < n \<Longrightarrow> a + i < length xs \<Longrightarrow> sub xs a n ! i = xs ! (a + i)"
  by (simp add: sub_def)

lemma length_put [simp]: "a + length ys \<le> length xs \<Longrightarrow> length (put xs a ys) = length xs"
  by (simp add: put_def)

lemma put_Nil [simp]: "put xs a [] = xs"
  by (simp add: put_def)

lemma nth_put:
  assumes "a + length ys \<le> length xs" and "i < length xs"
  shows "put xs a ys ! i = (if a \<le> i \<and> i < a + length ys then ys ! (i - a) else xs ! i)"
  using assms by (auto simp: put_def nth_append)

lemma sub_put_same [buf_simps]:
  "a + length ys \<le> length xs \<Longrightarrow> n = length ys \<Longrightarrow> sub (put xs a ys) a n = ys"
  by (simp add: sub_def put_def)

lemma sub_put_before [buf_simps]:
  assumes "b + n \<le> a" and "a + length ys \<le> length xs"
  shows "sub (put xs a ys) b n = sub xs b n"
  using assms by (intro nth_equalityI) (auto simp: nth_sub nth_put)

lemma sub_put_after [buf_simps]:
  assumes "a + length ys \<le> b" and "a + length ys \<le> length xs"
  shows "sub (put xs a ys) b n = sub xs b n"
  using assms by (intro nth_equalityI) (auto simp: nth_sub nth_put)

lemma sub_put_disjoint:
  assumes "b + n \<le> a \<or> a + length ys \<le> b" and "a + length ys \<le> length xs"
  shows "sub (put xs a ys) b n = sub xs b n"
  using assms sub_put_before sub_put_after by blast

lemma put_sub_same: "a + n \<le> length xs \<Longrightarrow> put xs a (sub xs a n) = xs"
  by (intro nth_equalityI) (auto simp: nth_put nth_sub)

lemma put_put_same: "length ys = length zs \<Longrightarrow> a + length ys \<le> length xs \<Longrightarrow>
  put (put xs a ys) a zs = put xs a zs"
  by (intro nth_equalityI) (auto simp: nth_put)

lemma put_put_commute:
  assumes "a + length ys \<le> b" and "b + length zs \<le> length xs"
  shows "put (put xs b zs) a ys = put (put xs a ys) b zs"
  using assms by (intro nth_equalityI) (auto simp: nth_put)

lemma slice_run_Some: "a \<le> b \<Longrightarrow> b \<le> length xs \<Longrightarrow> slice_run xs a b = Some (sub xs a (b - a))"
  by (simp add: slice_run_def)

lemma copy_from_slice_Some:
  "a + length ys \<le> length xs \<Longrightarrow> copy_from_slice xs a ys = Some (put xs a ys)"
  by (simp add: copy_from_slice_def)

lemma sub_append_left: "a + n \<le> length xs \<Longrightarrow> sub (xs @ ys) a n = sub xs a n"
  by (simp add: sub_def)

lemma sub_append_right: "a = length xs + b \<Longrightarrow> sub (xs @ ys) a n = sub ys b n"
  by (simp add: sub_def)

lemma sub_full [simp]: "n = length xs \<Longrightarrow> sub xs 0 n = xs"
  by (simp add: sub_def)

lemma sub_sub: "b + m \<le> n \<Longrightarrow> sub (sub xs a n) b m = sub xs (a + b) m"
  by (simp add: sub_def drop_take add.commute take_take min_def)

subsection \<open>Little-endian integers\<close>

text \<open>The range of each width, as facts about natural numbers.\<close>

lemma unat_u8_less [simp]: "unat (w :: u8) < 256"
  using unsigned_less [where ?'a = nat, of w] by simp

lemma unat_u16_less [simp]: "unat (w :: u16) < 65536"
  using unsigned_less [where ?'a = nat, of w] by simp

lemma unat_u32_less [simp]: "unat (w :: u32) < 4294967296"
  using unsigned_less [where ?'a = nat, of w] by simp

lemma unat_u64_less [simp]: "unat (w :: u64) < 18446744073709551616"
  using unsigned_less [where ?'a = nat, of w] by simp

primrec nat_to_le :: "nat \<Rightarrow> nat \<Rightarrow> bytes" where
  "nat_to_le 0 v = []"
| "nat_to_le (Suc n) v = word_of_nat v # nat_to_le n (v div 256)"

primrec le_to_nat :: "bytes \<Rightarrow> nat" where
  "le_to_nat [] = 0"
| "le_to_nat (b # bs) = unat b + 256 * le_to_nat bs"

lemma length_nat_to_le [simp]: "length (nat_to_le n v) = n"
  by (induction n arbitrary: v) auto

lemma unat_u8_of_nat: "unat (word_of_nat v :: u8) = v mod 256"
  by (simp add: unat_of_nat)

lemma le_to_nat_to_le: "le_to_nat (nat_to_le n v) = v mod 256 ^ n"
proof (induction n arbitrary: v)
  case 0
  show ?case by simp
next
  case (Suc n)
  have "le_to_nat (nat_to_le (Suc n) v) = v mod 256 + 256 * ((v div 256) mod 256 ^ n)"
    by (simp add: Suc unat_u8_of_nat)
  also have "\<dots> = v mod 256 ^ Suc n"
    by (simp add: mod_mult2_eq add.commute)
  finally show ?case .
qed

lemma le_to_nat_less: "le_to_nat bs < 256 ^ length bs"
proof (induction bs)
  case Nil
  show ?case by simp
next
  case (Cons b bs)
  have "unat b < 256" by simp
  with Cons have "unat b + 256 * le_to_nat bs < 256 * 256 ^ length bs" by linarith
  then show ?case by simp
qed

lemma nat_to_le_to_nat: "nat_to_le (length bs) (le_to_nat bs) = bs"
proof (induction bs)
  case Nil
  show ?case by simp
next
  case (Cons b bs)
  have "(unat b + 256 * le_to_nat bs) div 256 = le_to_nat bs"
    using unat_u8_less [of b] by simp
  moreover have "(word_of_nat (unat b + 256 * le_to_nat bs) :: u8) = b"
  proof -
    have "(word_of_nat 256 :: u8) = 0"
      by (simp add: word_of_nat_eq_0_iff)
    then show ?thesis by (simp only: of_nat_add of_nat_mult of_nat_unat ucast_id) simp
  qed
  ultimately show ?case by (simp add: Cons)
qed

text \<open>The four widths the sources use, as \<open>to_le_bytes\<close> and \<open>from_le_bytes\<close>.\<close>

definition u16_to_le :: "u16 \<Rightarrow> bytes" where "u16_to_le w = nat_to_le 2 (unat w)"
definition u32_to_le :: "u32 \<Rightarrow> bytes" where "u32_to_le w = nat_to_le 4 (unat w)"
definition u64_to_le :: "u64 \<Rightarrow> bytes" where "u64_to_le w = nat_to_le 8 (unat w)"

definition u16_from_le :: "bytes \<Rightarrow> u16" where "u16_from_le bs = word_of_nat (le_to_nat bs)"
definition u32_from_le :: "bytes \<Rightarrow> u32" where "u32_from_le bs = word_of_nat (le_to_nat bs)"
definition u64_from_le :: "bytes \<Rightarrow> u64" where "u64_from_le bs = word_of_nat (le_to_nat bs)"

lemma length_u16_to_le [simp]: "length (u16_to_le w) = 2" by (simp add: u16_to_le_def)
lemma length_u32_to_le [simp]: "length (u32_to_le w) = 4" by (simp add: u32_to_le_def)
lemma length_u64_to_le [simp]: "length (u64_to_le w) = 8" by (simp add: u64_to_le_def)

lemma u16_from_to_le [simp]: "u16_from_le (u16_to_le w) = w"
  by (simp add: u16_to_le_def u16_from_le_def le_to_nat_to_le)

lemma u32_from_to_le [simp]: "u32_from_le (u32_to_le w) = w"
  by (simp add: u32_to_le_def u32_from_le_def le_to_nat_to_le)

lemma u64_from_to_le [simp]: "u64_from_le (u64_to_le w) = w"
  by (simp add: u64_to_le_def u64_from_le_def le_to_nat_to_le)

lemma u16_to_from_le: "length bs = 2 \<Longrightarrow> u16_to_le (u16_from_le bs) = bs"
  using le_to_nat_less [of bs] nat_to_le_to_nat [of bs]
  by (simp add: u16_to_le_def u16_from_le_def unat_of_nat)

lemma u32_to_from_le: "length bs = 4 \<Longrightarrow> u32_to_le (u32_from_le bs) = bs"
  using le_to_nat_less [of bs] nat_to_le_to_nat [of bs]
  by (simp add: u32_to_le_def u32_from_le_def unat_of_nat)

lemma u64_to_from_le: "length bs = 8 \<Longrightarrow> u64_to_le (u64_from_le bs) = bs"
  using le_to_nat_less [of bs] nat_to_le_to_nat [of bs]
  by (simp add: u64_to_le_def u64_from_le_def unat_of_nat)

subsection \<open>Casts between \<open>usize\<close> and the fixed widths\<close>

text \<open>\<open>x as usize\<close> is \<^const>\<open>unat\<close>; \<open>n as u16\<close> is \<open>word_of_nat\<close>, which wraps.\<close>

lemma unat_u16_of_nat [simp]: "n < 65536 \<Longrightarrow> unat (word_of_nat n :: u16) = n"
  by (simp add: unat_of_nat)

lemma unat_u32_of_nat [simp]: "n < 4294967296 \<Longrightarrow> unat (word_of_nat n :: u32) = n"
  by (simp add: unat_of_nat)

lemma u16_of_nat_unat [simp]: "word_of_nat (unat w) = (w :: u16)"
  by simp

lemma unat_u16_Suc: "unat (w :: u16) < 65535 \<Longrightarrow> unat (w + 1) = Suc (unat w)"
  by (simp add: unat_word_ariths)

text \<open>\<open>saturating_add\<close> on 64-bit sizes; \<open>saturating_sub\<close> is subtraction on the naturals.\<close>

definition saturating_add :: "nat \<Rightarrow> nat \<Rightarrow> nat" where
  "saturating_add a b = min (a + b) (2 ^ 64 - 1)"

text \<open>\<open>a.div_ceil(8)\<close>, the size of a bitmap of \<open>a\<close> bits.\<close>

definition div_ceil8 :: "nat \<Rightarrow> nat" where
  "div_ceil8 n = (n + 7) div 8"

lemma div_ceil8_bound: "i < n \<Longrightarrow> i div 8 < div_ceil8 n"
  by (simp add: div_ceil8_def)

end
