(* ===== verification/Page.thy ===== *)
theory Page
  imports Powdb_Prelude
begin

text \<open>
  The 4 KB slotted page of \<^verbatim>\<open>crates/storage/src/page.rs\<close>: a 20-byte header, row data growing
  up from it, and a slot directory growing down from the slot-count word at the end of the page.
  Every operation works on the raw bytes, as the source does. The CRC-32 routine is that of the
  crate \<^verbatim>\<open>crc32fast\<close>; it is the parameter \<open>crc\<close> of the operations that use it.
\<close>

unbundle bit_operations_syntax

subsection \<open>Layout constants\<close>

definition PAGE_SIZE :: nat where [layout_simps]: "PAGE_SIZE = 4096"
definition PAGE_HEADER_SIZE :: nat where [layout_simps]: "PAGE_HEADER_SIZE = 20"
definition LEGACY_HEADER_SIZE :: nat where [layout_simps]: "LEGACY_HEADER_SIZE = 16"
definition SLOT_COUNT_SIZE :: nat where [layout_simps]: "SLOT_COUNT_SIZE = 2"
definition SLOT_ENTRY_SIZE :: nat where [layout_simps]: "SLOT_ENTRY_SIZE = 4"
definition DELETED_MARKER :: u16 where "DELETED_MARKER = 0xFFFF"
definition MAX_ROW_DATA_SIZE :: nat where [layout_simps]:
  "MAX_ROW_DATA_SIZE = PAGE_SIZE - PAGE_HEADER_SIZE - SLOT_COUNT_SIZE - SLOT_ENTRY_SIZE"
definition MAX_SLOT_COUNT :: u16 where
  "MAX_SLOT_COUNT =
     word_of_nat ((PAGE_SIZE - LEGACY_HEADER_SIZE - SLOT_COUNT_SIZE) div SLOT_ENTRY_SIZE)"
definition OVF_NEXT_OFFSET :: nat where [layout_simps]: "OVF_NEXT_OFFSET = PAGE_HEADER_SIZE"
definition OVF_CHUNK_LEN_OFFSET :: nat where [layout_simps]:
  "OVF_CHUNK_LEN_OFFSET = PAGE_HEADER_SIZE + 4"
definition OVF_PAYLOAD_OFFSET :: nat where [layout_simps]:
  "OVF_PAYLOAD_OFFSET = PAGE_HEADER_SIZE + 8"
definition OVERFLOW_PAYLOAD_CAP :: nat where [layout_simps]:
  "OVERFLOW_PAYLOAD_CAP = PAGE_SIZE - OVF_PAYLOAD_OFFSET"
definition OVERFLOW_CHAIN_END :: u32 where "OVERFLOW_CHAIN_END = 0xFFFFFFFF"
definition CRC_OFFSET :: nat where [layout_simps]: "CRC_OFFSET = 16"
definition CRC_SIZE :: nat where [layout_simps]: "CRC_SIZE = 4"
definition FLAG_HAS_CHECKSUM :: u8 where "FLAG_HAS_CHECKSUM = 1"
definition PAGE_VERSION_SHIFT :: nat where "PAGE_VERSION_SHIFT = 4"
definition PAGE_VERSION_MASK :: u8 where "PAGE_VERSION_MASK = 0xF0"
definition PAGE_FORMAT_VERSION :: u8 where "PAGE_FORMAT_VERSION = 1"

lemma unat_MAX_SLOT_COUNT [simp]: "unat MAX_SLOT_COUNT = 1019"
  by (simp add: MAX_SLOT_COUNT_def layout_simps)

lemma unat_DELETED_MARKER [simp]: "unat DELETED_MARKER = 65535"
  by (simp add: DELETED_MARKER_def)

subsection \<open>Types and errors\<close>

datatype update_fit = InPlace | Relocates | Missing

datatype page_type = PageData | PageIndex | PageOverflow | PageWal | PageMeta

fun page_type_to_u8 :: "page_type \<Rightarrow> u8" where
  "page_type_to_u8 PageData = 1"
| "page_type_to_u8 PageIndex = 2"
| "page_type_to_u8 PageOverflow = 3"
| "page_type_to_u8 PageWal = 4"
| "page_type_to_u8 PageMeta = 5"

definition page_type_from_u8 :: "u8 \<Rightarrow> page_type option" where
  "page_type_from_u8 v =
     (if v = 1 then Some PageData else if v = 2 then Some PageIndex
      else if v = 3 then Some PageOverflow else if v = 4 then Some PageWal
      else if v = 5 then Some PageMeta else None)"

text \<open>One constructor per \<open>PageCorrupt\<close> message of the source, with the values it formats.\<close>

datatype page_corrupt =
    UnsupportedPageVersion u8
  | BadBufferLength nat
  | CrcMismatch u32 u32 u32
  | InvalidPageType u8
  | FreeStartOutOfRange nat nat
  | SlotCountTooLarge u16
  | DirectoryOverlap nat nat
  | SlotEntryOutsidePage nat
  | SlotOutsidePage nat u16 u16
  | SlotOutsideRowRegion nat nat nat
  | LiveSlotsOverlap nat nat

record page =
  data :: bytes

definition encode_page_version :: "u8 \<Rightarrow> u8" where
  "encode_page_version version = push_bit PAGE_VERSION_SHIFT version"

definition page_format_version_from_flags :: "u8 \<Rightarrow> page_corrupt + u8" where
  "page_format_version_from_flags flags =
     (let version = drop_bit PAGE_VERSION_SHIFT (flags AND PAGE_VERSION_MASK)
      in if version > PAGE_FORMAT_VERSION then Inl (UnsupportedPageVersion version)
         else Inr version)"

subsection \<open>Construction and checksums\<close>

definition page_new :: "u32 \<Rightarrow> page_type \<Rightarrow> page" where
  "page_new page_id page_type =
     (let d0 = replicate PAGE_SIZE 0;
          d1 = put d0 0 (u32_to_le page_id);
          d2 = put d1 4 [page_type_to_u8 page_type];
          d3 = put d2 5 [FLAG_HAS_CHECKSUM OR encode_page_version PAGE_FORMAT_VERSION];
          free_start = word_of_nat PAGE_HEADER_SIZE;
          d4 = put d3 6 (u16_to_le free_start);
          d5 = put d4 (PAGE_SIZE - 2) (u16_to_le 0)
      in \<lparr>data = d5\<rparr>)"

definition page_from_bytes :: "bytes \<Rightarrow> page option" where
  "page_from_bytes buf =
     (if length buf \<noteq> PAGE_SIZE then None
      else case page_format_version_from_flags (buf ! 5) of
             Inl _ \<Rightarrow> None
           | Inr _ \<Rightarrow> Some \<lparr>data = buf\<rparr>)"

definition checksum_with_crc_zeroed :: "(bytes \<Rightarrow> u32) \<Rightarrow> bytes \<Rightarrow> u32" where
  "checksum_with_crc_zeroed crc page_bytes =
     crc (take CRC_OFFSET page_bytes @ replicate CRC_SIZE 0 @ drop (CRC_OFFSET + CRC_SIZE) page_bytes)"

definition page_verify_bytes :: "(bytes \<Rightarrow> u32) \<Rightarrow> bytes \<Rightarrow> page_corrupt + unit" where
  "page_verify_bytes crc buf =
     (if length buf \<noteq> PAGE_SIZE then Inl (BadBufferLength (length buf))
      else case page_format_version_from_flags (buf ! 5) of
             Inl e \<Rightarrow> Inl e
           | Inr _ \<Rightarrow>
               if buf ! 5 AND FLAG_HAS_CHECKSUM \<noteq> 0 then
                 (let stored = u32_from_le (sub buf CRC_OFFSET CRC_SIZE);
                      actual = checksum_with_crc_zeroed crc buf
                  in if stored \<noteq> actual
                     then Inl (CrcMismatch (u32_from_le (sub buf 0 4)) stored actual)
                     else Inr ())
               else Inr ())"

definition page_from_bytes_verified :: "(bytes \<Rightarrow> u32) \<Rightarrow> bytes \<Rightarrow> page_corrupt + page" where
  "page_from_bytes_verified crc buf =
     (case page_verify_bytes crc buf of Inl e \<Rightarrow> Inl e | Inr _ \<Rightarrow> Inr \<lparr>data = buf\<rparr>)"

definition page_has_checksum :: "page \<Rightarrow> bool" where
  "page_has_checksum p \<longleftrightarrow> data p ! 5 AND FLAG_HAS_CHECKSUM \<noteq> 0"

definition page_stamp_checksum :: "(bytes \<Rightarrow> u32) \<Rightarrow> page \<Rightarrow> page" where
  "page_stamp_checksum crc p =
     (let d1 = put (data p) 5
                 [data p ! 5 OR FLAG_HAS_CHECKSUM OR encode_page_version PAGE_FORMAT_VERSION];
          c = checksum_with_crc_zeroed crc d1
      in p\<lparr>data := put d1 CRC_OFFSET (u32_to_le c)\<rparr>)"

subsection \<open>Header fields\<close>

definition page_id :: "page \<Rightarrow> u32" where
  "page_id p = u32_from_le (sub (data p) 0 4)"

definition page_page_type :: "page \<Rightarrow> page_type option" where
  "page_page_type p = page_type_from_u8 (data p ! 4)"

definition page_lsn :: "page \<Rightarrow> u64" where
  "page_lsn p = u64_from_le (sub (data p) 8 8)"

definition page_set_lsn :: "page \<Rightarrow> u64 \<Rightarrow> page" where
  "page_set_lsn p lsn = p\<lparr>data := put (data p) 8 (u64_to_le lsn)\<rparr>"

definition free_start :: "page \<Rightarrow> u16" where
  "free_start p = u16_from_le (sub (data p) 6 2)"

definition set_free_start :: "page \<Rightarrow> u16 \<Rightarrow> page" where
  "set_free_start p v = p\<lparr>data := put (data p) 6 (u16_to_le v)\<rparr>"

definition raw_slot_count :: "page \<Rightarrow> u16" where
  "raw_slot_count p = u16_from_le (sub (data p) (PAGE_SIZE - 2) 2)"

definition slot_count :: "page \<Rightarrow> u16" where
  "slot_count p = min (raw_slot_count p) MAX_SLOT_COUNT"

definition set_slot_count :: "page \<Rightarrow> u16 \<Rightarrow> page" where
  "set_slot_count p v = p\<lparr>data := put (data p) (PAGE_SIZE - 2) (u16_to_le v)\<rparr>"

subsection \<open>The slot directory\<close>

definition slot_entry_offset :: "u16 \<Rightarrow> nat run" where
  "slot_entry_offset i =
     (let required = (unat i + 1) * SLOT_ENTRY_SIZE + SLOT_COUNT_SIZE
      in if required \<le> PAGE_SIZE
         then Some (PAGE_SIZE - SLOT_COUNT_SIZE - (unat i + 1) * SLOT_ENTRY_SIZE)
         else None)"

definition read_slot_entry :: "page \<Rightarrow> u16 \<Rightarrow> (u16 \<times> u16) run" where
  "read_slot_entry p i =
     do { off \<leftarrow> slot_entry_offset i;
          Some (u16_from_le (sub (data p) off 2), u16_from_le (sub (data p) (off + 2) 2)) }"

definition write_slot_entry :: "page \<Rightarrow> u16 \<Rightarrow> u16 \<Rightarrow> u16 \<Rightarrow> page run" where
  "write_slot_entry p i offset len =
     do { off \<leftarrow> slot_entry_offset i;
          d1 \<leftarrow> copy_from_slice (data p) off (u16_to_le offset);
          d2 \<leftarrow> copy_from_slice d1 (off + 2) (u16_to_le len);
          Some (p\<lparr>data := d2\<rparr>) }"

definition free_space :: "page \<Rightarrow> nat run" where
  "free_space p =
     do { dir_start \<leftarrow> (if slot_count p = 0 then Some (PAGE_SIZE - SLOT_COUNT_SIZE)
                        else slot_entry_offset (slot_count p - 1));
          Some (dir_start - unat (free_start p)) }"

definition slot_data_range :: "u16 \<Rightarrow> u16 \<Rightarrow> (nat \<times> nat) option" where
  "slot_data_range offset len =
     (let start = unat offset; end = start + unat len
      in if start < LEGACY_HEADER_SIZE \<or> end > PAGE_SIZE then None else Some (start, end))"

subsection \<open>Row operations\<close>

definition page_insert :: "page \<Rightarrow> bytes \<Rightarrow> (page \<times> u16 option) run" where
  "page_insert p row_data =
     do { space \<leftarrow> free_space p;
          if length row_data + SLOT_ENTRY_SIZE > space then Some (p, None)
          else do {
            let slot_idx = slot_count p;
            let offset = free_start p;
            let start = unat offset;
            let end = start + length row_data;
            d \<leftarrow> copy_from_slice (data p) start row_data;
            p1 \<leftarrow> write_slot_entry (p\<lparr>data := d\<rparr>) slot_idx offset (word_of_nat (length row_data));
            let p2 = set_free_start p1 (word_of_nat end);
            Some (set_slot_count p2 (slot_idx + 1), Some slot_idx) } }"

definition page_is_blank :: "page \<Rightarrow> bool" where
  "page_is_blank p \<longleftrightarrow> unat (free_start p) < PAGE_HEADER_SIZE"

partial_function (option) bridge_gap :: "page \<Rightarrow> u16 \<Rightarrow> page run" where
  "bridge_gap p slot =
     (if slot_count p < slot then
        do { p1 \<leftarrow> write_slot_entry p (slot_count p) 0 DELETED_MARKER;
             bridge_gap (set_slot_count p1 (slot_count p + 1)) slot }
      else Some p)"

definition page_insert_at_slot :: "page \<Rightarrow> u16 \<Rightarrow> bytes \<Rightarrow> (page \<times> bool) run" where
  "page_insert_at_slot p slot row_data =
     (if slot < slot_count p then Some (p, True)
      else do {
        let new_entries = unat (slot - slot_count p) + 1;
        space \<leftarrow> free_space p;
        if length row_data + SLOT_ENTRY_SIZE * new_entries > space then Some (p, False)
        else do {
          q \<leftarrow> bridge_gap p slot;
          let idx = slot_count q;
          let offset = free_start q;
          let end = unat offset + length row_data;
          d \<leftarrow> copy_from_slice (data q) (unat offset) row_data;
          q1 \<leftarrow> write_slot_entry (q\<lparr>data := d\<rparr>) idx offset (word_of_nat (length row_data));
          let q2 = set_free_start q1 (word_of_nat end);
          Some (set_slot_count q2 (idx + 1), True) } })"

definition page_get :: "page \<Rightarrow> u16 \<Rightarrow> bytes option run" where
  "page_get p slot =
     (if slot \<ge> slot_count p then Some None
      else do {
        (offset, len) \<leftarrow> read_slot_entry p slot;
        if len = DELETED_MARKER then Some None
        else case slot_data_range offset len of
               None \<Rightarrow> Some None
             | Some (start, end) \<Rightarrow> do { row \<leftarrow> slice_run (data p) start end; Some (Some row) } })"

text \<open>
  \<open>slot_bytes_mut\<close> hands out a mutable view of a slot; the model takes the function the caller
  applies to the view. The view is a slice, so the caller cannot change its length.
\<close>

definition page_slot_bytes_mut :: "page \<Rightarrow> u16 \<Rightarrow> (bytes \<Rightarrow> bytes) \<Rightarrow> (page \<times> bool) run" where
  "page_slot_bytes_mut p slot f =
     (if slot \<ge> slot_count p then Some (p, False)
      else do {
        (offset, len) \<leftarrow> read_slot_entry p slot;
        if len = DELETED_MARKER then Some (p, False)
        else case slot_data_range offset len of
               None \<Rightarrow> Some (p, False)
             | Some (start, end) \<Rightarrow> do {
                 view \<leftarrow> slice_run (data p) start end;
                 Some (p\<lparr>data := put (data p) start (f view)\<rparr>, True) } })"

definition page_shrink_slot :: "page \<Rightarrow> u16 \<Rightarrow> u16 \<Rightarrow> (page \<times> bool) run" where
  "page_shrink_slot p slot new_len =
     (if slot \<ge> slot_count p then Some (p, False)
      else do {
        (offset, old_length) \<leftarrow> read_slot_entry p slot;
        if old_length = DELETED_MARKER then Some (p, False)
        else if new_len > old_length then Some (p, False)
        else do { q \<leftarrow> write_slot_entry p slot offset new_len; Some (q, True) } })"

fun sum_live :: "page \<Rightarrow> nat \<Rightarrow> nat run" where
  "sum_live p 0 = Some 0"
| "sum_live p (Suc i) =
     do { live \<leftarrow> sum_live p i;
          (_, len) \<leftarrow> read_slot_entry p (word_of_nat i);
          Some (if len \<noteq> DELETED_MARKER then live + unat len else live) }"

definition page_dead_space :: "page \<Rightarrow> nat run" where
  "page_dead_space p =
     do { live \<leftarrow> sum_live p (unat (slot_count p));
          Some (unat (free_start p) - (PAGE_HEADER_SIZE + live)) }"

text \<open>
  The first loop of \<open>compact\<close>: the live slots in slot order as (offset, len, slot), or
  \<open>Some None\<close> for the early return when a live slot points outside the page.
\<close>

fun collect_live :: "page \<Rightarrow> nat \<Rightarrow> (u16 \<times> u16 \<times> u16) list option run" where
  "collect_live p 0 = Some (Some [])"
| "collect_live p (Suc i) =
     do { acc \<leftarrow> collect_live p i;
          case acc of
            None \<Rightarrow> Some None
          | Some live \<Rightarrow> do {
              (offset, len) \<leftarrow> read_slot_entry p (word_of_nat i);
              if len = DELETED_MARKER then Some (Some live)
              else if unat offset < PAGE_HEADER_SIZE \<or> unat offset + unat len > PAGE_SIZE
              then Some None
              else Some (Some (live @ [(offset, len, word_of_nat i)])) } }"

text \<open>The second loop: slide each row down to the cursor and repoint its slot.\<close>

fun slide_rows :: "page \<Rightarrow> nat \<Rightarrow> (u16 \<times> u16 \<times> u16) list \<Rightarrow> (page \<times> nat) run" where
  "slide_rows p cursor [] = Some (p, cursor)"
| "slide_rows p cursor ((offset, len, slot) # rest) =
     do { let start = unat offset;
          q \<leftarrow> (if start \<noteq> cursor then do {
                 d \<leftarrow> copy_within (data p) start (start + unat len) cursor;
                 write_slot_entry (p\<lparr>data := d\<rparr>) slot (word_of_nat cursor) len }
               else Some p);
          slide_rows q (cursor + unat len) rest }"

text \<open>
  \<open>sort_unstable_by_key\<close> leaves the order of equal offsets open; the model takes the stable order.
\<close>

definition page_compact :: "page \<Rightarrow> (page \<times> bool) run" where
  "page_compact p =
     do { acc \<leftarrow> collect_live p (unat (slot_count p));
          case acc of
            None \<Rightarrow> Some (p, False)
          | Some live \<Rightarrow> do {
              (q, cursor) \<leftarrow> slide_rows p PAGE_HEADER_SIZE (sort_key (\<lambda>(offset, _, _). offset) live);
              Some (set_free_start q (word_of_nat cursor), True) } }"

definition page_delete :: "page \<Rightarrow> u16 \<Rightarrow> page run" where
  "page_delete p slot =
     (if slot < slot_count p
      then do { (offset, _) \<leftarrow> read_slot_entry p slot; write_slot_entry p slot offset DELETED_MARKER }
      else Some p)"

definition page_update_fit :: "page \<Rightarrow> u16 \<Rightarrow> nat \<Rightarrow> update_fit run" where
  "page_update_fit p slot row_len =
     (if slot \<ge> slot_count p then Some Missing
      else do {
        (_, old_length) \<leftarrow> read_slot_entry p slot;
        if old_length = DELETED_MARKER then Some Missing
        else if row_len \<le> unat old_length then Some InPlace
        else do { space \<leftarrow> free_space p;
                  Some (if row_len \<le> space then InPlace else Relocates) } })"

definition page_update :: "page \<Rightarrow> u16 \<Rightarrow> bytes \<Rightarrow> (page \<times> bool) run" where
  "page_update p slot row_data =
     do { fit \<leftarrow> page_update_fit p slot (length row_data);
          if fit \<noteq> InPlace then Some (p, False)
          else do {
            (offset, old_length) \<leftarrow> read_slot_entry p slot;
            if length row_data \<le> unat old_length then do {
              d \<leftarrow> copy_from_slice (data p) (unat offset) row_data;
              q \<leftarrow> write_slot_entry (p\<lparr>data := d\<rparr>) slot offset (word_of_nat (length row_data));
              Some (q, True) }
            else do {
              let new_offset = free_start p;
              let start = unat new_offset;
              d \<leftarrow> copy_from_slice (data p) start row_data;
              q \<leftarrow> write_slot_entry (p\<lparr>data := d\<rparr>) slot new_offset (word_of_nat (length row_data));
              Some (set_free_start q (word_of_nat (start + length row_data)), True) } } }"

definition page_is_overflow :: "page \<Rightarrow> bool" where
  "page_is_overflow p \<longleftrightarrow> data p ! 4 = page_type_to_u8 PageOverflow"

fun iter_from :: "page \<Rightarrow> nat \<Rightarrow> (u16 \<times> bytes) list run" where
  "iter_from p 0 = Some []"
| "iter_from p (Suc i) =
     do { before \<leftarrow> iter_from p i;
          row \<leftarrow> page_get p (word_of_nat i);
          Some (case row of None \<Rightarrow> before | Some r \<Rightarrow> before @ [(word_of_nat i, r)]) }"

definition page_iter :: "page \<Rightarrow> (u16 \<times> bytes) list run" where
  "page_iter p = iter_from p (if page_is_overflow p then 0 else unat (slot_count p))"

subsection \<open>Overflow-chain pages\<close>

definition page_new_overflow :: "u32 \<Rightarrow> page" where
  "page_new_overflow pid = page_new pid PageOverflow"

definition page_set_overflow_chunk :: "page \<Rightarrow> u32 \<Rightarrow> bytes \<Rightarrow> page run" where
  "page_set_overflow_chunk p next_page chunk =
     (let d1 = put (data p) 4 [page_type_to_u8 PageOverflow];
          d2 = put d1 OVF_NEXT_OFFSET (u32_to_le next_page);
          d3 = put d2 OVF_CHUNK_LEN_OFFSET (u16_to_le (word_of_nat (length chunk)));
          start = OVF_PAYLOAD_OFFSET
      in do { d4 \<leftarrow> copy_from_slice d3 start chunk;
              Some (p\<lparr>data := put d4 (start + length chunk)
                        (replicate (PAGE_SIZE - (start + length chunk)) 0)\<rparr>) })"

definition overflow_next_from_bytes :: "bytes \<Rightarrow> u32" where
  "overflow_next_from_bytes pb = u32_from_le (sub pb OVF_NEXT_OFFSET 4)"

definition overflow_chunk_from_bytes :: "bytes \<Rightarrow> bytes" where
  "overflow_chunk_from_bytes pb =
     (let chunk_len = unat (u16_from_le (sub pb OVF_CHUNK_LEN_OFFSET 2));
          len = min chunk_len OVERFLOW_PAYLOAD_CAP
      in sub pb OVF_PAYLOAD_OFFSET len)"

subsection \<open>Raw-slice readers used by the scans\<close>

definition slot_entry_offset_checked :: "u16 \<Rightarrow> nat option" where
  "slot_entry_offset_checked i =
     (let from_bottom = (unat i + 1) * SLOT_ENTRY_SIZE
      in if from_bottom > PAGE_SIZE - SLOT_COUNT_SIZE then None
         else let entry_off = PAGE_SIZE - SLOT_COUNT_SIZE - from_bottom
              in if entry_off < LEGACY_HEADER_SIZE then None else Some entry_off)"

definition read_slot_entry_from_bytes :: "bytes \<Rightarrow> u16 \<Rightarrow> (u16 \<times> u16) option" where
  "read_slot_entry_from_bytes pb i =
     (case slot_entry_offset_checked i of
        None \<Rightarrow> None
      | Some off \<Rightarrow> Some (u16_from_le (sub pb off 2), u16_from_le (sub pb (off + 2) 2)))"

definition slot_bytes_from_page :: "bytes \<Rightarrow> u16 \<Rightarrow> bytes option" where
  "slot_bytes_from_page pb i =
     (case read_slot_entry_from_bytes pb i of
        None \<Rightarrow> None
      | Some (offset, len) \<Rightarrow>
          if len = DELETED_MARKER then None
          else case slot_data_range offset len of
                 None \<Rightarrow> None
               | Some (start, end) \<Rightarrow> Some (sub pb start (end - start)))"

definition slot_count_from_page :: "bytes \<Rightarrow> u16" where
  "slot_count_from_page pb = min (u16_from_le (sub pb (PAGE_SIZE - 2) 2)) MAX_SLOT_COUNT"

definition iter_page_slots :: "bytes \<Rightarrow> (u16 \<times> bytes) list" where
  "iter_page_slots pb =
     (let count = (if pb ! 4 = page_type_to_u8 PageOverflow then 0
                   else unat (slot_count_from_page pb))
      in List.map_filter
           (\<lambda>i. map_option (Pair (word_of_nat i)) (slot_bytes_from_page pb (word_of_nat i)))
           [0..<count])"

subsection \<open>Offline layout verification\<close>

fun live_ranges :: "bytes \<Rightarrow> nat \<Rightarrow> nat \<Rightarrow> nat \<Rightarrow> page_corrupt + (nat \<times> nat \<times> nat) list" where
  "live_ranges pb lower fs 0 = Inr []"
| "live_ranges pb lower fs (Suc i) =
     (case live_ranges pb lower fs i of
        Inl e \<Rightarrow> Inl e
      | Inr rs \<Rightarrow>
          case read_slot_entry_from_bytes pb (word_of_nat i) of
            None \<Rightarrow> Inl (SlotEntryOutsidePage i)
          | Some (offset, len) \<Rightarrow>
              if len = DELETED_MARKER then Inr rs
              else case slot_data_range offset len of
                     None \<Rightarrow> Inl (SlotOutsidePage i offset len)
                   | Some (start, end) \<Rightarrow>
                       if start < lower \<or> end > fs then Inl (SlotOutsideRowRegion i start end)
                       else Inr (rs @ [(start, end, i)]))"

fun check_windows :: "(nat \<times> nat \<times> nat) list \<Rightarrow> page_corrupt + unit" where
  "check_windows ((s1, e1, i1) # (s2, e2, i2) # rest) =
     (if e1 > s2 then Inl (LiveSlotsOverlap i1 i2) else check_windows ((s2, e2, i2) # rest))"
| "check_windows _ = Inr ()"

definition verify_page_layout_bytes :: "(bytes \<Rightarrow> u32) \<Rightarrow> bytes \<Rightarrow> page_corrupt + unit" where
  "verify_page_layout_bytes crc pb =
     (case page_verify_bytes crc pb of Inl e \<Rightarrow> Inl e | Inr _ \<Rightarrow>
      (case page_type_from_u8 (pb ! 4) of None \<Rightarrow> Inl (InvalidPageType (pb ! 4)) | Some pt \<Rightarrow>
       (if pt \<noteq> PageData then Inr () else
        (let lower = (if pb ! 5 AND FLAG_HAS_CHECKSUM \<noteq> 0 then PAGE_HEADER_SIZE
                      else LEGACY_HEADER_SIZE);
             fs = unat (u16_from_le (sub pb 6 2))
         in if \<not> (lower \<le> fs \<and> fs \<le> PAGE_SIZE - SLOT_COUNT_SIZE)
            then Inl (FreeStartOutOfRange fs lower)
            else
             (let raw = u16_from_le (sub pb (PAGE_SIZE - 2) 2)
              in if raw > MAX_SLOT_COUNT then Inl (SlotCountTooLarge raw)
                 else
                  (let dir_start = PAGE_SIZE - SLOT_COUNT_SIZE - unat raw * SLOT_ENTRY_SIZE
                   in if dir_start < lower \<or> fs > dir_start then Inl (DirectoryOverlap fs dir_start)
                      else case live_ranges pb lower fs (unat raw) of
                             Inl e \<Rightarrow> Inl e
                           | Inr rs \<Rightarrow> check_windows (sort_key fst rs)))))))"

end
