(* ===== verification/Page_Fields.thy ===== *)
theory Page_Fields
  imports Page
begin

text \<open>
  The algebra of the page's fields: reading a header field, a directory entry or a row region back
  after a write to another one. The facts are collected in \<open>page_field_simps\<close>, and the panicking
  accessors are shown to return on every 4096-byte page, whatever its contents.
\<close>

definition page_sized :: "page \<Rightarrow> bool" where
  "page_sized p \<longleftrightarrow> length (data p) = PAGE_SIZE"

lemma page_sized_length [simp]: "page_sized p \<Longrightarrow> length (data p) = 4096"
  by (simp add: page_sized_def layout_simps)

lemma page_sizedI: "length (data p) = 4096 \<Longrightarrow> page_sized p"
  by (simp add: page_sized_def layout_simps)

subsection \<open>Total accessors\<close>

abbreviation entry_at :: "nat \<Rightarrow> nat" where
  "entry_at i \<equiv> 4090 - 4 * i"

definition slot_off :: "page \<Rightarrow> nat \<Rightarrow> u16" where
  "slot_off p i = u16_from_le (sub (data p) (entry_at i) 2)"

definition slot_len :: "page \<Rightarrow> nat \<Rightarrow> u16" where
  "slot_len p i = u16_from_le (sub (data p) (entry_at i + 2) 2)"

definition set_entry :: "page \<Rightarrow> nat \<Rightarrow> u16 \<Rightarrow> u16 \<Rightarrow> page" where
  "set_entry p i offset len =
     p\<lparr>data := put (put (data p) (entry_at i) (u16_to_le offset)) (entry_at i + 2) (u16_to_le len)\<rparr>"

definition set_row :: "page \<Rightarrow> nat \<Rightarrow> bytes \<Rightarrow> page" where
  "set_row p a row = p\<lparr>data := put (data p) a row\<rparr>"

definition row_bytes :: "page \<Rightarrow> nat \<Rightarrow> nat \<Rightarrow> bytes" where
  "row_bytes p a n = sub (data p) a n"

definition dir_start :: "page \<Rightarrow> nat" where
  "dir_start p = 4094 - 4 * unat (slot_count p)"

lemma slot_entry_offset_Some: "unat i \<le> 1022 \<Longrightarrow> slot_entry_offset i = Some (entry_at (unat i))"
  by (simp add: slot_entry_offset_def layout_simps Let_def)

lemma read_slot_entry_Some:
  "unat i \<le> 1022 \<Longrightarrow> read_slot_entry p i = Some (slot_off p (unat i), slot_len p (unat i))"
  by (simp add: read_slot_entry_def slot_entry_offset_Some slot_off_def slot_len_def)

lemma write_slot_entry_Some:
  "unat i \<le> 1022 \<Longrightarrow> page_sized p \<Longrightarrow>
   write_slot_entry p i offset len = Some (set_entry p (unat i) offset len)"
  by (simp add: write_slot_entry_def slot_entry_offset_Some copy_from_slice_def set_entry_def)

lemma unat_slot_count: "unat (slot_count p) = min (unat (raw_slot_count p)) 1019"
proof -
  have "unat (min a b) = min (unat a) (unat b)" for a b :: u16
    by (simp add: min_def word_le_nat_alt)
  then show ?thesis by (simp add: slot_count_def)
qed

lemma slot_count_le: "unat (slot_count p) \<le> 1019"
  by (simp add: unat_slot_count)

lemma less_slot_count: "i < slot_count p \<longleftrightarrow> unat i < unat (slot_count p)"
  by (simp add: word_less_nat_alt)

lemma unat_less_slot_count_bound: "unat i < unat (slot_count p) \<Longrightarrow> unat i \<le> 1018"
  using slot_count_le [of p] by linarith

lemma free_space_Some: "free_space p = Some (dir_start p - unat (free_start p))"
proof (cases "slot_count p = 0")
  case True
  then show ?thesis by (simp add: free_space_def dir_start_def layout_simps)
next
  case False
  then have pos: "0 < unat (slot_count p)"
    by (simp add: unat_gt_0)
  then have "unat (slot_count p - 1) = unat (slot_count p) - 1"
    using False by (simp add: unat_minus_one)
  with pos False slot_count_le [of p] show ?thesis
    by (simp add: free_space_def dir_start_def slot_entry_offset_Some)
qed

lemma unat_slot_count_Suc: "unat (slot_count p + 1) = Suc (unat (slot_count p))"
  using slot_count_le [of p] by (intro unat_u16_Suc) linarith

subsection \<open>Reading a field after a write\<close>

lemma page_sized_set_entry [simp]: "page_sized p \<Longrightarrow> i \<le> 1022 \<Longrightarrow> page_sized (set_entry p i v w)"
  by (simp add: page_sized_def set_entry_def layout_simps)

lemma page_sized_set_row [simp]:
  "page_sized p \<Longrightarrow> a + length row \<le> 4096 \<Longrightarrow> page_sized (set_row p a row)"
  by (simp add: page_sized_def set_row_def layout_simps)

lemma page_sized_set_free_start [simp]: "page_sized p \<Longrightarrow> page_sized (set_free_start p v)"
  by (simp add: page_sized_def set_free_start_def layout_simps)

lemma page_sized_set_slot_count [simp]: "page_sized p \<Longrightarrow> page_sized (set_slot_count p v)"
  by (simp add: page_sized_def set_slot_count_def layout_simps)

lemma page_sized_set_lsn [simp]: "page_sized p \<Longrightarrow> page_sized (page_set_lsn p v)"
  by (simp add: page_sized_def page_set_lsn_def layout_simps)

named_theorems page_field_simps \<open>a field of a page read back after a write to it or to another field\<close>

lemma slot_off_set_entry [page_field_simps]:
  assumes "page_sized p" "i \<le> 1022" "j \<le> 1022"
  shows "slot_off (set_entry p i v w) j = (if j = i then v else slot_off p j)"
proof -
  have "j < i \<Longrightarrow> entry_at i + 4 \<le> entry_at j" "i < j \<Longrightarrow> entry_at j + 4 \<le> entry_at i"
    using assms by auto
  with assms show ?thesis
    by (cases i j rule: linorder_cases) (auto simp: slot_off_def set_entry_def buf_simps)
qed

lemma slot_len_set_entry [page_field_simps]:
  assumes "page_sized p" "i \<le> 1022" "j \<le> 1022"
  shows "slot_len (set_entry p i v w) j = (if j = i then w else slot_len p j)"
proof -
  have "j < i \<Longrightarrow> entry_at i + 4 \<le> entry_at j" "i < j \<Longrightarrow> entry_at j + 4 \<le> entry_at i"
    using assms by auto
  with assms show ?thesis
    by (cases i j rule: linorder_cases) (auto simp: slot_len_def set_entry_def buf_simps)
qed

lemma free_start_set_entry [page_field_simps]:
  "page_sized p \<Longrightarrow> i \<le> 1019 \<Longrightarrow> free_start (set_entry p i v w) = free_start p"
  by (simp add: free_start_def set_entry_def buf_simps)

lemma raw_slot_count_set_entry [page_field_simps]:
  "page_sized p \<Longrightarrow> i \<le> 1022 \<Longrightarrow> raw_slot_count (set_entry p i v w) = raw_slot_count p"
  by (simp add: raw_slot_count_def set_entry_def buf_simps layout_simps)

lemma row_bytes_set_entry [page_field_simps]:
  assumes "page_sized p" "i \<le> 1022" "a + n \<le> entry_at i"
  shows "row_bytes (set_entry p i v w) a n = row_bytes p a n"
proof -
  have "entry_at i + 4 \<le> 4094" by simp
  with assms show ?thesis
    by (simp add: row_bytes_def set_entry_def sub_put_before)
qed

lemma slot_off_set_free_start [page_field_simps]:
  "page_sized p \<Longrightarrow> j \<le> 1019 \<Longrightarrow> slot_off (set_free_start p v) j = slot_off p j"
  by (simp add: slot_off_def set_free_start_def buf_simps)

lemma slot_len_set_free_start [page_field_simps]:
  "page_sized p \<Longrightarrow> j \<le> 1019 \<Longrightarrow> slot_len (set_free_start p v) j = slot_len p j"
  by (simp add: slot_len_def set_free_start_def buf_simps)

lemma free_start_set_free_start [page_field_simps]:
  "page_sized p \<Longrightarrow> free_start (set_free_start p v) = v"
  by (simp add: free_start_def set_free_start_def buf_simps)

lemma raw_slot_count_set_free_start [page_field_simps]:
  "page_sized p \<Longrightarrow> raw_slot_count (set_free_start p v) = raw_slot_count p"
  by (simp add: raw_slot_count_def set_free_start_def buf_simps layout_simps)

lemma row_bytes_set_free_start [page_field_simps]:
  "page_sized p \<Longrightarrow> 8 \<le> a \<Longrightarrow> row_bytes (set_free_start p v) a n = row_bytes p a n"
  by (simp add: row_bytes_def set_free_start_def buf_simps)

lemma slot_off_set_slot_count [page_field_simps]:
  "page_sized p \<Longrightarrow> slot_off (set_slot_count p v) j = slot_off p j"
  by (simp add: slot_off_def set_slot_count_def buf_simps layout_simps)

lemma slot_len_set_slot_count [page_field_simps]:
  "page_sized p \<Longrightarrow> slot_len (set_slot_count p v) j = slot_len p j"
  by (simp add: slot_len_def set_slot_count_def buf_simps layout_simps)

lemma free_start_set_slot_count [page_field_simps]:
  "page_sized p \<Longrightarrow> free_start (set_slot_count p v) = free_start p"
  by (simp add: free_start_def set_slot_count_def buf_simps layout_simps)

lemma raw_slot_count_set_slot_count [page_field_simps]:
  "page_sized p \<Longrightarrow> raw_slot_count (set_slot_count p v) = v"
  by (simp add: raw_slot_count_def set_slot_count_def buf_simps layout_simps)

lemma row_bytes_set_slot_count [page_field_simps]:
  "page_sized p \<Longrightarrow> a + n \<le> 4094 \<Longrightarrow> row_bytes (set_slot_count p v) a n = row_bytes p a n"
  by (simp add: row_bytes_def set_slot_count_def buf_simps layout_simps)

lemma slot_off_set_row [page_field_simps]:
  "page_sized p \<Longrightarrow> j \<le> 1022 \<Longrightarrow> a + length row \<le> entry_at j \<Longrightarrow>
   slot_off (set_row p a row) j = slot_off p j"
  by (simp add: slot_off_def set_row_def sub_put_after)

lemma slot_len_set_row [page_field_simps]:
  "page_sized p \<Longrightarrow> j \<le> 1022 \<Longrightarrow> a + length row \<le> entry_at j \<Longrightarrow>
   slot_len (set_row p a row) j = slot_len p j"
  by (simp add: slot_len_def set_row_def sub_put_after)

lemma free_start_set_row [page_field_simps]:
  "page_sized p \<Longrightarrow> 8 \<le> a \<Longrightarrow> a + length row \<le> 4096 \<Longrightarrow> free_start (set_row p a row) = free_start p"
  by (simp add: free_start_def set_row_def sub_put_before)

lemma raw_slot_count_set_row [page_field_simps]:
  "page_sized p \<Longrightarrow> a + length row \<le> 4094 \<Longrightarrow> raw_slot_count (set_row p a row) = raw_slot_count p"
  by (simp add: raw_slot_count_def set_row_def sub_put_after layout_simps)

lemma row_bytes_set_row_same [page_field_simps]:
  "page_sized p \<Longrightarrow> a + length row \<le> 4096 \<Longrightarrow> n = length row \<Longrightarrow>
   row_bytes (set_row p a row) a n = row"
  by (simp add: row_bytes_def set_row_def sub_put_same)

lemma row_bytes_set_row_other [page_field_simps]:
  "page_sized p \<Longrightarrow> a + length row \<le> 4096 \<Longrightarrow> b + n \<le> a \<or> a + length row \<le> b \<Longrightarrow>
   row_bytes (set_row p a row) b n = row_bytes p b n"
  by (simp add: row_bytes_def set_row_def sub_put_disjoint)

lemma length_row_bytes [simp]: "page_sized p \<Longrightarrow> a + n \<le> 4096 \<Longrightarrow> length (row_bytes p a n) = n"
  by (simp add: row_bytes_def)

subsection \<open>The abstract contents of a page\<close>

text \<open>
  \<open>live p i\<close>: slot \<open>i\<close> is in the directory and not a tombstone. \<open>slots p\<close> is the page as its
  callers see it: one entry per slot, \<open>None\<close> for a tombstone.
\<close>

definition live :: "page \<Rightarrow> nat \<Rightarrow> bool" where
  "live p i \<longleftrightarrow> i < unat (slot_count p) \<and> slot_len p i \<noteq> DELETED_MARKER"

definition slot_row :: "page \<Rightarrow> nat \<Rightarrow> bytes option" where
  "slot_row p i =
     (if slot_len p i = DELETED_MARKER then None
      else Some (row_bytes p (unat (slot_off p i)) (unat (slot_len p i))))"

definition slots :: "page \<Rightarrow> bytes option list" where
  "slots p = map (slot_row p) [0..<unat (slot_count p)]"

lemma length_slots [simp]: "length (slots p) = unat (slot_count p)"
  by (simp add: slots_def)

lemma nth_slots: "i < unat (slot_count p) \<Longrightarrow> slots p ! i = slot_row p i"
  by (simp add: slots_def)

text \<open>
  The well-formed pages: those whose free space lies between the rows and the directory, and whose
  live rows lie in the row region without overlapping.
\<close>

definition page_wf :: "page \<Rightarrow> bool" where
  "page_wf p \<longleftrightarrow>
     page_sized p \<and>
     unat (raw_slot_count p) \<le> 1019 \<and>
     20 \<le> unat (free_start p) \<and>
     unat (free_start p) \<le> dir_start p \<and>
     (\<forall>i. live p i \<longrightarrow> 20 \<le> unat (slot_off p i) \<and>
            unat (slot_off p i) + unat (slot_len p i) \<le> unat (free_start p)) \<and>
     (\<forall>i j. live p i \<and> live p j \<and> i \<noteq> j \<longrightarrow>
            unat (slot_off p i) + unat (slot_len p i) \<le> unat (slot_off p j) \<or>
            unat (slot_off p j) + unat (slot_len p j) \<le> unat (slot_off p i))"

lemma page_wf_sized [simp]: "page_wf p \<Longrightarrow> page_sized p"
  by (simp add: page_wf_def)

lemma page_wf_slot_count: "page_wf p \<Longrightarrow> unat (slot_count p) = unat (raw_slot_count p)"
  by (simp add: page_wf_def unat_slot_count)

lemma page_wf_free_start:
  "page_wf p \<Longrightarrow> 20 \<le> unat (free_start p) \<and> unat (free_start p) + 4 * unat (slot_count p) \<le> 4094"
  using slot_count_le [of p] by (auto simp: page_wf_def dir_start_def)

lemma page_wf_live:
  assumes "page_wf p" "live p i"
  shows "20 \<le> unat (slot_off p i)"
    and "unat (slot_off p i) + unat (slot_len p i) \<le> unat (free_start p)"
    and "i \<le> 1018"
  using assms slot_count_le [of p] by (auto simp: page_wf_def live_def)

lemma page_wf_disjoint:
  "page_wf p \<Longrightarrow> live p i \<Longrightarrow> live p j \<Longrightarrow> i \<noteq> j \<Longrightarrow>
   unat (slot_off p i) + unat (slot_len p i) \<le> unat (slot_off p j) \<or>
   unat (slot_off p j) + unat (slot_len p j) \<le> unat (slot_off p i)"
  by (simp add: page_wf_def)

lemma slot_row_live: "i < unat (slot_count p) \<Longrightarrow> slot_row p i = None \<longleftrightarrow> \<not> live p i"
  by (simp add: slot_row_def live_def)

text \<open>\<^const>\<open>page_get\<close> reads the abstract contents, on every page image without a panic.\<close>

lemma page_get_total:
  assumes "page_sized p"
  shows "page_get p i =
     Some (if unat i < unat (slot_count p) \<and> slot_len p (unat i) \<noteq> DELETED_MARKER \<and>
              16 \<le> unat (slot_off p (unat i)) \<and>
              unat (slot_off p (unat i)) + unat (slot_len p (unat i)) \<le> 4096
           then slot_row p (unat i) else None)"
proof (cases "unat i < unat (slot_count p)")
  case True
  then have "unat i \<le> 1022"
    using unat_less_slot_count_bound [of i p] by linarith
  with True assms show ?thesis
    by (simp add: page_get_def word_le_nat_alt read_slot_entry_Some slot_data_range_def
        slice_run_def layout_simps slot_row_def row_bytes_def Let_def)
next
  case False
  then show ?thesis
    by (simp add: page_get_def word_le_nat_alt)
qed

lemma page_get_slots:
  assumes "page_wf p"
  shows "page_get p i = Some (if unat i < length (slots p) then slots p ! unat i else None)"
proof (cases "unat i < unat (slot_count p)")
  case True
  show ?thesis
  proof (cases "live p (unat i)")
    case live: True
    note l = page_wf_live [OF assms live]
    from l have "16 \<le> unat (slot_off p (unat i))"
      "unat (slot_off p (unat i)) + unat (slot_len p (unat i)) \<le> 4096"
      using page_wf_free_start [OF assms] by linarith+
    with True live assms show ?thesis
      by (simp add: page_get_total nth_slots live_def)
  next
    case False
    with True assms show ?thesis
      by (simp add: page_get_total nth_slots slot_row_def live_def)
  qed
next
  case False
  with assms show ?thesis by (simp add: page_get_total)
qed

end
