(* ===== verification/Page_Store.thy ===== *)
theory Page_Store
  imports Page_Fields
begin

text \<open>
  The row operations of a page, as total functions on well-formed pages, and what each does to the
  page's abstract contents \<^const>\<open>slots\<close>.
\<close>

subsection \<open>Changing one slot\<close>

text \<open>
  Every row operation changes at most one slot \<open>s\<close>: the page stays well-formed when that slot,
  if it is live afterwards, lies in the row region and apart from the other live rows.
\<close>

lemma page_wf_change:
  assumes wf: "page_wf p" and sized: "page_sized q" and cnt: "unat (raw_slot_count q) \<le> 1019"
    and fs: "unat (free_start p) \<le> unat (free_start q)" "unat (free_start q) \<le> dir_start q"
    and others: "\<And>i. live q i \<Longrightarrow> i \<noteq> s \<Longrightarrow>
      live p i \<and> slot_off q i = slot_off p i \<and> slot_len q i = slot_len p i"
    and here: "live q s \<Longrightarrow> 20 \<le> unat (slot_off q s) \<and>
      unat (slot_off q s) + unat (slot_len q s) \<le> unat (free_start q)"
    and apart: "\<And>i. live q s \<Longrightarrow> live p i \<Longrightarrow> i \<noteq> s \<Longrightarrow>
      unat (slot_off q s) + unat (slot_len q s) \<le> unat (slot_off p i) \<or>
      unat (slot_off p i) + unat (slot_len p i) \<le> unat (slot_off q s)"
  shows "page_wf q"
  unfolding page_wf_def
proof (intro conjI allI impI)
  show "20 \<le> unat (free_start q)" using page_wf_free_start [OF wf] fs by linarith
next
  fix i assume "live q i"
  then show "20 \<le> unat (slot_off q i)"
    and "unat (slot_off q i) + unat (slot_len q i) \<le> unat (free_start q)"
    using others [of i] here page_wf_live [OF wf, of i] fs by fastforce+
next
  fix i j assume ij: "live q i \<and> live q j \<and> i \<noteq> j"
  then consider "i = s" "j \<noteq> s" | "i \<noteq> s" "j = s" | "i \<noteq> s" "j \<noteq> s" by blast
  then show "unat (slot_off q i) + unat (slot_len q i) \<le> unat (slot_off q j) \<or>
        unat (slot_off q j) + unat (slot_len q j) \<le> unat (slot_off q i)"
  proof cases
    case 3
    with ij others page_wf_disjoint [OF wf, of i j] show ?thesis by simp
  qed (use ij others apart in \<open>metis+\<close>)
qed (use sized cnt fs in auto)

lemma slots_change:
  assumes "slot_count q = slot_count p"
    and "\<And>i. i < unat (slot_count p) \<Longrightarrow> i \<noteq> s \<Longrightarrow> slot_row q i = slot_row p i"
    and "slot_row q s = r" and "s < unat (slot_count p)"
  shows "slots q = (slots p)[s := r]"
  using assms by (intro nth_equalityI) (auto simp: nth_slots nth_list_update)

lemma slot_row_eq:
  assumes "page_wf p" and "live p i \<Longrightarrow> slot_off q i = slot_off p i"
    and "slot_len q i = slot_len p i" and "i < unat (slot_count p)"
    and "live p i \<Longrightarrow> row_bytes q (unat (slot_off p i)) (unat (slot_len p i)) =
           row_bytes p (unat (slot_off p i)) (unat (slot_len p i))"
  shows "slot_row q i = slot_row p i"
  using assms by (cases "live p i") (auto simp: slot_row_def live_def)

lemma slot_len_not_deleted: "n < 65535 \<Longrightarrow> (word_of_nat n :: u16) \<noteq> DELETED_MARKER"
  by (auto simp: word_unat_eq_iff)

subsection \<open>Appending a row\<close>

text \<open>
  The common tail of \<^const>\<open>page_insert\<close> and \<^const>\<open>page_insert_at_slot\<close>: the row goes to the
  end of the row region and a new directory entry points at it.
\<close>

definition append_row :: "page \<Rightarrow> bytes \<Rightarrow> page" where
  "append_row p row =
     set_slot_count
       (set_free_start
         (set_entry (set_row p (unat (free_start p)) row) (unat (slot_count p)) (free_start p)
            (word_of_nat (length row)))
         (word_of_nat (unat (free_start p) + length row)))
       (slot_count p + 1)"

definition row_fits :: "page \<Rightarrow> nat \<Rightarrow> bool" where
  "row_fits p n \<longleftrightarrow> n + 4 \<le> dir_start p - unat (free_start p)"

lemma row_fits_bounds:
  assumes "row_fits p n"
  shows "unat (free_start p) + n + 4 * unat (slot_count p) \<le> 4090"
  using assms slot_count_le [of p] by (auto simp: row_fits_def dir_start_def)

lemma page_insert_total:
  assumes "page_sized p"
  shows "page_insert p row =
     Some (if row_fits p (length row) then (append_row p row, Some (slot_count p)) else (p, None))"
proof (cases "row_fits p (length row)")
  case True
  note b = row_fits_bounds [OF True]
  have "unat (slot_count p) \<le> 1022" using slot_count_le [of p] by linarith
  moreover have "page_sized (set_row p (unat (free_start p)) row)"
    using assms b by simp
  ultimately show ?thesis
    using True b assms
    by (simp add: page_insert_def free_space_Some row_fits_def layout_simps copy_from_slice_def
        set_row_def [symmetric] write_slot_entry_Some append_row_def Let_def)
next
  case False
  then show ?thesis
    by (simp add: page_insert_def free_space_Some row_fits_def layout_simps)
qed

lemma append_row_fields:
  assumes wf: "page_wf p" and fits: "row_fits p (length row)"
  shows "page_sized (append_row p row)"
    and "unat (raw_slot_count (append_row p row)) = Suc (unat (slot_count p))"
    and "unat (slot_count (append_row p row)) = Suc (unat (slot_count p))"
    and "unat (free_start (append_row p row)) = unat (free_start p) + length row"
    and "j \<le> unat (slot_count p) \<Longrightarrow> slot_off (append_row p row) j =
           (if j = unat (slot_count p) then free_start p else slot_off p j)"
    and "j \<le> unat (slot_count p) \<Longrightarrow> slot_len (append_row p row) j =
           (if j = unat (slot_count p) then word_of_nat (length row) else slot_len p j)"
    and "20 \<le> a \<Longrightarrow> a + n \<le> unat (free_start p) \<Longrightarrow>
           row_bytes (append_row p row) a n = row_bytes p a n"
    and "row_bytes (append_row p row) (unat (free_start p)) (length row) = row"
proof -
  note b = row_fits_bounds [OF fits]
  note fs = page_wf_free_start [OF wf]
  let ?r = "set_row p (unat (free_start p)) row"
  have cnt: "unat (slot_count p) \<le> 1017" using b fs by linarith
  have sz: "page_sized ?r" using wf b by simp
  have e: "a \<le> unat (free_start p) + length row \<Longrightarrow> j \<le> unat (slot_count p) \<Longrightarrow> a \<le> entry_at j" for a j
    using b by linarith
  show "page_sized (append_row p row)"
    using sz cnt by (simp add: append_row_def)
  show raw: "unat (raw_slot_count (append_row p row)) = Suc (unat (slot_count p))"
    using sz cnt by (simp add: append_row_def page_field_simps unat_slot_count_Suc)
  show "unat (slot_count (append_row p row)) = Suc (unat (slot_count p))"
    using raw cnt by (simp add: unat_slot_count)
  have "unat (word_of_nat (unat (free_start p) + length row) :: u16) = unat (free_start p) + length row"
    using b by (intro unat_u16_of_nat) linarith
  then show "unat (free_start (append_row p row)) = unat (free_start p) + length row"
    using sz cnt by (simp add: append_row_def page_field_simps del: of_nat_add)
  show "slot_off (append_row p row) j =
      (if j = unat (slot_count p) then free_start p else slot_off p j)" if "j \<le> unat (slot_count p)"
    using that wf sz cnt e by (simp add: append_row_def page_field_simps)
  show "slot_len (append_row p row) j =
      (if j = unat (slot_count p) then word_of_nat (length row) else slot_len p j)" if "j \<le> unat (slot_count p)"
    using that wf sz cnt e by (simp add: append_row_def page_field_simps)
  show "row_bytes (append_row p row) a n = row_bytes p a n" if "20 \<le> a" "a + n \<le> unat (free_start p)"
  proof -
    have "a + n \<le> entry_at (unat (slot_count p))" "a + n \<le> 4094" using that b by linarith+
    with that wf sz cnt b show ?thesis by (simp add: append_row_def page_field_simps)
  qed
  show "row_bytes (append_row p row) (unat (free_start p)) (length row) = row"
    using wf sz cnt b fs e by (simp add: append_row_def page_field_simps)
qed

lemma append_row_slots:
  assumes wf: "page_wf p" and fits: "row_fits p (length row)"
  shows "slots (append_row p row) = slots p @ [Some row]"
proof (rule nth_equalityI)
  note fields = append_row_fields [OF wf fits]
  show "length (slots (append_row p row)) = length (slots p @ [Some row])"
    by (simp add: fields)
  fix i assume "i < length (slots (append_row p row))"
  then have i: "i \<le> unat (slot_count p)" by (simp add: fields)
  have len: "length row < 4096" using row_fits_bounds [OF fits] page_wf_free_start [OF wf] by linarith
  show "slots (append_row p row) ! i = (slots p @ [Some row]) ! i"
  proof (cases "i = unat (slot_count p)")
    case True
    have "unat (word_of_nat (length row) :: u16) = length row" using len by simp
    then have "(word_of_nat (length row) :: u16) \<noteq> DELETED_MARKER"
      using len by (auto simp: word_unat_eq_iff)
    with True len show ?thesis
      by (simp add: fields nth_slots slot_row_def nth_append)
  next
    case False
    with i have lt: "i < unat (slot_count p)" by simp
    show ?thesis
    proof (cases "live p i")
      case True
      note l = page_wf_live [OF wf True]
      with lt show ?thesis by (simp add: fields nth_slots slot_row_def nth_append)
    next
      case False
      with lt show ?thesis by (simp add: fields nth_slots slot_row_def nth_append live_def)
    qed
  qed
qed

lemma append_row_wf:
  assumes wf: "page_wf p" and fits: "row_fits p (length row)"
  shows "page_wf (append_row p row)"
proof (rule page_wf_change [OF wf, where s = "unat (slot_count p)"])
  note fields = append_row_fields [OF wf fits]
  note b = row_fits_bounds [OF fits]
  note fs = page_wf_free_start [OF wf]
  have len: "unat (word_of_nat (length row) :: u16) = length row" using b fs by simp
  show "unat (free_start (append_row p row)) \<le> dir_start (append_row p row)"
    using b fs by (simp add: fields dir_start_def)
  show "unat (slot_off (append_row p row) (unat (slot_count p))) +
      unat (slot_len (append_row p row) (unat (slot_count p))) \<le> unat (slot_off p i) \<or>
      unat (slot_off p i) + unat (slot_len p i)
        \<le> unat (slot_off (append_row p row) (unat (slot_count p)))" if "live p i" for i
    using page_wf_live [OF wf that] by (simp add: fields len)
  show "unat (raw_slot_count (append_row p row)) \<le> 1019" using b fs by (simp add: fields)
qed (use page_wf_free_start [OF wf] row_fits_bounds [OF fits] in
      \<open>auto simp: append_row_fields [OF wf fits] live_def split: if_splits\<close>)

subsection \<open>Deleting, shrinking and updating a row\<close>

lemma page_delete_total:
  assumes "page_sized p"
  shows "page_delete p i =
    Some (if unat i < unat (slot_count p)
          then set_entry p (unat i) (slot_off p (unat i)) DELETED_MARKER else p)"
proof (cases "unat i < unat (slot_count p)")
  case True
  then have "unat i \<le> 1022" using unat_less_slot_count_bound [of i p] by linarith
  with True assms show ?thesis
    by (simp add: page_delete_def less_slot_count read_slot_entry_Some write_slot_entry_Some)
next
  case False
  then show ?thesis by (simp add: page_delete_def less_slot_count)
qed

lemma set_entry_fields:
  assumes wf: "page_wf p" and i: "i < unat (slot_count p)"
  shows "page_sized (set_entry p i v w)"
    and "raw_slot_count (set_entry p i v w) = raw_slot_count p"
    and "slot_count (set_entry p i v w) = slot_count p"
    and "free_start (set_entry p i v w) = free_start p"
    and "dir_start (set_entry p i v w) = dir_start p"
    and "j < unat (slot_count p) \<Longrightarrow> slot_off (set_entry p i v w) j = (if j = i then v else slot_off p j)"
    and "j < unat (slot_count p) \<Longrightarrow> slot_len (set_entry p i v w) j = (if j = i then w else slot_len p j)"
    and "a + n \<le> unat (free_start p) \<Longrightarrow> row_bytes (set_entry p i v w) a n = row_bytes p a n"
proof -
  have i': "i \<le> 1018" using i slot_count_le [of p] by linarith
  show sz: "page_sized (set_entry p i v w)" using wf i' by simp
  show raw: "raw_slot_count (set_entry p i v w) = raw_slot_count p"
    using wf i' by (simp add: page_field_simps)
  then show cnt: "slot_count (set_entry p i v w) = slot_count p" by (simp add: slot_count_def)
  then show "dir_start (set_entry p i v w) = dir_start p" by (simp add: dir_start_def)
  show "free_start (set_entry p i v w) = free_start p" using wf i' by (simp add: page_field_simps)
  show "slot_off (set_entry p i v w) j = (if j = i then v else slot_off p j)" if "j < unat (slot_count p)"
    using wf i' that slot_count_le [of p] by (intro slot_off_set_entry) auto
  show "slot_len (set_entry p i v w) j = (if j = i then w else slot_len p j)" if "j < unat (slot_count p)"
    using wf i' that slot_count_le [of p] by (intro slot_len_set_entry) auto
  show "row_bytes (set_entry p i v w) a n = row_bytes p a n" if "a + n \<le> unat (free_start p)"
  proof (rule row_bytes_set_entry)
    show "a + n \<le> entry_at i" using that i page_wf_free_start [OF wf] by linarith
  qed (use wf i' in auto)
qed

lemma delete_entry:
  assumes wf: "page_wf p" and i: "i < unat (slot_count p)"
  defines "q \<equiv> set_entry p i (slot_off p i) DELETED_MARKER"
  shows "page_wf q" and "slots q = (slots p)[i := None]"
proof -
  note fields = set_entry_fields [OF wf i, where v = "slot_off p i" and w = DELETED_MARKER, folded q_def]
  have live_q: "live q j \<longleftrightarrow> live p j \<and> j \<noteq> i" for j
    by (auto simp: live_def fields split: if_splits)
  show "page_wf q"
    by (rule page_wf_change [OF wf, where s = i])
      (use wf fields in \<open>auto simp: live_q page_wf_def\<close>, auto simp: fields live_def)
  show "slots q = (slots p)[i := None]"
  proof (rule slots_change)
    fix j assume j: "j < unat (slot_count p)" "j \<noteq> i"
    show "slot_row q j = slot_row p j"
      by (rule slot_row_eq [OF wf]) (use j page_wf_live [OF wf] in \<open>auto simp: fields live_def\<close>)
  qed (use i in \<open>auto simp: fields slot_row_def\<close>)
qed

text \<open>Writing a row at \<open>a\<close> and pointing slot \<open>s\<close> at it: both branches of an update.\<close>

definition place_row :: "page \<Rightarrow> nat \<Rightarrow> u16 \<Rightarrow> bytes \<Rightarrow> u16 \<Rightarrow> page" where
  "place_row p s a row fs =
     set_free_start (set_entry (set_row p (unat a) row) s a (word_of_nat (length row))) fs"

lemma set_free_start_same: "page_sized p \<Longrightarrow> set_free_start p (free_start p) = p"
proof -
  assume "page_sized p"
  then have "u16_to_le (free_start p) = sub (data p) 6 2"
    by (simp add: free_start_def u16_to_from_le)
  with \<open>page_sized p\<close> show ?thesis
    by (simp add: set_free_start_def put_sub_same)
qed

lemma place_row:
  assumes wf: "page_wf p" and s: "s < unat (slot_count p)"
    and a: "20 \<le> unat a" "unat a + length row \<le> unat fs"
    and fs: "unat (free_start p) \<le> unat fs" "unat fs \<le> dir_start p"
    and apart: "\<And>i. live p i \<Longrightarrow> i \<noteq> s \<Longrightarrow>
      unat a + length row \<le> unat (slot_off p i) \<or> unat (slot_off p i) + unat (slot_len p i) \<le> unat a"
  defines "q \<equiv> place_row p s a row fs"
  shows "page_wf q" and "slots q = (slots p)[s := Some row]" and "free_start q = fs"
    and "slot_count q = slot_count p"
proof -
  let ?r = "set_row p (unat a) row"
  have cnt: "unat (slot_count p) \<le> 1019" by (rule slot_count_le)
  have fs4: "unat fs + 4 * unat (slot_count p) \<le> 4094"
    using fs cnt page_wf_free_start [OF wf] unfolding dir_start_def by linarith
  have len: "unat (word_of_nat (length row) :: u16) = length row" "length row < 65535"
    using a fs4 by auto
  have sz: "page_sized ?r" using wf a fs4 by simp
  have s': "s \<le> 1018" using s cnt by linarith
  have j: "unat a + length row \<le> entry_at j" "j \<le> 1019" if "j < unat (slot_count p)" for j
    using that a fs4 cnt by linarith+
  have sized: "page_sized q" using sz s' by (simp add: q_def place_row_def)
  have raw: "raw_slot_count q = raw_slot_count p"
    using wf sz s' a fs4 by (simp add: q_def place_row_def page_field_simps)
  then show cnt_q: "slot_count q = slot_count p" by (simp add: slot_count_def)
  show fs_q: "free_start q = fs"
    using sz s' by (simp add: q_def place_row_def page_field_simps)
  have off: "slot_off q j = (if j = s then a else slot_off p j)" if "j < unat (slot_count p)" for j
    using wf sz s' j [OF that] by (simp add: q_def place_row_def page_field_simps)
  have slen: "slot_len q j = (if j = s then word_of_nat (length row) else slot_len p j)"
    if "j < unat (slot_count p)" for j
    using wf sz s' j [OF that] by (simp add: q_def place_row_def page_field_simps)
  have row_q: "row_bytes q b n = row_bytes ?r b n" if "20 \<le> b" "b + n \<le> unat fs" for b n
  proof -
    have "b + n \<le> entry_at s" using that fs4 s by linarith
    then show ?thesis using that sz s' by (simp add: q_def place_row_def page_field_simps)
  qed
  show "page_wf q"
  proof (rule page_wf_change [OF wf sized, where s = s])
    show "unat (raw_slot_count q) \<le> 1019" using wf by (simp add: raw page_wf_def)
    show "unat (free_start q) \<le> dir_start q" using fs by (simp add: fs_q dir_start_def cnt_q)
  qed (use fs s a apart len in \<open>auto simp: fs_q live_def cnt_q off slen\<close>)
  show "slots q = (slots p)[s := Some row]"
  proof (rule slots_change [OF cnt_q])
    show "slot_row q s = Some row"
      using s a len wf fs4 slot_len_not_deleted [OF len(2)]
      by (simp add: slot_row_def off slen row_q page_field_simps)
    fix i assume i: "i < unat (slot_count p)" "i \<noteq> s"
    show "slot_row q i = slot_row p i"
    proof (rule slot_row_eq [OF wf])
      assume live: "live p i"
      note l = page_wf_live [OF wf live]
      have "row_bytes ?r (unat (slot_off p i)) (unat (slot_len p i)) =
          row_bytes p (unat (slot_off p i)) (unat (slot_len p i))"
        by (rule row_bytes_set_row_other) (use wf a fs4 apart [OF live i(2)] in auto)
      then show "row_bytes q (unat (slot_off p i)) (unat (slot_len p i)) =
          row_bytes p (unat (slot_off p i)) (unat (slot_len p i))"
        using l fs by (subst row_q) auto
    qed (use i in \<open>auto simp: off slen\<close>)
  qed (use s in auto)
qed

lemma page_update_fit_total:
  "page_update_fit p i n =
     Some (if live p (unat i)
           then (if n \<le> unat (slot_len p (unat i)) \<or> n \<le> dir_start p - unat (free_start p)
                 then InPlace else Relocates)
           else Missing)"
proof (cases "unat i < unat (slot_count p)")
  case True
  then have "unat i \<le> 1022" using unat_less_slot_count_bound [of i p] by linarith
  with True show ?thesis
    by (simp add: page_update_fit_def word_le_nat_alt read_slot_entry_Some free_space_Some live_def)
next
  case False
  then show ?thesis by (simp add: page_update_fit_def word_le_nat_alt live_def)
qed

text \<open>
  An update of a live row writes in place when the new row is no longer than the old one, and at
  the end of the row region when it fits there.
\<close>

lemma page_update_total:
  assumes wf: "page_wf p"
  shows "page_update p i row = Some
    (let off = slot_off p (unat i); len = slot_len p (unat i) in
     if \<not> live p (unat i) then (p, False)
     else if length row \<le> unat len then (place_row p (unat i) off row (free_start p), True)
     else if length row \<le> dir_start p - unat (free_start p)
     then (place_row p (unat i) (free_start p) row
             (word_of_nat (unat (free_start p) + length row)), True)
     else (p, False))"
proof (cases "live p (unat i)")
  case False
  then show ?thesis by (simp add: page_update_def page_update_fit_total)
next
  case True
  note l = page_wf_live [OF wf True]
  note f = page_wf_free_start [OF wf]
  have i: "unat i \<le> 1022" using l(3) by linarith
  consider "length row \<le> unat (slot_len p (unat i))"
    | "\<not> length row \<le> unat (slot_len p (unat i))" "length row \<le> dir_start p - unat (free_start p)"
    | "\<not> length row \<le> unat (slot_len p (unat i))" "\<not> length row \<le> dir_start p - unat (free_start p)"
    by blast
  then show ?thesis
  proof cases
    case 1
    then have le: "unat (slot_off p (unat i)) + length row \<le> 4096" using l f by linarith
    have sz: "page_sized (set_row p (unat (slot_off p (unat i))) row)" using wf le by simp
    let ?q = "set_entry (set_row p (unat (slot_off p (unat i))) row) (unat i) (slot_off p (unat i))
      (word_of_nat (length row))"
    have "page_sized ?q" using sz i by simp
    moreover have "free_start ?q = free_start p"
      using wf sz l le by (simp add: page_field_simps)
    ultimately have "set_free_start ?q (free_start p) = ?q"
      using set_free_start_same [of ?q] by simp
    with 1 True i le sz wf show ?thesis
      by (simp add: page_update_def page_update_fit_total read_slot_entry_Some copy_from_slice_def
          set_row_def [symmetric] write_slot_entry_Some place_row_def Let_def)
  next
    case 2
    then have le: "unat (free_start p) + length row \<le> 4096" using f unfolding dir_start_def by linarith
    have sz: "page_sized (set_row p (unat (free_start p)) row)" using wf le by simp
    from 2 True i le sz wf show ?thesis
      by (simp add: page_update_def page_update_fit_total read_slot_entry_Some copy_from_slice_def
          set_row_def [symmetric] write_slot_entry_Some place_row_def Let_def)
  next
    case 3
    with True show ?thesis by (simp add: page_update_def page_update_fit_total)
  qed
qed

lemma page_shrink_slot_total:
  assumes "page_sized p"
  shows "page_shrink_slot p i n =
    Some (if live p (unat i) \<and> unat n \<le> unat (slot_len p (unat i))
          then (set_entry p (unat i) (slot_off p (unat i)) n, True) else (p, False))"
proof (cases "unat i < unat (slot_count p)")
  case True
  then have "unat i \<le> 1022" using unat_less_slot_count_bound [of i p] by linarith
  with True assms show ?thesis
    by (auto simp: page_shrink_slot_def word_le_nat_alt word_less_nat_alt read_slot_entry_Some
        write_slot_entry_Some live_def)
next
  case False
  then show ?thesis by (simp add: page_shrink_slot_def word_le_nat_alt live_def)
qed

lemma take_row_bytes: "n \<le> m \<Longrightarrow> take n (row_bytes p a m) = row_bytes p a n"
  by (simp add: row_bytes_def sub_def min_def)

lemma shrink_entry:
  assumes wf: "page_wf p" and live: "live p i" and n: "unat n \<le> unat (slot_len p i)"
  defines "q \<equiv> set_entry p i (slot_off p i) n"
  shows "page_wf q" and "slots q = (slots p)[i := map_option (take (unat n)) (slots p ! i)]"
proof -
  have i: "i < unat (slot_count p)" using live by (simp add: live_def)
  note l = page_wf_live [OF wf live]
  have len: "unat (slot_len p i) < 65535"
    using l page_wf_free_start [OF wf] by linarith
  have n': "n \<noteq> DELETED_MARKER" using n len by auto
  note fields = set_entry_fields [OF wf i, where v = "slot_off p i" and w = n, folded q_def]
  have live_q: "live q j \<longleftrightarrow> live p j" for j
    using live n' by (auto simp: live_def fields split: if_splits)
  show "page_wf q"
  proof (rule page_wf_change [OF wf, where s = i])
    fix j assume "live p j" "j \<noteq> i"
    then show "unat (slot_off q i) + unat (slot_len q i) \<le> unat (slot_off p j) \<or>
        unat (slot_off p j) + unat (slot_len p j) \<le> unat (slot_off q i)"
      using page_wf_disjoint [OF wf live, of j] n i by (auto simp: fields)
  qed (use wf live l n i in \<open>auto simp: fields live_q page_wf_def\<close>, auto simp: fields live_def)
  show "slots q = (slots p)[i := map_option (take (unat n)) (slots p ! i)]"
  proof (rule slots_change)
    fix j assume j: "j < unat (slot_count p)" "j \<noteq> i"
    show "slot_row q j = slot_row p j"
      by (rule slot_row_eq [OF wf]) (use j page_wf_live [OF wf] in \<open>auto simp: fields live_def\<close>)
  next
    show "slot_row q i = map_option (take (unat n)) (slots p ! i)"
      using i n n' l live by (simp add: fields slot_row_def nth_slots live_def take_row_bytes)
  qed (use i in \<open>auto simp: fields\<close>)
qed

lemma update_page:
  assumes wf: "page_wf p" and upd: "page_update p i row = Some (q, ok)"
  shows "page_wf q"
    and "ok \<longleftrightarrow> live p (unat i) \<and>
          (length row \<le> unat (slot_len p (unat i)) \<or> length row \<le> dir_start p - unat (free_start p))"
    and "slots q = (if ok then (slots p)[unat i := Some row] else slots p)"
proof -
  let ?i = "unat i"
  show ok: "ok \<longleftrightarrow> live p ?i \<and>
      (length row \<le> unat (slot_len p ?i) \<or> length row \<le> dir_start p - unat (free_start p))"
    using upd by (auto simp: page_update_total [OF wf] Let_def split: if_splits)
  have "page_wf q \<and> slots q = (slots p)[?i := Some row]" if ok
  proof -
    have live: "live p ?i" using that ok by simp
    then have i: "?i < unat (slot_count p)" by (simp add: live_def)
    note l = page_wf_live [OF wf live] and f = page_wf_free_start [OF wf]
    show ?thesis
    proof (cases "length row \<le> unat (slot_len p ?i)")
      case True
      then have q: "q = place_row p ?i (slot_off p ?i) row (free_start p)"
        using upd live by (simp add: page_update_total [OF wf] Let_def)
      have "unat (slot_off p ?i) + length row \<le> unat (slot_off p j) \<or>
          unat (slot_off p j) + unat (slot_len p j) \<le> unat (slot_off p ?i)"
        if "live p j" "j \<noteq> ?i" for j
        using page_wf_disjoint [OF wf live that(1)] that(2) True by fastforce
      then show ?thesis
        unfolding q using True l wf i
        by (intro conjI place_row [OF wf i]) (auto simp: page_wf_def)
    next
      case False
      let ?fs = "word_of_nat (unat (free_start p) + length row) :: u16"
      from False have le: "length row \<le> dir_start p - unat (free_start p)"
        and q: "q = place_row p ?i (free_start p) row ?fs"
        using upd live that ok by (auto simp: page_update_total [OF wf] Let_def split: if_splits)
      have "unat (free_start p) + length row < 65536" using le f unfolding dir_start_def by linarith
      then have fs: "unat ?fs = unat (free_start p) + length row" by (rule unat_u16_of_nat)
      have "unat (free_start p) + length row \<le> dir_start p"
        using le f unfolding dir_start_def by linarith
      then show ?thesis
        unfolding q using l f page_wf_live [OF wf]
        by (intro conjI place_row [OF wf i]) (auto simp: fs simp del: of_nat_add)
    qed
  qed
  moreover have "q = p" if "\<not> ok"
    using that upd by (auto simp: page_update_total [OF wf] Let_def split: if_splits)
  ultimately show "page_wf q" "slots q = (if ok then (slots p)[?i := Some row] else slots p)"
    using wf by auto
qed

subsection \<open>Placing a row at a given slot\<close>

text \<open>One round of the loop that bridges a gap of the directory with tombstones.\<close>

definition add_tombstone :: "page \<Rightarrow> page" where
  "add_tombstone p =
     set_slot_count (set_entry p (unat (slot_count p)) 0 DELETED_MARKER) (slot_count p + 1)"

lemma bridge_gap_step:
  assumes "page_sized p"
  shows "bridge_gap p slot =
    (if unat (slot_count p) < unat slot then bridge_gap (add_tombstone p) slot else Some p)"
proof -
  have "unat (slot_count p) \<le> 1022" using slot_count_le [of p] by linarith
  with assms show ?thesis
    by (subst bridge_gap.simps) (simp add: word_less_nat_alt write_slot_entry_Some add_tombstone_def)
qed

lemma add_tombstone:
  assumes wf: "page_wf p" and fits: "row_fits p 0"
  shows "page_wf (add_tombstone p)" and "slots (add_tombstone p) = slots p @ [None]"
    and "free_start (add_tombstone p) = free_start p"
    and "unat (slot_count (add_tombstone p)) = Suc (unat (slot_count p))"
    and "dir_start (add_tombstone p) = dir_start p - 4"
proof -
  let ?n = "unat (slot_count p)"
  let ?q = "add_tombstone p"
  note b = row_fits_bounds [OF fits] and f = page_wf_free_start [OF wf]
  have n: "?n \<le> 1017" using b f by linarith
  have raw: "unat (raw_slot_count ?q) = Suc ?n"
    using wf n by (simp add: add_tombstone_def page_field_simps unat_slot_count_Suc)
  then show cnt: "unat (slot_count ?q) = Suc ?n" using n by (simp add: unat_slot_count)
  then show dir: "dir_start ?q = dir_start p - 4" by (simp add: dir_start_def)
  show fs: "free_start ?q = free_start p" using wf n by (simp add: add_tombstone_def page_field_simps)
  have sized: "page_sized ?q" using wf n by (simp add: add_tombstone_def)
  have off: "slot_off ?q j = (if j = ?n then 0 else slot_off p j)" if "j \<le> ?n" for j
    using wf n that by (simp add: add_tombstone_def page_field_simps)
  have len: "slot_len ?q j = (if j = ?n then DELETED_MARKER else slot_len p j)" if "j \<le> ?n" for j
    using wf n that by (simp add: add_tombstone_def page_field_simps)
  have rows: "row_bytes ?q a m = row_bytes p a m" if "a + m \<le> unat (free_start p)" for a m
  proof -
    have "a + m \<le> entry_at ?n" "a + m \<le> 4094" using that b by linarith+
    then show ?thesis using wf n by (simp add: add_tombstone_def page_field_simps)
  qed
  show "page_wf ?q"
  proof (rule page_wf_change [OF wf sized, where s = ?n])
    show "unat (free_start ?q) \<le> dir_start ?q" using b f n unfolding fs dir_start_def cnt by simp
  qed (use raw n in \<open>auto simp: fs live_def cnt off len split: if_splits\<close>)
  show "slots ?q = slots p @ [None]"
  proof (rule nth_equalityI)
    fix i assume "i < length (slots ?q)"
    then have i: "i \<le> ?n" by (simp add: cnt)
    show "slots ?q ! i = (slots p @ [None]) ! i"
    proof (cases "i = ?n")
      case True
      then show ?thesis by (simp add: nth_slots cnt nth_append slot_row_def len)
    next
      case False
      with i have "i < ?n" by simp
      moreover have "slot_row ?q i = slot_row p i"
        by (rule slot_row_eq [OF wf]) (use \<open>i < ?n\<close> page_wf_live [OF wf, of i] in \<open>auto simp: off len rows\<close>)
      ultimately show ?thesis by (simp add: nth_slots cnt nth_append)
    qed
  qed (simp add: cnt)
qed

lemma bridge_gap_fills:
  assumes "page_wf p" and "unat (slot_count p) + k = unat slot"
    and "unat (free_start p) + 4 * k \<le> dir_start p"
  shows "\<exists>q. bridge_gap p slot = Some q \<and> page_wf q \<and> slots q = slots p @ replicate k None \<and>
    free_start q = free_start p \<and> dir_start q = dir_start p - 4 * k"
  using assms
proof (induction k arbitrary: p)
  case 0
  then show ?case using bridge_gap_step [of p slot] by simp
next
  case (Suc k)
  have fits: "row_fits p 0" using Suc.prems(3) by (simp add: row_fits_def)
  note t = add_tombstone [OF Suc.prems(1) fits]
  have "\<exists>q. bridge_gap (add_tombstone p) slot = Some q \<and> page_wf q \<and>
      slots q = slots (add_tombstone p) @ replicate k None \<and>
      free_start q = free_start (add_tombstone p) \<and> dir_start q = dir_start (add_tombstone p) - 4 * k"
    by (rule Suc.IH) (use Suc.prems t in auto)
  moreover have "bridge_gap p slot = bridge_gap (add_tombstone p) slot"
    using Suc.prems bridge_gap_step [of p slot] by simp
  ultimately show ?case by (auto simp: t)
qed

lemma insert_at_slot_page:
  assumes wf: "page_wf p"
  shows "\<exists>q ok. page_insert_at_slot p slot row = Some (q, ok) \<and> page_wf q \<and>
    (if unat slot < length (slots p) then ok \<and> q = p
     else ok = (length row + 4 * (unat slot - length (slots p) + 1)
                  \<le> dir_start p - unat (free_start p)) \<and>
          slots q = (if ok then slots p @ replicate (unat slot - length (slots p)) None @ [Some row]
                     else slots p))"
proof (cases "unat slot < unat (slot_count p)")
  case True
  with wf show ?thesis
    by (intro exI [of _ p] exI [of _ True]) (simp add: page_insert_at_slot_def less_slot_count)
next
  case False
  let ?k = "unat slot - unat (slot_count p)"
  have k: "unat (slot - slot_count p) = ?k"
    using False by (simp add: unat_sub word_le_nat_alt)
  show ?thesis
  proof (cases "length row + 4 * (?k + 1) \<le> dir_start p - unat (free_start p)")
    case fits: True
    have "l + 4 * (k + 1) \<le> d - f \<Longrightarrow> f + 4 * k \<le> d" for l k d f :: nat by arith
    with fits have "unat (free_start p) + 4 * ?k \<le> dir_start p" by blast
    moreover have "unat (slot_count p) + ?k = unat slot" using False by simp
    ultimately obtain q where q: "bridge_gap p slot = Some q" "page_wf q"
        "slots q = slots p @ replicate ?k None" "free_start q = free_start p"
        "dir_start q = dir_start p - 4 * ?k"
      using bridge_gap_fills [OF wf] by blast
    have fq: "row_fits q (length row)" using fits by (simp add: row_fits_def q)
    note b = row_fits_bounds [OF fq]
    have cond: "\<not> dir_start p - unat (free_start p) < length row + SLOT_ENTRY_SIZE * (unat (slot - slot_count p) + 1)"
      using fits k by (simp add: layout_simps)
    have copy: "copy_from_slice (data q) (unat (free_start q)) row = Some (data (set_row q (unat (free_start q)) row))"
      using q(2) b by (simp add: copy_from_slice_def set_row_def)
    have "page_sized (set_row q (unat (free_start q)) row)" using q(2) b by simp
    moreover have "unat (slot_count q) \<le> 1022" using slot_count_le [of q] by linarith
    ultimately have entry: "write_slot_entry (q\<lparr>data := data (set_row q (unat (free_start q)) row)\<rparr>)
        (slot_count q) (free_start q) (word_of_nat (length row)) =
        Some (set_entry (set_row q (unat (free_start q)) row) (unat (slot_count q)) (free_start q)
          (word_of_nat (length row)))"
      by (simp add: set_row_def write_slot_entry_Some)
    have "page_insert_at_slot p slot row = Some (append_row q row, True)"
      unfolding page_insert_at_slot_def Let_def append_row_def
      by (simp only: less_slot_count False if_False free_space_Some bind.bind_lunit cond q(1) copy entry)
    with append_row_wf [OF q(2) fq] append_row_slots [OF q(2) fq] False fits show ?thesis
      by (intro exI [of _ "append_row q row"] exI [of _ True]) (simp add: q(3))
  next
    case nofit: False
    have cond: "dir_start p - unat (free_start p) < length row + SLOT_ENTRY_SIZE * (unat (slot - slot_count p) + 1)"
      using nofit k by (simp add: layout_simps)
    have "page_insert_at_slot p slot row = Some (p, False)"
      unfolding page_insert_at_slot_def Let_def
      by (simp only: less_slot_count False if_False if_True free_space_Some bind.bind_lunit cond)
    with wf False nofit show ?thesis
      by (intro exI [of _ p] exI [of _ False]) simp
  qed
qed

end
