(* ===== verification/Page_Compact.thy ===== *)
theory Page_Compact
  imports Page_Store "HOL-Library.Multiset"
begin

text \<open>
  Compaction: sliding the live rows to the front of the row region keeps every row and every slot
  index, and turns exactly the dead bytes back into free space.
\<close>

subsection \<open>Collecting the live rows\<close>

definition live_entries :: "page \<Rightarrow> nat \<Rightarrow> (u16 \<times> u16 \<times> u16) list" where
  "live_entries p n = map (\<lambda>i. (slot_off p i, slot_len p i, word_of_nat i)) (filter (live p) [0..<n])"

definition entry_bytes :: "(u16 \<times> u16 \<times> u16) list \<Rightarrow> nat" where
  "entry_bytes es = sum_list (map (\<lambda>(_, len, _). unat len) es)"

lemma collect_live_wf:
  assumes wf: "page_wf p"
  shows "n \<le> unat (slot_count p) \<Longrightarrow> collect_live p n = Some (Some (live_entries p n))"
proof (induction n)
  case 0
  show ?case by (simp add: live_entries_def)
next
  case (Suc n)
  have n: "unat (word_of_nat n :: u16) = n" "n \<le> 1022"
    using Suc.prems slot_count_le [of p] by simp_all
  show ?case
  proof (cases "live p n")
    case True
    note l = page_wf_live [OF wf True] and f = page_wf_free_start [OF wf]
    from l f have "unat (slot_off p n) + unat (slot_len p n) \<le> 4096" by linarith
    with Suc n True l show ?thesis
      by (simp add: read_slot_entry_Some live_entries_def layout_simps) (simp add: live_def)
  next
    case False
    with Suc n show ?thesis
      by (simp add: read_slot_entry_Some live_entries_def live_def)
  qed
qed

lemma sum_live_wf:
  assumes wf: "page_wf p"
  shows "n \<le> unat (slot_count p) \<Longrightarrow> sum_live p n = Some (entry_bytes (live_entries p n))"
proof (induction n)
  case 0
  show ?case by (simp add: live_entries_def entry_bytes_def)
next
  case (Suc n)
  have "unat (word_of_nat n :: u16) = n" "n \<le> 1022"
    using Suc.prems slot_count_le [of p] by simp_all
  with Suc show ?case
    by (simp add: read_slot_entry_Some live_entries_def entry_bytes_def live_def)
qed

subsection \<open>Sliding rows down\<close>

text \<open>
  \<open>chain b es\<close>: the rows \<open>es\<close> follow one another from \<open>b\<close> on without overlap (an empty row may
  lie anywhere). \<open>placed c es\<close> lists, for each row, its slot and its new offset.
\<close>

fun chain :: "nat \<Rightarrow> (u16 \<times> u16 \<times> u16) list \<Rightarrow> bool" where
  "chain b [] = True"
| "chain b ((offset, len, slot) # es) =
     (if len = 0 then chain b es else b \<le> unat offset \<and> chain (unat offset + unat len) es)"

fun placed :: "nat \<Rightarrow> (u16 \<times> u16 \<times> u16) list \<Rightarrow> (u16 \<times> u16 \<times> u16 \<times> nat) list" where
  "placed c [] = []"
| "placed c ((offset, len, slot) # es) = (offset, len, slot, c) # placed (c + unat len) es"

lemma placed_range:
  "(offset, len, slot, c') \<in> set (placed c es) \<Longrightarrow> c \<le> c' \<and> c' + unat len \<le> c + entry_bytes es"
  by (induction c es rule: placed.induct) (auto simp: entry_bytes_def)

lemma placed_disjoint:
  assumes "(o1, l1, s1, c1) \<in> set (placed c es)" "(o2, l2, s2, c2) \<in> set (placed c es)" "s1 \<noteq> s2"
  shows "c1 + unat l1 \<le> c2 \<or> c2 + unat l2 \<le> c1"
  using assms
  by (induction c es rule: placed.induct) (auto dest: placed_range)

lemma placed_entries: "(offset, len, slot) \<in> set es \<longleftrightarrow> (\<exists>c'. (offset, len, slot, c') \<in> set (placed c es))"
  by (induction c es rule: placed.induct) auto

lemma chain_lower:
  "chain b es \<Longrightarrow> (offset, len, slot) \<in> set es \<Longrightarrow> len = 0 \<or> b \<le> unat offset"
  by (induction b es rule: chain.induct) (fastforce split: if_splits)+

lemma entry_bytes_le:
  "chain b es \<Longrightarrow> \<forall>(offset, len, slot) \<in> set es. unat offset + unat len \<le> m \<Longrightarrow> b \<le> m \<Longrightarrow>
   b + entry_bytes es \<le> m"
proof (induction b es rule: chain.induct)
  case (2 b offset len slot es)
  then show ?case by (cases "len = 0") (auto simp: entry_bytes_def)
qed (simp add: entry_bytes_def)

text \<open>
  One step of the slide, and the slide itself: \<open>n\<close> slots, every row below their directory.
\<close>

definition slide_row :: "page \<Rightarrow> nat \<Rightarrow> u16 \<Rightarrow> u16 \<Rightarrow> nat \<Rightarrow> page" where
  "slide_row p c offset len s =
     (if unat offset = c then p
      else set_entry (set_row p c (row_bytes p (unat offset) (unat len))) s (word_of_nat c) len)"

lemma row_bytes_0 [simp]: "row_bytes p a 0 = []"
  by (simp add: row_bytes_def)

lemma slide_rows_step:
  assumes "page_sized p" "unat offset + unat len \<le> 4096" "c + unat len \<le> 4096" "unat s \<le> 1022"
  shows "slide_rows p c ((offset, len, s) # es) =
         slide_rows (slide_row p c offset len (unat s)) (c + unat len) es"
proof -
  have "page_sized (p\<lparr>data := put (data p) c (sub (data p) (unat offset) (unat len))\<rparr>)"
    using assms by (simp add: page_sized_def layout_simps)
  with assms show ?thesis
    by (simp add: slide_row_def copy_within_def write_slot_entry_Some set_row_def row_bytes_def)
qed

lemma slide_row_fields:
  assumes p: "page_sized p" and n: "n \<le> 1019" "s < n"
    and range: "unat offset + unat len \<le> 4094 - 4 * n" "c + unat len \<le> 4094 - 4 * n" "20 \<le> c"
    and entry: "slot_off p s = offset" "slot_len p s = len"
  defines "q \<equiv> slide_row p c offset len s"
  shows "page_sized q" "raw_slot_count q = raw_slot_count p" "free_start q = free_start p"
    and "i < n \<Longrightarrow> slot_off q i = (if i = s then word_of_nat c else slot_off p i)"
    and "i < n \<Longrightarrow> slot_len q i = slot_len p i"
    and "row_bytes q c (unat len) = row_bytes p (unat offset) (unat len)"
    and "a + m \<le> 4094 - 4 * n \<Longrightarrow> a + m \<le> c \<or> c + unat len \<le> a \<Longrightarrow> row_bytes q a m = row_bytes p a m"
proof -
  have d: "4094 - 4 * n \<le> entry_at i" if "i < n" for i
    using that n by linarith
  have row: "length (row_bytes p (unat offset) (unat len)) = unat len"
    using p range by simp
  note facts = p n range entry row d [of s]
  show "page_sized q" "raw_slot_count q = raw_slot_count p" "free_start q = free_start p"
    and "row_bytes q c (unat len) = row_bytes p (unat offset) (unat len)"
    and "a + m \<le> 4094 - 4 * n \<Longrightarrow> a + m \<le> c \<or> c + unat len \<le> a \<Longrightarrow> row_bytes q a m = row_bytes p a m"
    using facts by (auto simp: q_def slide_row_def page_field_simps)
  show "i < n \<Longrightarrow> slot_off q i = (if i = s then word_of_nat c else slot_off p i)"
    and "i < n \<Longrightarrow> slot_len q i = slot_len p i"
    using facts d [of i] by (auto simp: q_def slide_row_def page_field_simps)
qed

lemma slide_rows_correct:
  assumes "page_sized p" "n \<le> 1019" "20 \<le> c" "c \<le> b" "b \<le> 4094 - 4 * n"
    and "chain b es" "distinct (map (\<lambda>(_, _, s). s) es)"
    and "\<forall>(offset, len, s) \<in> set es. unat s < n \<and> unat offset + unat len \<le> 4094 - 4 * n \<and>
           slot_off p (unat s) = offset \<and> slot_len p (unat s) = len"
  shows "\<exists>q. slide_rows p c es = Some (q, c + entry_bytes es) \<and>
           page_sized q \<and> raw_slot_count q = raw_slot_count p \<and> free_start q = free_start p \<and>
           (\<forall>i < n. slot_len q i = slot_len p i) \<and>
           (\<forall>a m. a + m \<le> c \<longrightarrow> row_bytes q a m = row_bytes p a m) \<and>
           (\<forall>i < n. word_of_nat i \<notin> (\<lambda>(_, _, s). s) ` set es \<longrightarrow> slot_off q i = slot_off p i) \<and>
           (\<forall>(offset, len, s, c') \<in> set (placed c es). slot_off q (unat s) = word_of_nat c' \<and>
              row_bytes q c' (unat len) = row_bytes p (unat offset) (unat len))"
  using assms
proof (induction es arbitrary: p c b)
  case Nil
  then show ?case by (simp add: entry_bytes_def)
next
  case (Cons e es)
  obtain offset len s where e: "e = (offset, len, s)" by (cases e)
  from Cons.prems(8) have here: "unat s < n" "unat offset + unat len \<le> 4094 - 4 * n"
      "slot_off p (unat s) = offset" "slot_len p (unat s) = len"
    by (auto simp: e)
  define b' where "b' = (if len = 0 then b else unat offset + unat len)"
  have b': "c + unat len \<le> b'" "b' \<le> 4094 - 4 * n" "chain b' es"
    using Cons.prems here by (auto simp: b'_def e split: if_splits)
  define q where "q = slide_row p c offset len (unat s)"
  note fields = slide_row_fields [OF Cons.prems(1,2) here(1,2) _ Cons.prems(3) here(3,4), folded q_def]
  have step: "slide_rows p c (e # es) = slide_rows q (c + unat len) es"
    unfolding e q_def using Cons.prems(1,2) here b' by (intro slide_rows_step) linarith+
  have bound: "c + unat len \<le> 4094 - 4 * n" using b' by linarith
  note fields = fields [OF bound]
  have fresh: "s \<notin> (\<lambda>(_, _, s). s) ` set es"
    using Cons.prems(7) by (auto simp: e)
  have other: "unat s2 \<noteq> unat s" if "(o2, l2, s2) \<in> set es" for o2 l2 s2
    using fresh that by (auto simp: image_iff simp flip: word_eq_iff_unsigned)
  have rest: "\<forall>(offset, len, s) \<in> set es. unat s < n \<and> unat offset + unat len \<le> 4094 - 4 * n \<and>
           slot_off q (unat s) = offset \<and> slot_len q (unat s) = len"
    using Cons.prems(8) other by (auto simp: e fields(4,5))
  have kept: "row_bytes q (unat o2) (unat l2) = row_bytes p (unat o2) (unat l2)"
    if "(o2, l2, s2) \<in> set es" for o2 l2 s2
    using chain_lower [OF b'(3) that] b'(1) rest that
    by (cases "l2 = 0") (auto intro!: fields(7))
  have "20 \<le> c + unat len" "distinct (map (\<lambda>(_, _, s). s) es)"
    using Cons.prems(3,7) by (simp_all add: e)
  from Cons.IH [OF fields(1) Cons.prems(2) this(1) b' this(2) rest]
  obtain q' where q': "slide_rows q (c + unat len) es = Some (q', c + unat len + entry_bytes es)"
      "page_sized q'" "raw_slot_count q' = raw_slot_count q" "free_start q' = free_start q"
      "\<forall>i < n. slot_len q' i = slot_len q i"
      "\<forall>a m. a + m \<le> c + unat len \<longrightarrow> row_bytes q' a m = row_bytes q a m"
      "\<forall>i < n. word_of_nat i \<notin> (\<lambda>(_, _, s). s) ` set es \<longrightarrow> slot_off q' i = slot_off q i"
      "\<forall>(offset, len, s, c') \<in> set (placed (c + unat len) es). slot_off q' (unat s) = word_of_nat c' \<and>
              row_bytes q' c' (unat len) = row_bytes q (unat offset) (unat len)"
    by blast
  show ?case
  proof (intro exI [of _ q'] conjI allI impI)
    show "slide_rows p c (e # es) = Some (q', c + entry_bytes (e # es))"
      using step q'(1) by (simp add: e entry_bytes_def del: slide_rows.simps)
    show "page_sized q'" "raw_slot_count q' = raw_slot_count p" "free_start q' = free_start p"
      by (simp_all add: q' fields)
    show "slot_len q' i = slot_len p i" if "i < n" for i
      using that q'(5) by (simp add: fields(5))
    show "row_bytes q' a m = row_bytes p a m" if "a + m \<le> c" for a m
      using that q'(6) Cons.prems(4,5) by (simp add: fields(7))
    show "slot_off q' i = slot_off p i"
      if "i < n" "word_of_nat i \<notin> (\<lambda>(_, _, s). s) ` set (e # es)" for i
      using that q'(7) by (auto simp: fields(4) e)
    show "\<forall>(offset, len, s, c') \<in> set (placed c (e # es)). slot_off q' (unat s) = word_of_nat c' \<and>
              row_bytes q' c' (unat len) = row_bytes p (unat offset) (unat len)"
    proof (clarsimp simp: e, safe)
      have "slot_off q' (unat s) = slot_off q (unat s)"
        using q'(7) here(1) fresh by simp
      then show "slot_off q' (unat s) = word_of_nat c"
        using here(1) by (simp add: fields(4))
      show "row_bytes q' c (unat len) = row_bytes p (unat offset) (unat len)"
        using q'(6) by (simp add: fields(6))
    next
      fix o2 l2 s2 c2 assume pl: "(o2, l2, s2, c2) \<in> set (placed (c + unat len) es)"
      then have mem: "(o2, l2, s2) \<in> set es"
        using placed_entries by blast
      from q'(8) pl kept [OF mem] show "slot_off q' (unat s2) = word_of_nat c2"
        "row_bytes q' c2 (unat l2) = row_bytes p (unat o2) (unat l2)"
        by auto
    qed
  qed
qed

subsection \<open>Compacting a page\<close>

definition apart :: "u16 \<times> u16 \<times> u16 \<Rightarrow> u16 \<times> u16 \<times> u16 \<Rightarrow> bool" where
  "apart = (\<lambda>(o1, l1, s1) (o2, l2, s2).
     unat o1 + unat l1 \<le> unat o2 \<or> unat o2 + unat l2 \<le> unat o1)"

lemma chain_sorted:
  assumes "sorted (map (\<lambda>(offset, _, _). offset) es)" "distinct es" "pairwise apart (set es)"
    and "\<forall>(offset, len, s) \<in> set es. len = 0 \<or> b \<le> unat offset"
  shows "chain b es"
  using assms
proof (induction es arbitrary: b)
  case (Cons e es)
  obtain offset len s where e: "e = (offset, len, s)" by (cases e)
  have later: "l2 = 0 \<or> unat offset + unat len \<le> unat o2" if "(o2, l2, s2) \<in> set es" for o2 l2 s2
  proof -
    have "apart (offset, len, s) (o2, l2, s2)"
      using Cons.prems(2,3) that by (auto simp: e pairwise_def)
    moreover have "unat offset \<le> unat o2"
      using Cons.prems(1) that by (force simp: e word_le_nat_alt)
    ultimately show ?thesis
      by (auto simp: apart_def unat_eq_0 [symmetric] simp del: unat_eq_0)
  qed
  have "pairwise apart (set es)"
    using Cons.prems(3) by (rule pairwise_subset) auto
  then have "chain b' es" if "\<forall>(offset, len, s) \<in> set es. len = 0 \<or> b' \<le> unat offset" for b'
    using Cons.IH [of b'] Cons.prems(1,2) that by simp
  with later Cons.prems(4) show ?case
    by (simp add: e) blast
qed simp

lemma live_entries_mem:
  assumes "page_wf p" "n = unat (slot_count p)"
  shows "(offset, len, s) \<in> set (live_entries p n) \<longleftrightarrow>
         live p (unat s) \<and> slot_off p (unat s) = offset \<and> slot_len p (unat s) = len"
proof -
  have u: "unat (word_of_nat i :: u16) = i" if "live p i" for i
    using page_wf_live(3) [OF assms(1) that] by simp
  have n: "live p i \<Longrightarrow> i < n" for i
    by (simp add: live_def assms(2))
  show ?thesis
  proof
    assume "(offset, len, s) \<in> set (live_entries p n)"
    with u show "live p (unat s) \<and> slot_off p (unat s) = offset \<and> slot_len p (unat s) = len"
      by (auto simp: live_entries_def)
  next
    assume "live p (unat s) \<and> slot_off p (unat s) = offset \<and> slot_len p (unat s) = len"
    with n [of "unat s"] show "(offset, len, s) \<in> set (live_entries p n)"
      by (simp add: live_entries_def image_iff) (rule exI [of _ "unat s"], simp)
  qed
qed

lemma live_entries_distinct:
  assumes "page_wf p"
  shows "distinct (map (\<lambda>(_, _, s). s) (live_entries p (unat (slot_count p))))"
proof -
  have u: "unat (word_of_nat i :: u16) = i" if "live p i" for i
    using page_wf_live(3) [OF assms that] by simp
  have "inj_on (word_of_nat :: nat \<Rightarrow> u16) {i. live p i}"
    by (rule inj_on_inverseI [where g = unat]) (simp add: u)
  then have "inj_on (word_of_nat :: nat \<Rightarrow> u16) (set (filter (live p) [0..<n]))" for n
    by (rule inj_on_subset) auto
  then show ?thesis
    by (simp only: live_entries_def distinct_map map_map comp_def prod.case
        distinct_filter distinct_upt simp_thms)
qed

text \<open>The live rows in the order the slide visits them.\<close>

definition slide_order :: "page \<Rightarrow> (u16 \<times> u16 \<times> u16) list" where
  "slide_order p = sort_key (\<lambda>(offset, _, _). offset) (live_entries p (unat (slot_count p)))"

lemma slide_order_mem:
  "page_wf p \<Longrightarrow> (offset, len, s) \<in> set (slide_order p) \<longleftrightarrow>
     live p (unat s) \<and> slot_off p (unat s) = offset \<and> slot_len p (unat s) = len"
  by (simp add: slide_order_def live_entries_mem)

lemma slide_order_distinct:
  assumes "page_wf p"
  shows "distinct (map (\<lambda>(_, _, s). s) (slide_order p))"
proof -
  have "mset (map (\<lambda>(_, _, s). s) (slide_order p)) =
        mset (map (\<lambda>(_, _, s). s) (live_entries p (unat (slot_count p))))"
    by (simp add: slide_order_def)
  then show ?thesis
    using live_entries_distinct [OF assms] mset_eq_imp_distinct_iff by blast
qed

lemma slide_order_range:
  assumes "page_wf p" "(offset, len, s) \<in> set (slide_order p)"
  shows "unat s < unat (slot_count p)" "20 \<le> unat offset"
    and "unat offset + unat len \<le> unat (free_start p)"
  using assms page_wf_live [OF assms(1), of "unat s"] by (auto simp: slide_order_mem live_def)

lemma slide_order_chain:
  assumes wf: "page_wf p"
  shows "chain 20 (slide_order p)"
proof (rule chain_sorted)
  show "sorted (map (\<lambda>(offset, _, _). offset) (slide_order p))"
    by (simp add: slide_order_def)
  show "distinct (slide_order p)"
    using slide_order_distinct [OF wf] by (simp add: distinct_map)
  show "pairwise apart (set (slide_order p))"
  proof (rule pairwiseI)
    fix e1 e2 assume e: "e1 \<in> set (slide_order p)" "e2 \<in> set (slide_order p)" "e1 \<noteq> e2"
    obtain o1 l1 s1 o2 l2 s2 where c: "e1 = (o1, l1, s1)" "e2 = (o2, l2, s2)"
      by (cases e1, cases e2) blast
    from e have "unat s1 \<noteq> unat s2"
      by (auto simp: c slide_order_mem [OF wf] simp flip: word_eq_iff_unsigned)
    with e page_wf_disjoint [OF wf, of "unat s1" "unat s2"] show "apart e1 e2"
      by (auto simp: c slide_order_mem [OF wf] apart_def)
  qed
  show "\<forall>(offset, len, s) \<in> set (slide_order p). len = 0 \<or> 20 \<le> unat offset"
    using slide_order_range(2) [OF wf] by auto
qed

lemma slide_order_bytes:
  assumes wf: "page_wf p"
  shows "entry_bytes (slide_order p) = entry_bytes (live_entries p (unat (slot_count p)))"
    and "20 + entry_bytes (slide_order p) \<le> unat (free_start p)"
proof -
  have "mset (map (\<lambda>(_, len, _). unat len) (slide_order p)) =
        mset (map (\<lambda>(_, len, _). unat len) (live_entries p (unat (slot_count p))))"
    by (simp add: slide_order_def)
  then show "entry_bytes (slide_order p) = entry_bytes (live_entries p (unat (slot_count p)))"
    unfolding entry_bytes_def by (metis sum_mset_sum_list)
  show "20 + entry_bytes (slide_order p) \<le> unat (free_start p)"
    using slide_order_range(3) [OF wf] page_wf_free_start [OF wf]
    by (intro entry_bytes_le [OF slide_order_chain [OF wf]]) auto
qed

lemma page_compact_slides:
  assumes wf: "page_wf p"
  defines "es \<equiv> slide_order p"
  shows "\<exists>q. page_compact p = Some (q, True) \<and> page_sized q \<and>
           raw_slot_count q = raw_slot_count p \<and> unat (free_start q) = 20 + entry_bytes es \<and>
           (\<forall>i < unat (slot_count p). slot_len q i = slot_len p i) \<and>
           (\<forall>(offset, len, s, c) \<in> set (placed 20 es). unat (slot_off q (unat s)) = c \<and>
              row_bytes q c (unat len) = row_bytes p (unat offset) (unat len))"
proof -
  define n where "n = unat (slot_count p)"
  have n: "n \<le> 1019" and fs: "20 \<le> unat (free_start p)" "unat (free_start p) \<le> 4094 - 4 * n"
    using slot_count_le [of p] page_wf_free_start [OF wf] by (auto simp: n_def)
  note range = slide_order_range [OF wf, folded es_def n_def]
    and total = slide_order_bytes(2) [OF wf, folded es_def]
  have rest: "\<forall>(offset, len, s) \<in> set es. unat s < n \<and> unat offset + unat len \<le> 4094 - 4 * n \<and>
           slot_off p (unat s) = offset \<and> slot_len p (unat s) = len"
    using range fs(2) slide_order_mem [OF wf, folded es_def] by fastforce
  from slide_rows_correct [OF page_wf_sized [OF wf] n _ _ _ slide_order_chain [OF wf, folded es_def]
      slide_order_distinct [OF wf, folded es_def] rest, of 20] fs
  obtain q where q: "slide_rows p 20 es = Some (q, 20 + entry_bytes es)"
      "page_sized q" "raw_slot_count q = raw_slot_count p"
      "\<forall>i < n. slot_len q i = slot_len p i"
      "\<forall>(offset, len, s, c') \<in> set (placed 20 es). slot_off q (unat s) = word_of_nat c' \<and>
              row_bytes q c' (unat len) = row_bytes p (unat offset) (unat len)"
    by auto
  define r where "r = set_free_start q (word_of_nat (20 + entry_bytes es))"
  have "page_compact p = Some (r, True)"
    using q(1) collect_live_wf [OF wf order_refl]
    by (simp add: page_compact_def r_def es_def slide_order_def PAGE_HEADER_SIZE_def)
  moreover have "unat (free_start r) = 20 + entry_bytes es"
    using total fs n q(2) by (simp add: r_def page_field_simps del: of_nat_add)
  moreover have "\<forall>i < n. slot_len r i = slot_len p i" "page_sized r" "raw_slot_count r = raw_slot_count p"
    using q n by (simp_all add: r_def page_field_simps)
  moreover have "unat (slot_off r (unat s)) = c \<and>
      row_bytes r c (unat len) = row_bytes p (unat offset) (unat len)"
    if pl: "(offset, len, s, c) \<in> set (placed 20 es)" for offset len s c
  proof -
    from pl have "(offset, len, s) \<in> set es" using placed_entries by blast
    with range n have "unat s \<le> 1019" by fastforce
    moreover from placed_range [OF pl] total fs n have "20 \<le> c" "c < 65536" by linarith+
    ultimately show ?thesis
      using q(2,5) pl by (auto simp: r_def page_field_simps)
  qed
  ultimately show ?thesis
    unfolding n_def by blast
qed

text \<open>
  Compaction keeps every slot's row at its index; the space it frees is what
  \<^const>\<open>page_dead_space\<close> reports.
\<close>

lemma live_entries_bytes:
  "entry_bytes (live_entries p n) = (\<Sum>i \<leftarrow> filter (live p) [0..<n]. unat (slot_len p i))"
  by (simp add: entry_bytes_def live_entries_def comp_def)

lemma page_wf_placed:
  assumes wf: "page_wf p" and sized: "page_sized q" and cnt: "raw_slot_count q = raw_slot_count p"
    and fs: "unat (free_start q) = 20 + entry_bytes es" "unat (free_start q) \<le> unat (free_start p)"
    and placed: "\<And>i. live q i \<Longrightarrow> \<exists>offset s.
      (offset, slot_len q i, s, unat (slot_off q i)) \<in> set (placed 20 es) \<and> unat s = i"
  shows "page_wf q"
  unfolding page_wf_def
proof (intro conjI allI impI)
  have "slot_count q = slot_count p" by (simp add: slot_count_def cnt)
  with fs(2) wf show "unat (free_start q) \<le> dir_start q"
    by (simp add: dir_start_def page_wf_def)
  show "unat (raw_slot_count q) \<le> 1019" using wf by (simp add: cnt page_wf_def)
next
  fix i assume "live q i"
  from placed [OF this]
  show "20 \<le> unat (slot_off q i)" "unat (slot_off q i) + unat (slot_len q i) \<le> unat (free_start q)"
    by (auto dest!: placed_range simp: fs(1))
next
  fix i j assume "live q i \<and> live q j \<and> i \<noteq> j"
  with placed [of i] placed [of j] show
    "unat (slot_off q i) + unat (slot_len q i) \<le> unat (slot_off q j) \<or>
     unat (slot_off q j) + unat (slot_len q j) \<le> unat (slot_off q i)"
    by (auto dest: placed_disjoint)
qed (use sized fs in simp_all)

lemma compact_page:
  assumes wf: "page_wf p"
  shows "\<exists>q d. page_compact p = Some (q, True) \<and> page_wf q \<and> slots q = slots p \<and>
           slot_count q = slot_count p \<and> page_dead_space p = Some d \<and> page_dead_space q = Some 0 \<and>
           unat (free_start p) = unat (free_start q) + d"
proof -
  define n where "n = unat (slot_count p)"
  from page_compact_slides [OF wf, folded n_def] obtain q where
    q: "page_compact p = Some (q, True)" "page_sized q" "raw_slot_count q = raw_slot_count p"
      "unat (free_start q) = 20 + entry_bytes (slide_order p)" "\<forall>i < n. slot_len q i = slot_len p i"
    and pl: "\<forall>(offset, len, s, c) \<in> set (placed 20 (slide_order p)). unat (slot_off q (unat s)) = c \<and>
      row_bytes q c (unat len) = row_bytes p (unat offset) (unat len)"
    by blast
  have cnt: "slot_count q = slot_count p" by (simp add: slot_count_def q)
  have live: "live q i \<longleftrightarrow> live p i" for i
    using q(5) by (auto simp: live_def cnt n_def)
  have here: "(slot_off p i, slot_len p i, word_of_nat i, unat (slot_off q i)) \<in> set (placed 20 (slide_order p))
      \<and> row_bytes q (unat (slot_off q i)) (unat (slot_len p i)) =
        row_bytes p (unat (slot_off p i)) (unat (slot_len p i))" if "live p i" for i
  proof -
    have u: "unat (word_of_nat i :: u16) = i" using page_wf_live(3) [OF wf that] by simp
    with that have "(slot_off p i, slot_len p i, word_of_nat i) \<in> set (slide_order p)"
      by (simp add: slide_order_mem [OF wf])
    then obtain c where c: "(slot_off p i, slot_len p i, word_of_nat i, c) \<in> set (placed 20 (slide_order p))"
      using placed_entries by blast
    with pl u have "unat (slot_off q i) = c" by fastforce
    with c pl show ?thesis by fastforce
  qed
  have less: "live p i \<Longrightarrow> i < n" for i by (simp add: live_def n_def)
  have "page_wf q"
  proof (rule page_wf_placed [OF wf q(2,3,4)])
    show "unat (free_start q) \<le> unat (free_start p)"
      using slide_order_bytes(2) [OF wf] by (simp add: q)
    show "\<exists>offset s. (offset, slot_len q i, s, unat (slot_off q i)) \<in> set (placed 20 (slide_order p)) \<and> unat s = i"
      if "live q i" for i
      using that here [of i] less [of i] q(5) page_wf_live(3) [OF wf, of i] unfolding live
      by (intro exI [of _ "slot_off p i"] exI [of _ "word_of_nat i"]) simp
  qed
  moreover have "slots q = slots p"
  proof (rule nth_equalityI)
    fix i assume "i < length (slots q)"
    then have "i < n" by (simp add: cnt n_def)
    moreover have "live p i \<longleftrightarrow> slot_len p i \<noteq> DELETED_MARKER"
      using \<open>i < n\<close> by (simp add: live_def n_def)
    ultimately show "slots q ! i = slots p ! i"
      using here [of i] q(5) by (auto simp: nth_slots cnt n_def slot_row_def)
  qed (simp add: cnt)
  moreover have "entry_bytes (live_entries q n) = entry_bytes (live_entries p n)"
  proof -
    have "live q = live p" using live by blast
    then show ?thesis
      using q(5) by (auto simp: live_entries_bytes intro!: arg_cong [of _ _ sum_list] map_cong)
  qed
  ultimately show ?thesis
    using q(1,4) cnt slide_order_bytes [OF wf] sum_live_wf [OF wf order_refl] sum_live_wf [of q n]
    by (simp add: page_dead_space_def PAGE_HEADER_SIZE_def n_def)
qed

end
