(* ===== verification/Page_Ops.thy ===== *)
theory Page_Ops
  imports Page_Compact
begin

text \<open>
  A page as a slot store: fresh pages, the operations of the heap as a language of page operations,
  the interface \<open>slot_store\<close> the callers rely on, and its interpretation on the page.
\<close>

subsection \<open>Fresh pages\<close>

lemma page_new_fields:
  "page_sized (page_new pid pt)" "raw_slot_count (page_new pid pt) = 0"
  "free_start (page_new pid pt) = 20" "page_id (page_new pid pt) = pid"
  "data (page_new pid pt) ! 4 = page_type_to_u8 pt"
  by (simp_all add: page_new_def page_sized_def raw_slot_count_def free_start_def page_id_def
      layout_simps Let_def buf_simps nth_put)

lemma page_new_slots [simp]: "slots (page_new pid pt) = []"
  by (simp add: slots_def slot_count_def page_new_fields)

lemma page_new_wf [simp]: "page_wf (page_new pid pt)"
  by (simp add: page_wf_def page_new_fields dir_start_def slot_count_def live_def)

subsection \<open>Writing through a mutable slot view\<close>

lemma page_slot_bytes_mut_total:
  assumes wf: "page_wf p"
  shows "page_slot_bytes_mut p i f =
    Some (if live p (unat i)
          then (set_row p (unat (slot_off p (unat i)))
                 (f (row_bytes p (unat (slot_off p (unat i))) (unat (slot_len p (unat i))))), True)
          else (p, False))"
proof (cases "live p (unat i)")
  case True
  then have i: "unat i < unat (slot_count p)" "unat i \<le> 1022"
    using page_wf_live(3) [OF wf True] by (simp_all add: live_def)
  have "16 \<le> unat (slot_off p (unat i))" "unat (slot_off p (unat i)) + unat (slot_len p (unat i)) \<le> 4096"
    using page_wf_live [OF wf True] page_wf_free_start [OF wf] by linarith+
  with True i wf show ?thesis
    by (simp add: page_slot_bytes_mut_def word_le_nat_alt read_slot_entry_Some slot_data_range_def
        slice_run_def layout_simps set_row_def row_bytes_def live_def Let_def)
next
  case False
  then show ?thesis
    using unat_less_slot_count_bound [of i p]
    by (auto simp: page_slot_bytes_mut_def word_le_nat_alt read_slot_entry_Some live_def)
qed

lemma overwrite_row:
  assumes wf: "page_wf p" and live: "live p i"
    and len: "length row = unat (slot_len p i)"
  defines "q \<equiv> set_row p (unat (slot_off p i)) row"
  shows "page_wf q" and "slots q = (slots p)[i := Some row]"
proof -
  let ?n = "unat (slot_count p)"
  note l = page_wf_live [OF wf live] and f = page_wf_free_start [OF wf]
  have i: "i < ?n" using live by (simp add: live_def)
  have le: "unat (slot_off p i) + length row \<le> unat (free_start p)" using l len by simp
  have dir: "unat (slot_off p i) + length row \<le> entry_at j" if "j < ?n" for j
    using le f that by linarith
  have fields: "page_sized q" "raw_slot_count q = raw_slot_count p" "free_start q = free_start p"
    using wf l le f by (auto simp: q_def page_field_simps)
  have entry: "slot_off q j = slot_off p j" "slot_len q j = slot_len p j" if "j < ?n" for j
    using wf dir [OF that] that slot_count_le [of p] by (auto simp: q_def page_field_simps)
  have cnt: "slot_count q = slot_count p" by (simp add: slot_count_def fields)
  have live_q: "live q j \<longleftrightarrow> live p j" for j
    using entry [of j] by (auto simp: live_def cnt)
  show "page_wf q"
    using wf by (auto simp: page_wf_def live_q fields dir_start_def cnt) (auto simp: live_def entry)
  show "slots q = (slots p)[i := Some row]"
  proof (rule slots_change [OF cnt])
    fix j assume j: "j < ?n" "j \<noteq> i"
    show "slot_row q j = slot_row p j"
    proof (rule slot_row_eq [OF wf])
      assume lj: "live p j"
      show "row_bytes q (unat (slot_off p j)) (unat (slot_len p j)) =
            row_bytes p (unat (slot_off p j)) (unat (slot_len p j))"
        using page_wf_disjoint [OF wf live lj] j le f wf len
        unfolding q_def by (intro row_bytes_set_row_other) auto
    qed (use entry j in auto)
  next
    have "row_bytes q (unat (slot_off p i)) (unat (slot_len p i)) = row"
      unfolding q_def using wf le f len by (intro row_bytes_set_row_same) auto
    then show "slot_row q i = Some row"
      using live by (simp add: slot_row_def entry [OF i]) (simp add: live_def)
  qed (rule i)
qed

subsection \<open>The operations of a page\<close>

text \<open>
  One constructor per operation that changes rows; \<open>OpPatch\<close> is a write of some bytes at an offset
  of the view \<open>slot_bytes_mut\<close> returns.
\<close>

datatype page_op =
    OpInsert bytes
  | OpInsertAt u16 bytes
  | OpDelete u16
  | OpUpdate u16 bytes
  | OpShrink u16 u16
  | OpPatch u16 nat bytes
  | OpCompact

definition patch_view :: "nat \<Rightarrow> bytes \<Rightarrow> bytes \<Rightarrow> bytes" where
  "patch_view off bs view = (if off + length bs \<le> length view then put view off bs else view)"

fun page_exec :: "page_op \<Rightarrow> page \<Rightarrow> page run" where
  "page_exec (OpInsert row) p = map_option fst (page_insert p row)"
| "page_exec (OpInsertAt i row) p = map_option fst (page_insert_at_slot p i row)"
| "page_exec (OpDelete i) p = page_delete p i"
| "page_exec (OpUpdate i row) p = map_option fst (page_update p i row)"
| "page_exec (OpShrink i n) p = map_option fst (page_shrink_slot p i n)"
| "page_exec (OpPatch i off bs) p = map_option fst (page_slot_bytes_mut p i (patch_view off bs))"
| "page_exec OpCompact p = map_option fst (page_compact p)"

text \<open>What each operation may do to the contents; an operation that does not fit changes nothing.\<close>

inductive slots_step :: "page_op \<Rightarrow> bytes option list \<Rightarrow> bytes option list \<Rightarrow> bool" where
  keep: "slots_step oper c c"
| insert: "slots_step (OpInsert row) c (c @ [Some row])"
| insert_at: "length c \<le> unat i \<Longrightarrow>
    slots_step (OpInsertAt i row) c (c @ replicate (unat i - length c) None @ [Some row])"
| delete: "slots_step (OpDelete i) c (c[unat i := None])"
| update: "unat i < length c \<Longrightarrow> c ! unat i = Some old \<Longrightarrow>
    slots_step (OpUpdate i row) c (c[unat i := Some row])"
| shrink: "unat i < length c \<Longrightarrow> c ! unat i = Some old \<Longrightarrow>
    slots_step (OpShrink i n) c (c[unat i := Some (take (unat n) old)])"
| patch: "unat i < length c \<Longrightarrow> c ! unat i = Some old \<Longrightarrow>
    slots_step (OpPatch i off bs) c (c[unat i := Some (patch_view off bs old)])"

inductive_cases slots_step_cases: "slots_step oper c d"

definition addresses :: "page_op \<Rightarrow> nat \<Rightarrow> bool" where
  "addresses oper i \<longleftrightarrow> (case oper of
     OpDelete j \<Rightarrow> unat j = i | OpUpdate j _ \<Rightarrow> unat j = i
   | OpShrink j _ \<Rightarrow> unat j = i | OpPatch j _ _ \<Rightarrow> unat j = i | _ \<Rightarrow> False)"

lemma live_slots:
  "live p i \<Longrightarrow> i < length (slots p) \<and>
     slots p ! i = Some (row_bytes p (unat (slot_off p i)) (unat (slot_len p i)))"
  by (simp add: live_def nth_slots slot_row_def)

lemma page_exec_refines:
  assumes wf: "page_wf p"
  shows "\<exists>q. page_exec oper p = Some q \<and> page_wf q \<and> slots_step oper (slots p) (slots q)"
proof (cases oper)
  case (OpInsert row)
  with wf append_row_wf [OF wf, of row] append_row_slots [OF wf, of row] show ?thesis
    by (auto simp: page_insert_total intro: slots_step.intros)
next
  case (OpInsertAt i row)
  from insert_at_slot_page [OF wf, of i row] obtain q ok where
    q: "page_insert_at_slot p i row = Some (q, ok)" "page_wf q"
      "slots q = slots p \<or> length (slots p) \<le> unat i \<and>
        slots q = slots p @ replicate (unat i - length (slots p)) None @ [Some row]"
    by (metis not_le)
  then have "slots_step oper (slots p) (slots q)"
    using insert_at [of "slots p" i row] keep by (auto simp: OpInsertAt)
  with q show ?thesis by (simp add: OpInsertAt)
next
  case (OpDelete i)
  with wf delete_entry [OF wf, of "unat i"] show ?thesis
    by (auto simp: page_delete_total intro: slots_step.intros)
next
  case (OpUpdate i row)
  have "\<exists>r. page_update p i row = Some r" by (simp add: page_update_total [OF wf] Let_def)
  then obtain q ok where q: "page_update p i row = Some (q, ok)" by auto
  with update_page [OF wf q] live_slots [of p "unat i"] show ?thesis
    by (cases ok) (auto simp: OpUpdate intro: slots_step.intros)
next
  case (OpShrink i n)
  with wf shrink_entry [OF wf, of "unat i" n] live_slots [of p "unat i"] show ?thesis
    by (auto simp: page_shrink_slot_total intro: slots_step.intros)
next
  case (OpPatch i off bs)
  show ?thesis
  proof (cases "live p (unat i)")
    case True
    let ?row = "row_bytes p (unat (slot_off p (unat i))) (unat (slot_len p (unat i)))"
    have "length (patch_view off bs ?row) = unat (slot_len p (unat i))"
      using page_wf_live [OF wf True] page_wf_free_start [OF wf] wf by (simp add: patch_view_def)
    from overwrite_row [OF wf True this] live_slots [OF True] True show ?thesis
      by (auto simp: OpPatch page_slot_bytes_mut_total [OF wf] intro: slots_step.intros)
  next
    case False
    with wf show ?thesis
      by (simp add: OpPatch page_slot_bytes_mut_total keep)
  qed
next
  case OpCompact
  with compact_page [OF wf] show ?thesis by (auto intro: slots_step.intros)
qed

subsection \<open>The slot-store interface\<close>

fun run_ops :: "('op \<Rightarrow> 'p \<Rightarrow> 'p run) \<Rightarrow> 'op list \<Rightarrow> 'p \<Rightarrow> 'p run" where
  "run_ops exec [] p = Some p"
| "run_ops exec (x # xs) p = do { q \<leftarrow> exec x p; run_ops exec xs q }"

text \<open>
  What a caller of a slot store relies on: no operation fails on a store that satisfies the
  invariant, each does to the contents what its specification allows, an operation leaves the slots
  it does not address alone, and an emptied slot is never filled again.
\<close>

locale slot_store =
  fixes inv :: "'p \<Rightarrow> bool"
    and contents :: "'p \<Rightarrow> 'r option list"
    and exec :: "'op \<Rightarrow> 'p \<Rightarrow> 'p run"
    and step :: "'op \<Rightarrow> 'r option list \<Rightarrow> 'r option list \<Rightarrow> bool"
    and addr :: "'op \<Rightarrow> nat \<Rightarrow> bool"
  assumes exec_step: "inv p \<Longrightarrow> \<exists>q. exec x p = Some q \<and> inv q \<and> step x (contents p) (contents q)"
    and step_grows: "step x c d \<Longrightarrow> length c \<le> length d"
    and step_frame: "step x c d \<Longrightarrow> i < length c \<Longrightarrow> \<not> addr x i \<Longrightarrow> d ! i = c ! i"
    and step_dead: "step x c d \<Longrightarrow> i < length c \<Longrightarrow> c ! i = None \<Longrightarrow> d ! i = None"
begin

lemma run_total: "inv p \<Longrightarrow> \<exists>q. run_ops exec xs p = Some q \<and> inv q"
proof (induction xs arbitrary: p)
  case (Cons x xs)
  from exec_step [OF Cons.prems, of x] Cons.IH show ?case by fastforce
qed simp

lemma run_frame:
  "inv p \<Longrightarrow> run_ops exec xs p = Some q \<Longrightarrow> i < length (contents p) \<Longrightarrow>
   \<forall>x \<in> set xs. \<not> addr x i \<Longrightarrow> i < length (contents q) \<and> contents q ! i = contents p ! i"
proof (induction xs arbitrary: p)
  case (Cons x xs)
  obtain r where r: "exec x p = Some r" "inv r" "step x (contents p) (contents r)"
    using exec_step [OF Cons.prems(1)] by blast
  then have "i < length (contents r)" "contents r ! i = contents p ! i"
    using step_grows step_frame Cons.prems by fastforce+
  with Cons r show ?case by simp
qed simp

lemma run_dead:
  "inv p \<Longrightarrow> run_ops exec xs p = Some q \<Longrightarrow> i < length (contents p) \<Longrightarrow> contents p ! i = None \<Longrightarrow>
   i < length (contents q) \<and> contents q ! i = None"
proof (induction xs arbitrary: p)
  case (Cons x xs)
  obtain r where r: "exec x p = Some r" "inv r" "step x (contents p) (contents r)"
    using exec_step [OF Cons.prems(1)] by blast
  then have "i < length (contents r)" "contents r ! i = None"
    using step_grows step_dead Cons.prems by fastforce+
  with Cons r show ?case by simp
qed simp

end

lemma slots_step_grows: "slots_step oper c d \<Longrightarrow> length c \<le> length d"
  by (cases rule: slots_step.cases) auto

lemma slots_step_frame:
  "slots_step oper c d \<Longrightarrow> i < length c \<Longrightarrow> \<not> addresses oper i \<Longrightarrow> d ! i = c ! i"
  by (cases rule: slots_step.cases) (auto simp: addresses_def nth_append)

lemma nth_update_None: "c ! i = None \<Longrightarrow> c[j := None] ! i = None"
  by (cases "j = i"; cases "j < length c") (auto simp: list_update_beyond)

lemma slots_step_dead:
  "slots_step oper c d \<Longrightarrow> i < length c \<Longrightarrow> c ! i = None \<Longrightarrow> d ! i = None"
  by (cases rule: slots_step.cases) (auto simp: nth_append nth_list_update nth_update_None)

interpretation pstore: slot_store page_wf slots page_exec slots_step addresses
  by unfold_locales
    (auto intro: page_exec_refines slots_step_grows slots_step_frame slots_step_dead)

subsection \<open>Iteration\<close>

lemma slot_bytes_from_page_get:
  assumes "page_sized p" "unat i < unat (slot_count p)"
  shows "page_get p i = Some (slot_bytes_from_page (data p) i)"
proof -
  have i: "unat i \<le> 1018" using unat_less_slot_count_bound [OF assms(2)] .
  then have "\<not> 4090 - unat i * 4 < 16" "2 * unat i \<le> 2045" by linarith+
  with i assms show ?thesis
    by (simp add: page_get_def word_le_nat_alt slot_bytes_from_page_def read_slot_entry_from_bytes_def
        slot_entry_offset_checked_def layout_simps read_slot_entry_def slot_entry_offset_def Let_def
        slot_data_range_def slice_run_def not_le not_less)
qed

lemma iter_from_map_filter:
  assumes "page_sized p" "n \<le> unat (slot_count p)"
  shows "iter_from p n = Some (List.map_filter
    (\<lambda>i. map_option (Pair (word_of_nat i)) (slot_bytes_from_page (data p) (word_of_nat i))) [0..<n])"
  using assms(2)
proof (induction n)
  case (Suc n)
  then have "unat (word_of_nat n :: u16) = n" using slot_count_le [of p] by simp
  with Suc slot_bytes_from_page_get [OF assms(1), of "word_of_nat n"] show ?case
    by (simp add: map_filter_def split: option.splits)
qed (simp add: map_filter_def)

lemma page_iter_slots:
  assumes "page_sized p"
  shows "page_iter p = Some (iter_page_slots (data p))"
proof -
  have "slot_count_from_page (data p) = slot_count p"
    by (simp add: slot_count_from_page_def slot_count_def raw_slot_count_def)
  with iter_from_map_filter [OF assms order_refl] show ?thesis
    by (simp add: page_iter_def iter_page_slots_def page_is_overflow_def map_filter_def)
qed

end
