(* ===== verification/Page_Integrity.thy ===== *)
theory Page_Integrity
  imports Page_Ops
begin

text \<open>
  Page integrity: stamping and verifying the checksum, the offline layout verifier against the
  well-formedness invariant, and the overflow-chain page codec.
\<close>

unbundle bit_operations_syntax

subsection \<open>Checksums\<close>

lemma stamped_flags:
  fixes f :: u8
  shows "drop_bit 4 ((f OR 1 OR 0x10) AND 0xF0) = drop_bit 4 (f AND 0xF0) OR 1"
    and "(f OR 1 OR 0x10) AND 1 = 1"
proof -
  have "(drop_bit 4 ((f OR 1 OR 0x10) AND 0xF0) :: u8) = drop_bit 4 (f AND 0xF0) OR drop_bit 4 (0x10 AND 0xF0) OR drop_bit 4 (1 AND 0xF0)"
    by (rule bit_word_eqI) (auto simp: bit_simps)
  then show "drop_bit 4 ((f OR 1 OR 0x10) AND 0xF0) = drop_bit 4 (f AND 0xF0) OR 1"
    by simp
  show "(f OR 1 OR 0x10) AND 1 = 1"
    by (rule bit_word_eqI) (auto simp: bit_simps)
qed

lemma page_version_stamped:
  assumes "page_format_version_from_flags f = Inr v"
  shows "page_format_version_from_flags (f OR FLAG_HAS_CHECKSUM OR encode_page_version PAGE_FORMAT_VERSION) = Inr 1"
proof -
  let ?v = "drop_bit 4 (f AND 0xF0)"
  from assms have "?v \<le> 1"
    by (auto simp: page_format_version_from_flags_def PAGE_VERSION_SHIFT_def PAGE_VERSION_MASK_def
        PAGE_FORMAT_VERSION_def Let_def not_less split: if_splits)
  then have "?v = 0 \<or> ?v = 1" 
    by (auto simp: word_le_nat_alt word_unat_eq_iff)
  then have "?v OR 1 = 1" by auto
  then show ?thesis
    using stamped_flags(1) [of f]
    by (simp add: page_format_version_from_flags_def PAGE_VERSION_SHIFT_def PAGE_VERSION_MASK_def
        PAGE_FORMAT_VERSION_def FLAG_HAS_CHECKSUM_def encode_page_version_def Let_def)
qed

lemma checksum_ignores_crc:
  "length d = 4096 \<Longrightarrow> checksum_with_crc_zeroed crc (put d CRC_OFFSET (u32_to_le c)) =
     checksum_with_crc_zeroed crc d"
  by (simp add: checksum_with_crc_zeroed_def put_def layout_simps)

lemma stamp_verifies:
  assumes "page_sized p" "page_format_version_from_flags (data p ! 5) = Inr v"
  shows "page_verify_bytes crc (data (page_stamp_checksum crc p)) = Inr ()"
proof -
  let ?f = "data p ! 5 OR FLAG_HAS_CHECKSUM OR encode_page_version PAGE_FORMAT_VERSION"
  let ?d = "put (data p) 5 [?f]"
  have len: "length ?d = 4096" using assms by simp
  have five: "put ?d CRC_OFFSET (u32_to_le c) ! 5 = ?f" for c
    using assms len by (simp add: nth_put layout_simps)
  have "?f AND FLAG_HAS_CHECKSUM \<noteq> 0"
    using stamped_flags(2) [of "data p ! 5"]
    by (simp add: FLAG_HAS_CHECKSUM_def encode_page_version_def PAGE_FORMAT_VERSION_def PAGE_VERSION_SHIFT_def)
  moreover have "u32_from_le (sub (put ?d CRC_OFFSET (u32_to_le c)) CRC_OFFSET CRC_SIZE) = c" for c
    using len by (simp add: buf_simps layout_simps)
  ultimately show ?thesis
    using len five page_version_stamped [OF assms(2)] checksum_ignores_crc [OF len]
    by (simp add: page_verify_bytes_def page_stamp_checksum_def Let_def) (simp add: layout_simps)
qed

text \<open>Changes to header bytes other than \<open>free_start\<close> leave the rows alone.\<close>

lemma header_change:
  assumes wf: "page_wf p" and sized: "page_sized q" and fs: "free_start q = free_start p"
    and body: "\<And>a n. 20 \<le> a \<Longrightarrow> sub (data q) a n = sub (data p) a n"
  shows "page_wf q" and "slots q = slots p"
proof -
  have raw: "raw_slot_count q = raw_slot_count p"
    using body [of 4094 2] by (simp add: raw_slot_count_def layout_simps)
  then have cnt: "slot_count q = slot_count p" by (simp add: slot_count_def)
  have entry: "slot_off q i = slot_off p i" "slot_len q i = slot_len p i" if "i < unat (slot_count p)" for i
  proof -
    have "20 \<le> entry_at i" using that page_wf_free_start [OF wf] by linarith
    with body [of "entry_at i" 2] body [of "entry_at i + 2" 2]
    show "slot_off q i = slot_off p i" "slot_len q i = slot_len p i"
      by (simp_all add: slot_off_def slot_len_def)
  qed
  have live: "live q i \<longleftrightarrow> live p i" for i
    using entry [of i] by (auto simp: live_def cnt)
  show "page_wf q"
    using wf sized
    by (auto simp: page_wf_def live raw fs dir_start_def cnt) (auto simp: live_def entry)
  show "slots q = slots p"
  proof (rule nth_equalityI)
    fix i assume "i < length (slots q)"
    then have i: "i < unat (slot_count p)" by (simp add: cnt)
    have "slot_row q i = slot_row p i"
      by (rule slot_row_eq [OF wf])
        (use entry [OF i] i body page_wf_live(1) [OF wf, of i] in \<open>auto simp: row_bytes_def\<close>)
    with i show "slots q ! i = slots p ! i" by (simp add: nth_slots cnt)
  qed (simp add: cnt)
qed

lemma stamp_keeps:
  assumes "page_wf p"
  shows "page_wf (page_stamp_checksum crc p)" "slots (page_stamp_checksum crc p) = slots p"
proof -
  have len: "length (data p) = 4096" using assms by simp
  have "page_sized (page_stamp_checksum crc p)" "free_start (page_stamp_checksum crc p) = free_start p"
    "\<And>a n. 20 \<le> a \<Longrightarrow> sub (data (page_stamp_checksum crc p)) a n = sub (data p) a n"
    using len
    by (simp_all add: page_stamp_checksum_def Let_def page_sized_def layout_simps free_start_def buf_simps)
  from header_change [OF assms this]
  show "page_wf (page_stamp_checksum crc p)" "slots (page_stamp_checksum crc p) = slots p" by simp_all
qed

lemma set_lsn_keeps:
  assumes "page_wf p"
  shows "page_wf (page_set_lsn p lsn)" "slots (page_set_lsn p lsn) = slots p"
    "page_lsn (page_set_lsn p lsn) = lsn"
proof -
  have "free_start (page_set_lsn p lsn) = free_start p"
    "\<And>a n. 20 \<le> a \<Longrightarrow> sub (data (page_set_lsn p lsn)) a n = sub (data p) a n"
    using assms by (simp_all add: page_set_lsn_def free_start_def buf_simps)
  from header_change [OF assms page_sized_set_lsn this] assms
  show "page_wf (page_set_lsn p lsn)" "slots (page_set_lsn p lsn) = slots p" by simp_all
  show "page_lsn (page_set_lsn p lsn) = lsn"
    using assms by (simp add: page_lsn_def page_set_lsn_def buf_simps)
qed

subsection \<open>The layout verifier\<close>

definition slot_ranges :: "page \<Rightarrow> nat \<Rightarrow> (nat \<times> nat \<times> nat) list" where
  "slot_ranges p n = map (\<lambda>i. (unat (slot_off p i), unat (slot_off p i) + unat (slot_len p i), i))
     (filter (\<lambda>i. slot_len p i \<noteq> DELETED_MARKER) [0..<n])"

definition in_row_region :: "page \<Rightarrow> nat \<Rightarrow> bool" where
  "in_row_region p i \<longleftrightarrow> slot_len p i \<noteq> DELETED_MARKER \<longrightarrow> 20 \<le> unat (slot_off p i) \<and>
     unat (slot_off p i) + unat (slot_len p i) \<le> unat (free_start p)"

lemma read_entry_bytes:
  assumes "n \<le> 1018"
  shows "read_slot_entry_from_bytes (data p) (word_of_nat n) = Some (slot_off p n, slot_len p n)"
proof -
  have "\<not> 4090 - 4 * n < 16" "unat (word_of_nat n :: u16) = n" using assms by simp_all
  with assms show ?thesis
    by (simp add: read_slot_entry_from_bytes_def slot_entry_offset_checked_def
        layout_simps Let_def slot_off_def slot_len_def mult.commute [of n])
qed

lemma live_ranges_eq:
  assumes "unat (free_start p) \<le> 4094"
  shows "n \<le> 1019 \<Longrightarrow> live_ranges (data p) 20 (unat (free_start p)) n = Inr rs \<longleftrightarrow>
    (\<forall>i < n. in_row_region p i) \<and> rs = slot_ranges p n"
proof (induction n arbitrary: rs)
  case (Suc n)
  have IH: "live_ranges (data p) 20 (unat (free_start p)) n = Inr r \<longleftrightarrow>
      (\<forall>i < n. in_row_region p i) \<and> r = slot_ranges p n" for r
    using Suc by simp
  have e: "read_slot_entry_from_bytes (data p) (word_of_nat n) = Some (slot_off p n, slot_len p n)"
    using Suc.prems by (intro read_entry_bytes) simp
  show ?case
  proof (cases "\<forall>i < n. in_row_region p i")
    case True
    then have "live_ranges (data p) 20 (unat (free_start p)) n = Inr (slot_ranges p n)"
      using IH by simp
    with True e assms show ?thesis
      by (auto simp: slot_data_range_def layout_simps Let_def in_row_region_def slot_ranges_def less_Suc_eq)
  next
    case False
    then obtain err where "live_ranges (data p) 20 (unat (free_start p)) n = Inl err"
      using IH by (cases "live_ranges (data p) 20 (unat (free_start p)) n") auto
    with False show ?thesis by (auto simp: less_Suc_eq)
  qed
qed (auto simp: slot_ranges_def)

lemma check_windows_sorted:
  assumes "\<forall>(s, e, i) \<in> set rs. s \<le> e"
  shows "check_windows rs = Inr () \<longleftrightarrow> sorted_wrt (\<lambda>(s1, e1, _) (s2, e2, _). e1 \<le> s2) rs"
  using assms
proof (induction rs rule: check_windows.induct)
  case (1 s1 e1 i1 s2 e2 i2 rest)
  show ?case
  proof (cases "e1 \<le> s2")
    case True
    have "s2 \<le> e2" using "1.prems" by simp
    with True 1 show ?thesis by (auto simp: case_prod_beta)
  qed simp
qed auto

lemma sorted_wrt_pair:
  "sorted_wrt P xs \<Longrightarrow> x \<in> set xs \<Longrightarrow> y \<in> set xs \<Longrightarrow> x \<noteq> y \<Longrightarrow> P x y \<or> P y x"
  by (induction xs) auto

lemma sorted_wrt_apart:
  assumes "sorted (map fst rs)" "distinct rs" "\<forall>(s, e, i) \<in> set rs. s < e"
    and "\<And>x y. x \<in> set rs \<Longrightarrow> y \<in> set rs \<Longrightarrow> x \<noteq> y \<Longrightarrow> fst (snd x) \<le> fst y \<or> fst (snd y) \<le> fst x"
  shows "sorted_wrt (\<lambda>(s1, e1, _) (s2, e2, _). e1 \<le> s2) rs"
  using assms
proof (induction rs)
  case (Cons r rs)
  have "fst (snd r) \<le> fst x" if "x \<in> set rs" for x
  proof -
    have "fst r \<le> fst x" "fst x < fst (snd x)" "r \<noteq> x" using Cons.prems that by auto
    with Cons.prems(4) [of r x] that show ?thesis by auto
  qed
  with Cons show ?case by (auto simp: case_prod_beta)
qed simp

lemma verify_layout_eq:
  assumes sized: "page_sized p" and ty: "data p ! 4 = 1" and cs: "page_has_checksum p"
    and ok: "page_verify_bytes crc (data p) = Inr ()"
  shows "verify_page_layout_bytes crc (data p) = Inr () \<longleftrightarrow>
     unat (raw_slot_count p) \<le> 1019 \<and> 20 \<le> unat (free_start p) \<and> unat (free_start p) \<le> dir_start p \<and>
     (\<forall>i < unat (slot_count p). in_row_region p i) \<and>
     sorted_wrt (\<lambda>(s1, e1, _) (s2, e2, _). e1 \<le> s2) (sort_key fst (slot_ranges p (unat (slot_count p))))"
proof -
  let ?fs = "unat (free_start p)" and ?n = "unat (raw_slot_count p)"
  have le: "\<forall>(s, e, i) \<in> set (sort_key fst (slot_ranges p n)). s \<le> e" for n
    by (auto simp: slot_ranges_def)
  have head: "verify_page_layout_bytes crc (data p) =
      (if \<not> (20 \<le> ?fs \<and> ?fs \<le> 4094) then Inl (FreeStartOutOfRange ?fs 20)
       else if raw_slot_count p > MAX_SLOT_COUNT then Inl (SlotCountTooLarge (raw_slot_count p))
       else if 4094 - 4 * ?n < 20 \<or> ?fs > 4094 - 4 * ?n then Inl (DirectoryOverlap ?fs (4094 - 4 * ?n))
       else case live_ranges (data p) 20 ?fs ?n of
              Inl e \<Rightarrow> Inl e | Inr rs \<Rightarrow> check_windows (sort_key fst rs))"
    using ok ty cs
    by (simp add: verify_page_layout_bytes_def page_type_from_u8_def page_has_checksum_def
        layout_simps free_start_def raw_slot_count_def Let_def mult.commute)
  show ?thesis
  proof (cases "?n \<le> 1019 \<and> 20 \<le> ?fs \<and> ?fs \<le> 4094 - 4 * ?n")
    case True
    then have cnt: "slot_count p = raw_slot_count p"
      by (simp add: slot_count_def min_def word_le_nat_alt)
    have fs: "?fs \<le> 4094" and n: "?n \<le> 1019" using True by linarith+
    have not: "\<not> raw_slot_count p > MAX_SLOT_COUNT" using n by (simp add: word_less_nat_alt)
    have head': "verify_page_layout_bytes crc (data p) =
        (case live_ranges (data p) 20 ?fs ?n of
              Inl e \<Rightarrow> Inl e | Inr rs \<Rightarrow> check_windows (sort_key fst rs))"
      using True fs not unfolding head by auto
    show ?thesis
    proof (cases "live_ranges (data p) 20 ?fs ?n")
      case (Inl e)
      then have "\<not> (\<forall>i < ?n. in_row_region p i)"
        using live_ranges_eq [OF fs n] by (metis Inl_Inr_False)
      with Inl head' cnt show ?thesis by auto
    next
      case (Inr rs)
      with live_ranges_eq [OF fs n, of rs] check_windows_sorted [OF le] True head' cnt show ?thesis
        by (simp add: dir_start_def)
    qed
  next
    case False
    then show ?thesis
      unfolding head using slot_count_le [of p]
      by (auto simp: dir_start_def unat_slot_count word_less_nat_alt)
  qed
qed

lemma verify_layout_sound:
  assumes "page_sized p" "data p ! 4 = 1" "page_has_checksum p"
    and ok: "verify_page_layout_bytes crc (data p) = Inr ()"
  shows "page_wf p"
proof -
  have "page_verify_bytes crc (data p) = Inr ()"
    using ok by (simp add: verify_page_layout_bytes_def split: sum.splits)
  note v = verify_layout_eq [OF assms(1-3) this, THEN iffD1, OF ok]
  have mem: "live p i \<Longrightarrow> (unat (slot_off p i), unat (slot_off p i) + unat (slot_len p i), i)
      \<in> set (sort_key fst (slot_ranges p (unat (slot_count p))))" for i
    by (auto simp: slot_ranges_def live_def)
  have "unat (slot_off p i) + unat (slot_len p i) \<le> unat (slot_off p j) \<or>
      unat (slot_off p j) + unat (slot_len p j) \<le> unat (slot_off p i)"
    if "live p i" "live p j" "i \<noteq> j" for i j
    using sorted_wrt_pair [OF _ mem [OF that(1)] mem [OF that(2)]] v that(3) by fastforce
  with v assms(1) show ?thesis
    by (auto simp: page_wf_def in_row_region_def live_def)
qed

lemma verify_layout_complete:
  assumes wf: "page_wf p" and ty: "data p ! 4 = 1" "page_has_checksum p"
    and ok: "page_verify_bytes crc (data p) = Inr ()"
    and ne: "\<forall>row. Some row \<in> set (slots p) \<longrightarrow> row \<noteq> []"
  shows "verify_page_layout_bytes crc (data p) = Inr ()"
proof -
  let ?rs = "slot_ranges p (unat (slot_count p))"
  have len: "0 < unat (slot_len p i)" if "live p i" for i
  proof -
    have "slots p ! i \<in> set (slots p)" using that by (simp add: live_def)
    then have "row_bytes p (unat (slot_off p i)) (unat (slot_len p i)) \<noteq> []"
      using that ne by (auto simp: live_def nth_slots slot_row_def)
    then show ?thesis by (cases "unat (slot_len p i)") (auto simp: row_bytes_def)
  qed
  have mem: "(s, e, i) \<in> set ?rs \<longleftrightarrow> live p i \<and> s = unat (slot_off p i) \<and>
      e = unat (slot_off p i) + unat (slot_len p i)" for s e i
    by (auto simp: slot_ranges_def live_def)
  have "sorted_wrt (\<lambda>(s1, e1, _) (s2, e2, _). e1 \<le> s2) (sort_key fst ?rs)"
  proof (rule sorted_wrt_apart)
    show "distinct (sort_key fst ?rs)"
      by (auto simp: slot_ranges_def distinct_map inj_on_def)
    show "\<forall>(s, e, i) \<in> set (sort_key fst ?rs). s < e"
      using len by (auto simp: mem)
    fix x y assume xy: "x \<in> set (sort_key fst ?rs)" "y \<in> set (sort_key fst ?rs)" "x \<noteq> y"
    obtain s1 e1 i s2 e2 j where "x = (s1, e1, i)" "y = (s2, e2, j)" by (metis prod_cases3)
    with xy page_wf_disjoint [OF wf, of i j] show "fst (snd x) \<le> fst y \<or> fst (snd y) \<le> fst x"
      by (auto simp: mem)
  qed simp
  with wf show ?thesis
    by (subst verify_layout_eq [OF _ ty ok]) (auto simp: page_wf_def in_row_region_def live_def)
qed

subsection \<open>Overflow pages\<close>

lemma overflow_chunk_roundtrip:
  assumes "page_sized p" "length chunk \<le> OVERFLOW_PAYLOAD_CAP"
  shows "\<exists>q. page_set_overflow_chunk p nxt chunk = Some q \<and> page_sized q \<and> page_is_overflow q \<and>
     overflow_next_from_bytes (data q) = nxt \<and> overflow_chunk_from_bytes (data q) = chunk \<and>
     page_iter q = Some []"
proof -
  let ?d1 = "put (data p) 4 [page_type_to_u8 PageOverflow]"
  let ?d2 = "put ?d1 20 (u32_to_le nxt)"
  let ?d3 = "put ?d2 24 (u16_to_le (word_of_nat (length chunk)))"
  let ?d4 = "put ?d3 28 chunk"
  let ?q = "p\<lparr>data := put ?d4 (28 + length chunk) (replicate (4068 - length chunk) 0)\<rparr>"
  have len: "length chunk \<le> 4068" and p: "length (data p) = 4096"
    using assms by (simp_all add: layout_simps)
  then have u: "unat (word_of_nat (length chunk) :: u16) = length chunk" by simp
  have ls: "length ?d1 = 4096" "length ?d2 = 4096" "length ?d3 = 4096" "length ?d4 = 4096"
    using len p by simp_all
  have "page_set_overflow_chunk p nxt chunk = Some ?q"
    using len p ls by (simp add: page_set_overflow_chunk_def layout_simps copy_from_slice_def Let_def)
  moreover have "page_sized ?q" using ls len by (simp add: page_sized_def layout_simps)
  moreover have ovf: "page_is_overflow ?q"
    using ls p len by (simp add: page_is_overflow_def nth_put)
  moreover have "overflow_next_from_bytes (data ?q) = nxt"
    using ls p len by (simp add: overflow_next_from_bytes_def layout_simps buf_simps)
  moreover have "overflow_chunk_from_bytes (data ?q) = chunk"
    using ls p len u by (simp add: overflow_chunk_from_bytes_def layout_simps buf_simps Let_def)
  moreover have "page_iter ?q = Some []" using ovf by (simp add: page_iter_def)
  ultimately show ?thesis by blast
qed

end
