(* ===== verification/Page_Correct.thy ===== *)
theory Page_Correct
  imports Page_Integrity
begin

text \<open>
  The correctness statements of the slotted page. Each is stated over the operations of
  \<^theory_text>\<open>Page\<close> and the abstract contents \<^const>\<open>slots\<close>.
\<close>

lemma slots_get:
  "page_wf p \<Longrightarrow> i < length (slots p) \<Longrightarrow> page_get p (word_of_nat i) = Some (slots p ! i)"
  using slot_count_le [of p] by (simp add: page_get_slots)

lemma insert_page:
  assumes wf: "page_wf p"
  shows "free_space p = Some space \<Longrightarrow> length row + 4 > space \<Longrightarrow> page_insert p row = Some (p, None)"
    and "free_space p = Some space \<Longrightarrow> length row + 4 \<le> space \<Longrightarrow>
      \<exists>q. page_insert p row = Some (q, Some (slot_count p)) \<and> page_wf q \<and>
        slots q = slots p @ [Some row] \<and> page_get q (slot_count p) = Some (Some row)"
proof -
  assume "free_space p = Some space"
  then have space: "space = dir_start p - unat (free_start p)" by (simp add: free_space_Some)
  show "length row + 4 > space \<Longrightarrow> page_insert p row = Some (p, None)"
    using wf by (simp add: page_insert_total row_fits_def space)
  assume "length row + 4 \<le> space"
  then have fits: "row_fits p (length row)" by (simp add: row_fits_def space)
  note q = append_row_wf [OF wf fits] append_row_slots [OF wf fits]
  have "page_get (append_row p row) (slot_count p) = Some (Some row)"
    using page_get_slots [OF q(1), of "slot_count p"] append_row_fields(3) [OF wf fits]
    by (simp add: q(2) nth_append)
  with q fits wf show "\<exists>q. page_insert p row = Some (q, Some (slot_count p)) \<and> page_wf q \<and>
        slots q = slots p @ [Some row] \<and> page_get q (slot_count p) = Some (Some row)"
    by (simp add: page_insert_total)
qed

text \<open>
  C1. \<open>Page::insert\<close> on a well-formed page: a row that does not fit with its slot entry is refused
  and the page is untouched; a row that fits gets the next slot index, is read back from it by
  \<open>get\<close>, and every earlier slot keeps its row.
\<close>

theorem page_insert_correct:
  assumes "page_wf p" "free_space p = Some space"
  shows "if length row + 4 > space then page_insert p row = Some (p, None)
         else \<exists>q. page_insert p row = Some (q, Some (slot_count p)) \<and> page_wf q \<and>
                slots q = slots p @ [Some row] \<and> page_get q (slot_count p) = Some (Some row)"
  using insert_page [OF assms(1)] assms(2) by auto

lemma page_new_space: "free_space (page_new pid pt) = Some 4074"
  by (simp add: free_space_Some dir_start_def slot_count_def page_new_fields)

theorem page_insert_correct_witness:
  "\<exists>q. page_insert (page_new 7 PageData) [1, 2, 3] = Some (q, Some 0) \<and> slots q = [Some [1, 2, 3]]"
  using page_insert_correct [OF page_new_wf page_new_space, of "[1, 2, 3]" 7 PageData]
  by (auto simp: slot_count_def page_new_fields)

text \<open>
  C2. \<open>Page::update\<close> on a well-formed page never panics. It succeeds exactly for a live slot whose
  new row is no longer than the old one or fits in the free space; then the slot, and only it,
  holds the new row. Otherwise the page is unchanged in contents.
\<close>

theorem page_update_correct:
  assumes "page_wf p" "free_space p = Some space"
  shows "\<exists>q ok. page_update p i row = Some (q, ok) \<and> page_wf q \<and>
     (ok \<longleftrightarrow> unat i < length (slots p) \<and>
        (\<exists>old. slots p ! unat i = Some old \<and> (length row \<le> length old \<or> length row \<le> space))) \<and>
     slots q = (if ok then (slots p)[unat i := Some row] else slots p)"
proof -
  have "\<exists>r. page_update p i row = Some r" by (simp add: page_update_total [OF assms(1)] Let_def)
  then obtain q ok where upd: "page_update p i row = Some (q, ok)" by auto
  note u = update_page [OF assms(1) upd]
  have space: "space = dir_start p - unat (free_start p)" using assms(2) by (simp add: free_space_Some)
  have "live p (unat i) \<and> (length row \<le> unat (slot_len p (unat i)) \<or> length row \<le> space) \<longleftrightarrow>
      unat i < length (slots p) \<and>
        (\<exists>old. slots p ! unat i = Some old \<and> (length row \<le> length old \<or> length row \<le> space))"
    (is "?l \<longleftrightarrow> ?r")
  proof (cases "live p (unat i)")
    case True
    have "length (row_bytes p (unat (slot_off p (unat i))) (unat (slot_len p (unat i)))) =
        unat (slot_len p (unat i))"
      using page_wf_live [OF assms(1) True] page_wf_free_start [OF assms(1)] assms(1) by simp
    with True live_slots [OF True] show ?thesis by auto
  next
    case False
    then show ?thesis using slot_row_live [of "unat i" p] by (auto simp: nth_slots)
  qed
  with upd u space show ?thesis by blast
qed

lemma one_row_page:
  "\<exists>p. page_insert (page_new 7 PageData) [1, 2, 3] = Some (p, Some 0) \<and> page_wf p \<and>
     slots p = [Some [1, 2, 3]]"
  using insert_page(2) [OF page_new_wf page_new_space, of "[1, 2, 3]" 7 PageData]
  by (auto simp: slot_count_def page_new_fields)

theorem page_update_correct_witness:
  "\<exists>p q. page_insert (page_new 7 PageData) [1, 2, 3] = Some (p, Some 0) \<and>
     page_update p 0 [9, 9] = Some (q, True) \<and> slots q = [Some [9, 9]]"
proof -
  obtain p where p: "page_insert (page_new 7 PageData) [1, 2, 3] = Some (p, Some 0)" "page_wf p"
    "slots p = [Some [1, 2, 3]]" using one_row_page by blast
  from page_update_correct [OF p(2) free_space_Some, of 0 "[9, 9]"] p show ?thesis by auto
qed

text \<open>
  C3. \<open>Page::compact\<close> on a well-formed page returns true, keeps every slot's row at its index,
  and grows the free space by exactly what \<open>dead_space\<close> reported, leaving no dead space.
\<close>

theorem page_compact_correct:
  assumes "page_wf p" "page_dead_space p = Some d" "free_space p = Some space"
  shows "\<exists>q. page_compact p = Some (q, True) \<and> page_wf q \<and> slots q = slots p \<and>
     free_space q = Some (space + d) \<and> page_dead_space q = Some 0"
proof -
  from compact_page [OF assms(1)] assms(2) obtain q where
    q: "page_compact p = Some (q, True)" "page_wf q" "slots q = slots p" "slot_count q = slot_count p"
      "page_dead_space q = Some 0" "unat (free_start p) = unat (free_start q) + d" by auto
  have dir: "dir_start q = dir_start p" using q(4) by (simp add: dir_start_def)
  have "unat (free_start p) \<le> dir_start p" using assms(1) by (simp add: page_wf_def)
  with q(6) assms(3) have "dir_start p - unat (free_start q) = space + d"
    by (simp add: free_space_Some)
  with q dir show ?thesis by (simp add: free_space_Some)
qed

theorem page_compact_correct_witness:
  "\<exists>q. page_compact (page_new 7 PageData) = Some (q, True) \<and> slots q = [] \<and> free_space q = Some 4074"
proof -
  have "page_dead_space (page_new 7 PageData) = Some 0"
    by (simp add: page_dead_space_def slot_count_def page_new_fields layout_simps)
  from page_compact_correct [OF page_new_wf this page_new_space] show ?thesis by auto
qed

text \<open>
  C4. \<open>Page::insert_at_slot\<close>, the physical placement recovery replays, on a well-formed page: it
  terminates without a panic, is a no-op on a slot already in the directory, refuses what does not
  fit, and otherwise puts the row at exactly the requested index with tombstones in the gap.
  Replaying the same record again is then a no-op.
\<close>

theorem page_insert_at_slot_correct:
  assumes "page_wf p" "free_space p = Some space"
  shows "\<exists>q ok. page_insert_at_slot p slot row = Some (q, ok) \<and> page_wf q \<and>
    (if unat slot < length (slots p) then ok \<and> q = p
     else ok = (length row + 4 * (unat slot - length (slots p) + 1) \<le> space) \<and>
          slots q = (if ok then slots p @ replicate (unat slot - length (slots p)) None @ [Some row]
                     else slots p)) \<and>
    (ok \<longrightarrow> page_insert_at_slot q slot row = Some (q, True))"
proof -
  have space: "space = dir_start p - unat (free_start p)" using assms(2) by (simp add: free_space_Some)
  from insert_at_slot_page [OF assms(1), of slot row] obtain q ok where
    q: "page_insert_at_slot p slot row = Some (q, ok)" "page_wf q"
    "if unat slot < length (slots p) then ok \<and> q = p
     else ok = (length row + 4 * (unat slot - length (slots p) + 1) \<le> space) \<and>
          slots q = (if ok then slots p @ replicate (unat slot - length (slots p)) None @ [Some row]
                     else slots p)"
    unfolding space by blast
  have "unat slot < length (slots q)" if ok
  proof (cases "unat slot < length (slots p)")
    case False
    with q(3) that have "slots q = slots p @ replicate (unat slot - length (slots p)) None @ [Some row]"
      by presburger
    with False show ?thesis by (simp del: length_slots)
  qed (use q(3) in auto)
  then have "page_insert_at_slot q slot row = Some (q, True)" if ok
    using that by (simp add: page_insert_at_slot_def less_slot_count)
  with q show ?thesis by blast
qed

theorem page_insert_at_slot_correct_witness:
  "\<exists>q. page_insert_at_slot (page_new 7 PageData) 2 [5] = Some (q, True) \<and>
     slots q = [None, None, Some [5]]"
proof -
  have two: "replicate 2 (None :: bytes option) = [None, None]" by (simp add: numeral_2_eq_2)
  from page_insert_at_slot_correct [OF page_new_wf page_new_space, where slot = 2 and row = "[5]"]
  obtain q ok where q: "page_insert_at_slot (page_new 7 PageData) 2 [5] = Some (q, ok)" "page_wf q"
    "if unat (2 :: u16) < length (slots (page_new 7 PageData)) then ok \<and> q = page_new 7 PageData
     else ok = (length [5 :: u8] + 4 * (unat (2 :: u16) - length (slots (page_new 7 PageData)) + 1) \<le> 4074) \<and>
          slots q = (if ok then slots (page_new 7 PageData) @
             replicate (unat (2 :: u16) - length (slots (page_new 7 PageData))) None @ [Some [5]]
                     else slots (page_new 7 PageData))"
    by blast
  then show ?thesis by (simp add: two del: length_slots)
qed

text \<open>
  C5. Whatever sequence of inserts, placements, deletes, updates, shrinks, in-place patches and
  compactions is applied to a fresh page, no operation panics and the page stays well-formed.
\<close>

theorem page_ops_never_panic:
  "\<exists>q. run_ops page_exec ops (page_new pid pt) = Some q \<and> page_wf q"
  by (rule pstore.run_total [OF page_new_wf])

text \<open>
  C6. Row identifiers are stable: across any sequence of operations, a slot that no operation
  addresses reads back the same row, and a slot once empty is never filled again.
\<close>

theorem row_ids_stable:
  assumes "page_wf p" "run_ops page_exec ops p = Some q" "unat i < length (slots p)"
  shows "((\<forall>x \<in> set ops. \<not> addresses x (unat i)) \<longrightarrow> page_get q i = page_get p i) \<and>
         (page_get p i = Some None \<longrightarrow> page_get q i = Some None)"
proof (intro conjI impI)
  obtain "page_wf q" using pstore.run_total [OF assms(1), of ops] assms(2) by auto
  note get = page_get_slots [OF this, of i] page_get_slots [OF assms(1), of i]
  show "page_get q i = page_get p i" if "\<forall>x \<in> set ops. \<not> addresses x (unat i)"
    using pstore.run_frame [OF assms that] assms(3) by (simp add: get)
  show "page_get q i = Some None" if "page_get p i = Some None"
    using pstore.run_dead [OF assms] that assms(3) by (simp add: get)
qed

theorem row_ids_stable_witness:
  "\<exists>p q. page_insert (page_new 7 PageData) [1, 2, 3] = Some (p, Some 0) \<and>
     run_ops page_exec [OpInsert [4], OpDelete 1, OpCompact] p = Some q \<and>
     page_get q 0 = Some (Some [1, 2, 3])"
proof -
  obtain p where p: "page_insert (page_new 7 PageData) [1, 2, 3] = Some (p, Some 0)" "page_wf p"
    "slots p = [Some [1, 2, 3]]" using one_row_page by blast
  obtain q where q: "run_ops page_exec [OpInsert [4], OpDelete 1, OpCompact] p = Some q"
    using pstore.run_total [OF p(2)] by blast
  have "unat (0 :: u16) < length (slots p)" by (simp add: p(3) del: length_slots)
  from row_ids_stable [OF p(2) q this] page_get_slots [OF p(2), of 0] p q show ?thesis
    by (auto simp: addresses_def)
qed


lemma page_new_flags: "data (page_new pid pt) ! 5 = 0x11"
  by (simp add: page_new_def Let_def layout_simps nth_put FLAG_HAS_CHECKSUM_def
      encode_page_version_def PAGE_VERSION_SHIFT_def PAGE_FORMAT_VERSION_def)

lemma page_new_version: "page_format_version_from_flags (data (page_new pid pt) ! 5) = Inr 1"
  by (simp add: page_new_flags page_format_version_from_flags_def PAGE_VERSION_SHIFT_def
      PAGE_VERSION_MASK_def PAGE_FORMAT_VERSION_def Let_def)


text \<open>
  C8. The offline verifier decides well-formedness of a stamped data page: a page it accepts is
  well-formed, and it accepts every well-formed page that stores no empty row.
\<close>

theorem verify_layout_correct:
  assumes "page_sized p" "page_page_type p = Some PageData" "page_has_checksum p"
    and "page_verify_bytes crc (data p) = Inr ()"
  shows "(verify_page_layout_bytes crc (data p) = Inr () \<longrightarrow> page_wf p) \<and>
         (page_wf p \<and> Some [] \<notin> set (slots p) \<longrightarrow> verify_page_layout_bytes crc (data p) = Inr ())"
proof -
  have "data p ! 4 = 1"
    using assms(2) by (auto simp: page_page_type_def page_type_from_u8_def split: if_splits)
  with assms verify_layout_sound verify_layout_complete show ?thesis by metis
qed

lemma stamp_header:
  assumes "page_sized p"
  shows "page_page_type (page_stamp_checksum crc p) = page_page_type p"
    and "page_has_checksum (page_stamp_checksum crc p)"
proof -
  have len: "length (data p) = 4096" using assms by simp
  then show "page_page_type (page_stamp_checksum crc p) = page_page_type p"
    by (simp add: page_page_type_def page_stamp_checksum_def Let_def nth_put layout_simps)
  show "page_has_checksum (page_stamp_checksum crc p)"
    using len stamped_flags(2) [of "data p ! 5"]
    by (simp add: page_has_checksum_def page_stamp_checksum_def Let_def nth_put layout_simps
        FLAG_HAS_CHECKSUM_def encode_page_version_def PAGE_FORMAT_VERSION_def PAGE_VERSION_SHIFT_def)
qed

theorem verify_layout_correct_witness:
  "verify_page_layout_bytes (\<lambda>_. 5)
     (data (page_stamp_checksum (\<lambda>_. 5) (page_new 7 PageData))) = Inr ()"
proof -
  let ?p = "page_new 7 PageData"
  have sized: "page_sized ?p" by (rule page_new_fields)
  have ty: "page_page_type ?p = Some PageData"
    by (simp add: page_page_type_def page_new_fields page_type_from_u8_def)
  note keep = stamp_keeps [OF page_new_wf [of 7 PageData], of "\<lambda>_. 5"]
  show ?thesis
    using verify_layout_correct [of "page_stamp_checksum (\<lambda>_. 5) ?p" "\<lambda>_. 5"] keep
      stamp_header [OF sized, of "\<lambda>_. 5"] ty stamp_verifies [OF sized page_new_version, of "\<lambda>_. 5"]
    by simp
qed

text \<open>
  C9. The two scans agree on every 4096-byte image, corrupt ones included, and neither panics:
  \<open>Page::iter\<close> yields what the zero-copy \<open>iter_page_slots\<close> yields. On a well-formed page that is
  not an overflow page, both yield exactly the live rows in slot order.
\<close>

theorem page_scans_agree:
  assumes "page_sized p"
  shows "page_iter p = Some (iter_page_slots (data p)) \<and>
    (page_wf p \<and> \<not> page_is_overflow p \<longrightarrow> iter_page_slots (data p) =
       List.map_filter (\<lambda>i. map_option (Pair (word_of_nat i)) (slots p ! i)) [0..<length (slots p)])"
proof (intro conjI impI)
  show "page_iter p = Some (iter_page_slots (data p))" by (rule page_iter_slots [OF assms])
  assume p: "page_wf p \<and> \<not> page_is_overflow p"
  have "slot_bytes_from_page (data p) (word_of_nat i) = slots p ! i" if "i < length (slots p)" for i
  proof -
    have "unat (word_of_nat i :: u16) = i" using that slot_count_le [of p] by simp
    with slot_bytes_from_page_get [OF assms, of "word_of_nat i"] slots_get [of p i] p that
    show ?thesis by simp
  qed
  moreover have "slot_count_from_page (data p) = slot_count p"
    by (simp add: slot_count_from_page_def slot_count_def raw_slot_count_def)
  ultimately show "iter_page_slots (data p) =
      List.map_filter (\<lambda>i. map_option (Pair (word_of_nat i)) (slots p ! i)) [0..<length (slots p)]"
    using p by (auto simp: iter_page_slots_def page_is_overflow_def map_filter_def
        intro!: map_cong filter_cong)
qed

theorem page_scans_agree_witness:
  "page_iter \<lparr>data = replicate 4096 0xFF\<rparr> = Some (iter_page_slots (replicate 4096 0xFF))"
  using page_scans_agree [of "\<lparr>data = replicate 4096 0xFF\<rparr>"] by (simp add: page_sized_def layout_simps)

text \<open>
  C10. The overflow-chain page round trip: a chunk no longer than the payload capacity is written
  without a panic and read back with its next-page link, and a row scan of the page yields nothing.
\<close>

theorem overflow_page_roundtrip:
  assumes "page_sized p" "length chunk \<le> OVERFLOW_PAYLOAD_CAP"
  shows "\<exists>q. page_set_overflow_chunk p nxt chunk = Some q \<and> page_sized q \<and>
     overflow_next_from_bytes (data q) = nxt \<and> overflow_chunk_from_bytes (data q) = chunk \<and>
     iter_page_slots (data q) = []"
proof -
  from overflow_chunk_roundtrip [OF assms, of nxt] obtain q where
    q: "page_set_overflow_chunk p nxt chunk = Some q" "page_sized q" "page_iter q = Some []"
      "overflow_next_from_bytes (data q) = nxt" "overflow_chunk_from_bytes (data q) = chunk" by blast
  with page_iter_slots [OF q(2)] show ?thesis by auto
qed

theorem overflow_page_roundtrip_witness:
  "\<exists>q. page_set_overflow_chunk (page_new_overflow 3) 4 [1, 2] = Some q \<and>
     overflow_next_from_bytes (data q) = 4 \<and> overflow_chunk_from_bytes (data q) = [1, 2]"
proof -
  have "length [1, 2 :: u8] \<le> OVERFLOW_PAYLOAD_CAP" by (simp add: layout_simps)
  from overflow_page_roundtrip [OF page_new_fields(1) this, of 3 PageOverflow 4]
  show ?thesis by (auto simp: page_new_overflow_def)
qed

end
