(* ===== verification/Utf8.thy ===== *)
theory Utf8
  imports Powdb_Prelude
begin

text \<open>
  The part of Rust's UTF-8 handling the storage formats rely on: the validity check behind
  \<open>str::from_utf8\<close> and the replacement behaviour of \<open>String::from_utf8_lossy\<close>. A Rust \<open>String\<close> is
  its UTF-8 bytes.
\<close>

unbundle bit_operations_syntax

definition byte_at :: "bytes \<Rightarrow> nat \<Rightarrow> u8" where
  "byte_at xs i = (if i < length xs then xs ! i else 0)"

definition is_cont :: "u8 \<Rightarrow> bool" where
  "is_cont b \<longleftrightarrow> 0x80 \<le> b \<and> b \<le> 0xBF"

definition utf8_char_width :: "u8 \<Rightarrow> nat" where
  "utf8_char_width b =
     (if b < 0x80 then 1 else if 0xC2 \<le> b \<and> b \<le> 0xDF then 2
      else if 0xE0 \<le> b \<and> b \<le> 0xEF then 3 else if 0xF0 \<le> b \<and> b \<le> 0xF4 then 4 else 0)"

text \<open>The range of the second byte after a given lead byte (no overlong forms, no surrogates).\<close>

definition second_ok :: "u8 \<Rightarrow> u8 \<Rightarrow> bool" where
  "second_ok b c \<longleftrightarrow>
     (if b = 0xE0 then 0xA0 \<le> c \<and> c \<le> 0xBF
      else if b = 0xED then 0x80 \<le> c \<and> c \<le> 0x9F
      else if b = 0xF0 then 0x90 \<le> c \<and> c \<le> 0xBF
      else if b = 0xF4 then 0x80 \<le> c \<and> c \<le> 0x8F
      else is_cont c)"

text \<open>
  One step at the head of the input: how many bytes are inspected, and whether they form a valid
  character. A broken sequence ends before the byte that breaks it.
\<close>

definition utf8_step :: "bytes \<Rightarrow> nat \<times> bool" where
  "utf8_step xs =
     (let b = byte_at xs 0; w = utf8_char_width b in
      if w = 1 then (1, True)
      else if w = 0 then (1, False)
      else if \<not> second_ok b (byte_at xs 1) then (1, False)
      else if w = 2 then (2, True)
      else if \<not> is_cont (byte_at xs 2) then (2, False)
      else if w = 3 then (3, True)
      else if \<not> is_cont (byte_at xs 3) then (3, False)
      else (4, True))"

lemma utf8_step_pos: "0 < fst (utf8_step xs)"
  by (simp add: utf8_step_def Let_def)

function utf8_valid :: "bytes \<Rightarrow> bool" where
  "utf8_valid xs =
     (if xs = [] then True
      else if snd (utf8_step xs) then utf8_valid (drop (fst (utf8_step xs)) xs) else False)"
  by auto
termination
  by (relation "measure length") (auto simp: utf8_step_pos)

function from_utf8_lossy :: "bytes \<Rightarrow> bytes" where
  "from_utf8_lossy xs =
     (if xs = [] then []
      else (if snd (utf8_step xs) then take (fst (utf8_step xs)) xs else [0xEF, 0xBF, 0xBD])
           @ from_utf8_lossy (drop (fst (utf8_step xs)) xs))"
  by auto
termination
  by (relation "measure length") (auto simp: utf8_step_pos)

declare utf8_valid.simps [simp del] from_utf8_lossy.simps [simp del]

lemma utf8_valid_Nil [simp]: "utf8_valid []"
  by (simp add: utf8_valid.simps)

lemma from_utf8_lossy_Nil [simp]: "from_utf8_lossy [] = []"
  by (simp add: from_utf8_lossy.simps)

text \<open>A valid string is decoded unchanged.\<close>

lemma from_utf8_lossy_valid [simp]: "utf8_valid xs \<Longrightarrow> from_utf8_lossy xs = xs"
proof (induction xs rule: utf8_valid.induct)
  case (1 xs)
  then show ?case
    by (subst from_utf8_lossy.simps) (auto simp: utf8_valid.simps [of xs])
qed

text \<open>Whatever the input, the result is a valid string: the invariant of the Rust type.\<close>

lemma not_cont_0: "\<not> second_ok b 0" "\<not> is_cont 0"
  by (simp_all add: second_ok_def is_cont_def)

lemma byte_at_cont:
  "second_ok b (byte_at xs i) \<Longrightarrow> i < length xs" "is_cont (byte_at xs i) \<Longrightarrow> i < length xs"
  using not_cont_0 by (auto simp: byte_at_def split: if_splits)

lemma utf8_step_length:
  assumes "snd (utf8_step xs)" "xs \<noteq> []"
  shows "fst (utf8_step xs) \<le> length xs"
  using assms byte_at_cont(1) [of "byte_at xs 0" xs 1] byte_at_cont(2) [of xs 2] byte_at_cont(2) [of xs 3]
  by (auto simp: utf8_step_def Let_def Suc_le_eq split: if_splits)

lemma utf8_step_local:
  assumes "snd (utf8_step xs)" "\<And>i. i < fst (utf8_step xs) \<Longrightarrow> byte_at ys i = byte_at xs i"
  shows "utf8_step ys = utf8_step xs"
proof -
  have 0: "byte_at ys 0 = byte_at xs 0" using assms(2) utf8_step_pos by blast
  have "fst (utf8_step xs) \<in> {1, 2, 3, 4}" by (simp add: utf8_step_def Let_def)
  then consider "fst (utf8_step xs) = 1" | "fst (utf8_step xs) = 2" | "fst (utf8_step xs) = 3"
    | "fst (utf8_step xs) = 4" by blast
  then show ?thesis
  proof cases
    case 1
    with assms(1) 0 show ?thesis by (auto simp: utf8_step_def Let_def split: if_splits)
  next
    case 2
    with assms(2) have "byte_at ys 1 = byte_at xs 1" by simp
    with 2 assms(1) 0 show ?thesis by (auto simp: utf8_step_def Let_def split: if_splits)
  next
    case 3
    with assms(2) have "byte_at ys 1 = byte_at xs 1" "byte_at ys 2 = byte_at xs 2" by simp_all
    with 3 assms(1) 0 show ?thesis by (auto simp: utf8_step_def Let_def split: if_splits)
  next
    case 4
    with assms(2) have "byte_at ys 1 = byte_at xs 1" "byte_at ys 2 = byte_at xs 2"
      "byte_at ys 3 = byte_at xs 3" by simp_all
    with 4 assms(1) 0 show ?thesis by (auto simp: utf8_step_def Let_def split: if_splits)
  qed
qed

lemma utf8_step_append:
  assumes "snd (utf8_step xs)" "xs \<noteq> []"
  shows "utf8_step (take (fst (utf8_step xs)) xs @ ys) = utf8_step xs"
    and "utf8_step (xs @ ys) = utf8_step xs"
  using utf8_step_length [OF assms]
  by (auto intro!: utf8_step_local [OF assms(1)] simp: byte_at_def nth_append)

lemma utf8_valid_append: "utf8_valid xs \<Longrightarrow> utf8_valid ys \<Longrightarrow> utf8_valid (xs @ ys)"
proof (induction xs rule: utf8_valid.induct)
  case (1 xs)
  show ?case
  proof (cases "xs = []")
    case False
    with 1(2) have ok: "snd (utf8_step xs)" and rest: "utf8_valid (drop (fst (utf8_step xs)) xs)"
      by (simp_all add: utf8_valid.simps [of xs] split: if_splits)
    have "utf8_valid (drop (fst (utf8_step xs)) (xs @ ys))"
      using 1(1) [OF False ok rest 1(3)] utf8_step_length [OF ok False] by simp
    with False ok show ?thesis
      by (simp add: utf8_valid.simps [of "xs @ ys"] utf8_step_append(2) [OF ok False])
  qed (use 1 in simp)
qed

lemma utf8_valid_step:
  assumes "snd (utf8_step xs)" "xs \<noteq> []"
  shows "utf8_valid (take (fst (utf8_step xs)) xs)"
  using utf8_step_append(1) [OF assms, of "[]"] utf8_step_length [OF assms] assms
  by (simp add: utf8_valid.simps [of "take (fst (utf8_step xs)) xs"])

lemma from_utf8_lossy_is_valid: "utf8_valid (from_utf8_lossy xs)"
proof (induction xs rule: from_utf8_lossy.induct)
  case (1 xs)
  have "utf8_valid [0xEF, 0xBF, 0xBD]"
    by (simp add: utf8_valid.simps [of "[0xEF, 0xBF, 0xBD]"] utf8_step_def byte_at_def
        utf8_char_width_def second_ok_def is_cont_def)
  from 1 utf8_valid_append [OF this, of "from_utf8_lossy (drop (fst (utf8_step xs)) xs)"] show ?case
    by (subst from_utf8_lossy.simps) (auto intro!: utf8_valid_append utf8_valid_step)
qed

text \<open>Every ASCII string is valid.\<close>

lemma utf8_valid_ascii: "\<forall>b \<in> set xs. b < 0x80 \<Longrightarrow> utf8_valid xs"
proof (induction xs)
  case (Cons b xs)
  then show ?case
    by (subst utf8_valid.simps) (simp add: utf8_step_def byte_at_def utf8_char_width_def)
qed simp

end
