(* ===== verification/Value_Types.thy ===== *)
theory Value_Types
  imports Utf8
begin

text \<open>
  The scalar values and schemas of \<^verbatim>\<open>crates/storage/src/types.rs\<close>. An \<open>i64\<close> and an \<open>f64\<close> are
  their 64 bits, a \<open>String\<close> is its UTF-8 bytes, and a JSON value is its PJ1 bytes. The ordering of
  values is in \<^theory_text>\<open>Value_Cmp\<close>, which needs the PJ1 order.
\<close>

datatype type_id =
    TEmpty | TInt | TFloat | TBool | TStr | TDateTime | TUuid | TBytes | TJson

fun type_id_to_u8 :: "type_id \<Rightarrow> u8" where
  "type_id_to_u8 TEmpty = 0"
| "type_id_to_u8 TInt = 1"
| "type_id_to_u8 TFloat = 2"
| "type_id_to_u8 TBool = 3"
| "type_id_to_u8 TStr = 4"
| "type_id_to_u8 TDateTime = 5"
| "type_id_to_u8 TUuid = 6"
| "type_id_to_u8 TBytes = 7"
| "type_id_to_u8 TJson = 8"

definition type_id_from_u8 :: "u8 \<Rightarrow> type_id option" where
  "type_id_from_u8 v =
     (if v = 0 then Some TEmpty else if v = 1 then Some TInt else if v = 2 then Some TFloat
      else if v = 3 then Some TBool else if v = 4 then Some TStr else if v = 5 then Some TDateTime
      else if v = 6 then Some TUuid else if v = 7 then Some TBytes else if v = 8 then Some TJson
      else None)"

datatype val =
    VInt u64
  | VFloat u64
  | VBool bool
  | VStr bytes
  | VDateTime u64
  | VUuid bytes
  | VBytes bytes
  | VJson bytes
  | VEmpty

fun type_id_of :: "val \<Rightarrow> type_id" where
  "type_id_of (VInt _) = TInt"
| "type_id_of (VFloat _) = TFloat"
| "type_id_of (VBool _) = TBool"
| "type_id_of (VStr _) = TStr"
| "type_id_of (VDateTime _) = TDateTime"
| "type_id_of (VUuid _) = TUuid"
| "type_id_of (VBytes _) = TBytes"
| "type_id_of (VJson _) = TJson"
| "type_id_of VEmpty = TEmpty"

fun encoded_size :: "val \<Rightarrow> nat" where
  "encoded_size (VInt _) = 8"
| "encoded_size (VFloat _) = 8"
| "encoded_size (VBool _) = 1"
| "encoded_size (VStr s) = 4 + length s"
| "encoded_size (VDateTime _) = 8"
| "encoded_size (VUuid _) = 16"
| "encoded_size (VBytes b) = 4 + length b"
| "encoded_size (VJson b) = 4 + length b"
| "encoded_size VEmpty = 0"

definition value_is_empty :: "val \<Rightarrow> bool" where
  "value_is_empty v \<longleftrightarrow> v = VEmpty"

record column_def =
  col_name :: bytes
  col_type :: type_id
  required :: bool
  position :: u16

record schema =
  table_name :: bytes
  columns :: "column_def list"

definition column_count :: "schema \<Rightarrow> nat" where
  "column_count sc = length (columns sc)"

definition find_column :: "schema \<Rightarrow> bytes \<Rightarrow> column_def option" where
  "find_column sc name = find (\<lambda>c. col_name c = name) (columns sc)"

fun position_of :: "('a \<Rightarrow> bool) \<Rightarrow> 'a list \<Rightarrow> nat option" where
  "position_of P [] = None"
| "position_of P (x # xs) = (if P x then Some 0 else map_option Suc (position_of P xs))"

definition column_index :: "schema \<Rightarrow> bytes \<Rightarrow> nat option" where
  "column_index sc name = position_of (\<lambda>c. col_name c = name) (columns sc)"

definition null_bitmap_size :: "schema \<Rightarrow> nat" where
  "null_bitmap_size sc = div_ceil8 (length (columns sc))"

definition is_fixed_size :: "type_id \<Rightarrow> bool" where
  "is_fixed_size t \<longleftrightarrow> t \<in> {TInt, TFloat, TBool, TDateTime, TUuid}"

fun fixed_size :: "type_id \<Rightarrow> nat option" where
  "fixed_size TInt = Some 8"
| "fixed_size TFloat = Some 8"
| "fixed_size TBool = Some 1"
| "fixed_size TDateTime = Some 8"
| "fixed_size TUuid = Some 16"
| "fixed_size _ = None"

record row_id =
  rid_page :: u32
  rid_slot :: u16

subsection \<open>Facts about types\<close>

lemma type_id_roundtrip [simp]: "type_id_from_u8 (type_id_to_u8 t) = Some t"
  by (cases t) (simp_all add: type_id_from_u8_def)

lemma fixed_size_iff: "is_fixed_size t \<longleftrightarrow> fixed_size t \<noteq> None"
  by (cases t) (simp_all add: is_fixed_size_def)

lemma is_fixed_size_simps [simp]:
  "is_fixed_size TInt" "is_fixed_size TFloat" "is_fixed_size TBool" "is_fixed_size TDateTime"
  "is_fixed_size TUuid" "\<not> is_fixed_size TEmpty" "\<not> is_fixed_size TStr" "\<not> is_fixed_size TBytes"
  "\<not> is_fixed_size TJson"
  by (simp_all add: is_fixed_size_def)

lemma position_of_Some:
  "position_of P xs = Some i \<longleftrightarrow> i < length xs \<and> P (xs ! i) \<and> (\<forall>j < i. \<not> P (xs ! j))"
proof (induction xs arbitrary: i)
  case (Cons x xs)
  show ?case
  proof (cases i)
    case 0
    then show ?thesis using Cons by auto
  next
    case (Suc k)
    then show ?thesis using Cons [of k] by (auto simp: less_Suc_eq_0_disj)
  qed
qed simp

end
