(* ===== verification/Row.thy ===== *)
theory Row
  imports Value_Types Page "HOL-Library.Product_Lexorder"
begin

text \<open>
  The row codec of \<^verbatim>\<open>crates/storage/src/row.rs\<close>: the v1 encoder and its fallible form, the v2
  encoder with out-of-line values, the full and selective decoders, the in-place patch of a
  variable column, and the spill planner. Buffers are written and read at computed offsets, as in
  the source; integer arithmetic is that of a release build.
\<close>

unbundle bit_operations_syntax

subsection \<open>Constants and errors\<close>

definition ROW_MAGIC :: bytes where "ROW_MAGIC = [0x50, 0x52, 0x4F, 0x57]"
definition ROW_FORMAT_VERSION :: u16 where "ROW_FORMAT_VERSION = 1"
definition ROW_FORMAT_VERSION_V2 :: u16 where "ROW_FORMAT_VERSION_V2 = 2"
definition MAX_ROW_FORMAT_VERSION :: u16 where "MAX_ROW_FORMAT_VERSION = ROW_FORMAT_VERSION_V2"
definition ROW_PREFIX_SIZE :: nat where [layout_simps]: "ROW_PREFIX_SIZE = 6"
definition OVERFLOW_STUB_SIZE :: nat where [layout_simps]: "OVERFLOW_STUB_SIZE = 24"
definition OVERFLOW_STUB_VERSION :: u8 where "OVERFLOW_STUB_VERSION = 1"
definition OVERFLOW_MIN :: nat where [layout_simps]: "OVERFLOW_MIN = 256"
definition MAX_VALUE_SIZE :: nat where [layout_simps]: "MAX_VALUE_SIZE = 64 * 1024 * 1024"
definition U16_MAX :: nat where [layout_simps]: "U16_MAX = 65535"

text \<open>The \<open>io::Error\<close> values the codec makes; \<open>FetchFailed\<close> is an error of the chain reader.\<close>

datatype row_error =
    UnsupportedRowVersion u16
  | ValueTooLarge type_id bytes nat
  | RowTooLarge nat
  | VarDataTooLarge nat
  | MalformedStub
  | FetchFailed bytes

subsection \<open>Overflow stubs\<close>

record overflow_stub =
  total_len :: u64
  first_page :: u32
  value_crc32 :: u32
  stub_flags :: u8
  stub_version :: u8

definition stub_new :: "u64 \<Rightarrow> u32 \<Rightarrow> u32 \<Rightarrow> overflow_stub" where
  "stub_new len fp c = \<lparr>total_len = len, first_page = fp, value_crc32 = c, stub_flags = 0,
     stub_version = OVERFLOW_STUB_VERSION\<rparr>"

definition stub_to_bytes :: "overflow_stub \<Rightarrow> bytes" where
  "stub_to_bytes s =
     (let b0 = replicate OVERFLOW_STUB_SIZE 0;
          b1 = put b0 0 (u64_to_le (total_len s));
          b2 = put b1 8 (u32_to_le (first_page s));
          b3 = put b2 12 (u32_to_le (value_crc32 s))
      in b3[16 := stub_flags s, 17 := stub_version s])"

definition stub_from_bytes :: "bytes \<Rightarrow> overflow_stub option" where
  "stub_from_bytes b =
     (if length b \<noteq> OVERFLOW_STUB_SIZE then None
      else if b ! 17 \<noteq> OVERFLOW_STUB_VERSION then None
      else Some \<lparr>total_len = u64_from_le (sub b 0 8), first_page = u32_from_le (sub b 8 4),
                 value_crc32 = u32_from_le (sub b 12 4), stub_flags = b ! 16, stub_version = b ! 17\<rparr>)"

subsection \<open>The row prefix\<close>

definition has_row_prefix :: "bytes \<Rightarrow> bool" where
  "has_row_prefix d \<longleftrightarrow> length d \<ge> ROW_PREFIX_SIZE \<and> sub d 0 4 = ROW_MAGIC"

definition row_format_version :: "bytes \<Rightarrow> row_error + u16" where
  "row_format_version d =
     (if has_row_prefix d
      then (let version = u16_from_le (sub d 4 2)
            in if version > MAX_ROW_FORMAT_VERSION then Inl (UnsupportedRowVersion version)
               else Inr version)
      else Inr 0)"

definition row_is_v2 :: "bytes \<Rightarrow> bool" where
  "row_is_v2 d \<longleftrightarrow> has_row_prefix d \<and> u16_from_le [d ! 4, d ! 5] = ROW_FORMAT_VERSION_V2"

definition validate_row_format :: "bytes \<Rightarrow> row_error + unit" where
  "validate_row_format d = (case row_format_version d of Inl e \<Rightarrow> Inl e | Inr _ \<Rightarrow> Inr ())"

definition row_body_offset :: "bytes \<Rightarrow> row_error + nat" where
  "row_body_offset d =
     (if has_row_prefix d
      then (case row_format_version d of Inl e \<Rightarrow> Inl e | Inr _ \<Rightarrow> Inr ROW_PREFIX_SIZE)
      else Inr 0)"

definition row_body :: "bytes \<Rightarrow> bytes" where
  "row_body d = (if has_row_prefix d then drop ROW_PREFIX_SIZE d else d)"

text \<open>
  The move of the body behind the prefix; the v2 encoder repeats it with its own version.
\<close>

definition prepend_prefix :: "u16 \<Rightarrow> bytes \<Rightarrow> bytes run" where
  "prepend_prefix version out =
     do { let body_len = length out;
          o1 \<leftarrow> copy_within (out @ replicate ROW_PREFIX_SIZE 0) 0 body_len ROW_PREFIX_SIZE;
          o2 \<leftarrow> copy_from_slice o1 0 ROW_MAGIC;
          copy_from_slice o2 4 (u16_to_le version) }"

definition prepend_row_prefix :: "bytes \<Rightarrow> bytes run" where
  "prepend_row_prefix out = prepend_prefix ROW_FORMAT_VERSION out"

subsection \<open>Row layout\<close>

record row_layout =
  fixed_offsets :: "nat option list"
  fixed_region_size :: nat
  var_index :: "nat option list"
  n_var :: nat
  bitmap_size :: nat

definition overflow_bitmap_size :: "row_layout \<Rightarrow> nat" where
  "overflow_bitmap_size lay = div_ceil8 (n_var lay)"

fun layout_scan ::
  "column_def list \<Rightarrow> nat \<Rightarrow> nat \<Rightarrow> nat option list \<times> nat option list \<times> nat \<times> nat" where
  "layout_scan [] fixed_pos var_count = ([], [], fixed_pos, var_count)"
| "layout_scan (c # cs) fixed_pos var_count =
     (if is_fixed_size (col_type c)
      then (let (fo, vi, fp, vc) = layout_scan cs (fixed_pos + the (fixed_size (col_type c))) var_count
            in (Some fixed_pos # fo, None # vi, fp, vc))
      else (let (fo, vi, fp, vc) = layout_scan cs fixed_pos (var_count + 1)
            in (None # fo, Some var_count # vi, fp, vc)))"

definition row_layout_new :: "schema \<Rightarrow> row_layout" where
  "row_layout_new sc =
     (let (fo, vi, fixed_pos, var_count) = layout_scan (columns sc) 0 0
      in \<lparr>fixed_offsets = fo, fixed_region_size = fixed_pos, var_index = vi, n_var = var_count,
          bitmap_size = div_ceil8 (length (columns sc))\<rparr>)"

subsection \<open>Bitmaps\<close>

definition set_bit_run :: "bytes \<Rightarrow> nat \<Rightarrow> bytes run" where
  "set_bit_run bm i =
     do { b \<leftarrow> index_run bm (i div 8); Some (bm[i div 8 := b OR push_bit (i mod 8) 1]) }"

definition get_bit_run :: "bytes \<Rightarrow> nat \<Rightarrow> bool run" where
  "get_bit_run bm i =
     do { b \<leftarrow> index_run bm (i div 8); Some (drop_bit (i mod 8) b AND 1 = 1) }"

subsection \<open>Encoding, format v1\<close>

text \<open>The sizing and null-bitmap pass.\<close>

fun prepass :: "nat \<Rightarrow> val list \<Rightarrow> bytes \<times> nat \<Rightarrow> (bytes \<times> nat) run" where
  "prepass i [] st = Some st"
| "prepass i (v # vs) (bm, var_size) =
     do { st \<leftarrow> (case v of
                   VEmpty \<Rightarrow> do { bm' \<leftarrow> set_bit_run bm i; Some (bm', var_size) }
                 | VStr s \<Rightarrow> Some (bm, var_size + length s)
                 | VBytes b \<Rightarrow> Some (bm, var_size + length b)
                 | VJson b \<Rightarrow> Some (bm, var_size + length b)
                 | _ \<Rightarrow> Some (bm, var_size));
          prepass (Suc i) vs st }"

definition put_fixed :: "bytes \<Rightarrow> nat \<Rightarrow> val \<Rightarrow> bytes run" where
  "put_fixed out pos v =
     (case v of
        VEmpty \<Rightarrow> Some out
      | VInt x \<Rightarrow> copy_from_slice out pos (u64_to_le x)
      | VFloat x \<Rightarrow> copy_from_slice out pos (u64_to_le x)
      | VBool b \<Rightarrow> copy_from_slice out pos [if b then 1 else 0]
      | VDateTime x \<Rightarrow> copy_from_slice out pos (u64_to_le x)
      | VUuid u \<Rightarrow> copy_from_slice out pos u
      | _ \<Rightarrow> None)"

definition put_var :: "bytes \<Rightarrow> nat \<Rightarrow> u16 \<Rightarrow> val \<Rightarrow> (bytes \<times> u16) run" where
  "put_var out var_data_start cursor v =
     (let stream = (\<lambda>b. do { o' \<leftarrow> copy_from_slice out (var_data_start + unat cursor) b;
                             Some (o', cursor + word_of_nat (length b)) })
      in case v of
           VEmpty \<Rightarrow> Some (out, cursor)
         | VStr s \<Rightarrow> stream s
         | VBytes b \<Rightarrow> stream b
         | VJson b \<Rightarrow> stream b
         | _ \<Rightarrow> None)"

text \<open>The single pass over the columns; the state is the buffer, the cursor and the offset slot.\<close>

fun write_columns :: "row_layout \<Rightarrow> nat \<Rightarrow> nat \<Rightarrow> nat \<Rightarrow> nat \<Rightarrow> val list \<Rightarrow>
    bytes \<times> u16 \<times> nat \<Rightarrow> (bytes \<times> u16 \<times> nat) run" where
  "write_columns lay fixed_start offsets_start var_data_start i [] st = Some st"
| "write_columns lay fixed_start offsets_start var_data_start i (v # vs) (out, cursor, off_slot) =
     do { fo \<leftarrow> index_run (fixed_offsets lay) i;
          st \<leftarrow> (case fo of
                   Some off \<Rightarrow> do { o1 \<leftarrow> put_fixed out (fixed_start + off) v;
                                   Some (o1, cursor, off_slot) }
                 | None \<Rightarrow> do {
                     o1 \<leftarrow> copy_from_slice out (offsets_start + off_slot * 2) (u16_to_le cursor);
                     (o2, c2) \<leftarrow> put_var o1 var_data_start cursor v;
                     Some (o2, c2, off_slot + 1) });
          write_columns lay fixed_start offsets_start var_data_start (Suc i) vs st }"

text \<open>
  From the sized, zeroed buffer to the finished row: length prefix, bitmap, columns, end sentinel.
\<close>

definition fill_row :: "row_layout \<Rightarrow> nat \<Rightarrow> val list \<Rightarrow> bytes \<Rightarrow> nat \<Rightarrow> bytes run" where
  "fill_row lay n_cols values bitmap var_data_size =
     do { let n_offsets = n_var lay + 1;
          let body_size = bitmap_size lay + fixed_region_size lay + n_offsets * 2 + var_data_size;
          let total_size = 2 + body_size;
          let out = replicate total_size 0;
          o1 \<leftarrow> copy_from_slice out 0 (u16_to_le (word_of_nat total_size));
          o2 \<leftarrow> copy_from_slice o1 2 bitmap;
          let fixed_start = 2 + bitmap_size lay;
          let offsets_start = fixed_start + fixed_region_size lay;
          let var_data_start = offsets_start + n_offsets * 2;
          (o3, cursor, off_slot) \<leftarrow>
            write_columns lay fixed_start offsets_start var_data_start 0 (take n_cols values) (o2, 0, 0);
          o4 \<leftarrow> copy_from_slice o3 (offsets_start + off_slot * 2) (u16_to_le cursor);
          prepend_row_prefix o4 }"

definition encode_row_into_with_layout :: "schema \<Rightarrow> row_layout \<Rightarrow> val list \<Rightarrow> bytes run" where
  "encode_row_into_with_layout sc lay values =
     do { (bitmap, var_data_size) \<leftarrow> prepass 0 values (replicate (bitmap_size lay) 0, 0);
          fill_row lay (length (columns sc)) values bitmap var_data_size }"

definition encode_row_into :: "schema \<Rightarrow> val list \<Rightarrow> bytes run" where
  "encode_row_into sc values = encode_row_into_with_layout sc (row_layout_new sc) values"

definition encode_row :: "schema \<Rightarrow> val list \<Rightarrow> bytes run" where
  "encode_row sc values = encode_row_into sc values"

text \<open>The fallible encoder checks every variable value and the totals against the u16 limit.\<close>

fun prepass_checked ::
  "schema \<Rightarrow> nat \<Rightarrow> val list \<Rightarrow> bytes \<times> nat \<Rightarrow> (row_error + bytes \<times> nat) run" where
  "prepass_checked sc i [] st = Some (Inr st)"
| "prepass_checked sc i (v # vs) (bm, var_size) =
     (let grow = (\<lambda>t b. if length b > U16_MAX
                        then do { c \<leftarrow> index_run (columns sc) i;
                                  Some (Inl (ValueTooLarge t (col_name c) (length b))) }
                        else prepass_checked sc (Suc i) vs (bm, var_size + length b))
      in case v of
           VEmpty \<Rightarrow> do { bm' \<leftarrow> set_bit_run bm i; prepass_checked sc (Suc i) vs (bm', var_size) }
         | VStr s \<Rightarrow> grow TStr s
         | VBytes b \<Rightarrow> grow TBytes b
         | VJson b \<Rightarrow> grow TJson b
         | _ \<Rightarrow> prepass_checked sc (Suc i) vs (bm, var_size))"

definition try_encode_row_into_with_layout ::
  "schema \<Rightarrow> row_layout \<Rightarrow> val list \<Rightarrow> (row_error + bytes) run" where
  "try_encode_row_into_with_layout sc lay values =
     do { pre \<leftarrow> prepass_checked sc 0 values (replicate (bitmap_size lay) 0, 0);
          case pre of
            Inl e \<Rightarrow> Some (Inl e)
          | Inr (bitmap, var_data_size) \<Rightarrow>
              (let n_offsets = n_var lay + 1;
                   body_size = bitmap_size lay + fixed_region_size lay + n_offsets * 2 + var_data_size;
                   total_size = 2 + body_size
               in if total_size > U16_MAX then Some (Inl (RowTooLarge total_size))
                  else if var_data_size > U16_MAX then Some (Inl (VarDataTooLarge var_data_size))
                  else map_option Inr (fill_row lay (length (columns sc)) values bitmap var_data_size)) }"

definition try_encode_row_into :: "schema \<Rightarrow> val list \<Rightarrow> (row_error + bytes) run" where
  "try_encode_row_into sc values = try_encode_row_into_with_layout sc (row_layout_new sc) values"

definition try_encode_row :: "schema \<Rightarrow> val list \<Rightarrow> (row_error + bytes) run" where
  "try_encode_row sc values = try_encode_row_into sc values"

subsection \<open>Decoding\<close>

definition read_u16 :: "bytes \<Rightarrow> nat \<Rightarrow> u16 run" where
  "read_u16 d pos = do { s \<leftarrow> slice_run d pos (pos + 2); Some (u16_from_le s) }"

definition decode_fixed :: "type_id \<Rightarrow> bytes \<Rightarrow> nat \<Rightarrow> val run" where
  "decode_fixed t d pos =
     (case t of
        TInt \<Rightarrow> do { s \<leftarrow> slice_run d pos (pos + 8); Some (VInt (u64_from_le s)) }
      | TFloat \<Rightarrow> do { s \<leftarrow> slice_run d pos (pos + 8); Some (VFloat (u64_from_le s)) }
      | TBool \<Rightarrow> do { b \<leftarrow> index_run d pos; Some (VBool (b \<noteq> 0)) }
      | TDateTime \<Rightarrow> do { s \<leftarrow> slice_run d pos (pos + 8); Some (VDateTime (u64_from_le s)) }
      | TUuid \<Rightarrow> do { s \<leftarrow> slice_run d pos (pos + 16); Some (VUuid s) }
      | _ \<Rightarrow> None)"

definition decode_var :: "type_id \<Rightarrow> bytes \<Rightarrow> val run" where
  "decode_var t b =
     (case t of
        TStr \<Rightarrow> Some (VStr (from_utf8_lossy b))
      | TBytes \<Rightarrow> Some (VBytes b)
      | TJson \<Rightarrow> Some (VJson b)
      | _ \<Rightarrow> None)"

definition decode_column :: "schema \<Rightarrow> row_layout \<Rightarrow> bytes \<Rightarrow> nat \<Rightarrow> val run" where
  "decode_column sc lay row col_idx =
     do { let is_v2 = row_is_v2 row;
          let d = row_body row;
          col \<leftarrow> index_run (columns sc) col_idx;
          byte \<leftarrow> index_run d (2 + col_idx div 8);
          if drop_bit (col_idx mod 8) byte AND 1 = 1 then Some VEmpty
          else do {
            let ovf_size = (if is_v2 then overflow_bitmap_size lay else 0);
            let ovf_start = 2 + bitmap_size lay;
            let fixed_start = ovf_start + ovf_size;
            fo \<leftarrow> index_run (fixed_offsets lay) col_idx;
            case fo of
              Some offset \<Rightarrow> decode_fixed (col_type col) d (fixed_start + offset)
            | None \<Rightarrow> do {
                vo \<leftarrow> index_run (var_index lay) col_idx;
                vi \<leftarrow> vo;
                spilled \<leftarrow> (if is_v2
                            then do { ovf \<leftarrow> slice_run d ovf_start (ovf_start + ovf_size);
                                      get_bit_run ovf vi }
                            else Some False);
                if spilled then Some VEmpty
                else do {
                  let offset_table_start = fixed_start + fixed_region_size lay;
                  var_offset \<leftarrow> read_u16 d (offset_table_start + vi * 2);
                  var_next \<leftarrow> read_u16 d (offset_table_start + (vi + 1) * 2);
                  let var_data_start = offset_table_start + (n_var lay + 1) * 2;
                  b \<leftarrow> slice_run d (var_data_start + unat var_offset) (var_data_start + unat var_next);
                  decode_var (col_type col) b } } } }"

text \<open>\<open>decode_row\<close>: the fixed columns, the offset table, then the variable columns.\<close>

fun decode_fixed_cols ::
  "bytes \<Rightarrow> bytes \<Rightarrow> nat \<Rightarrow> column_def list \<Rightarrow> nat \<times> val list \<Rightarrow> (nat \<times> val list) run" where
  "decode_fixed_cols d null_bitmap i [] st = Some st"
| "decode_fixed_cols d null_bitmap i (c # cs) (pos, values) =
     (if \<not> is_fixed_size (col_type c) then decode_fixed_cols d null_bitmap (Suc i) cs (pos, values)
      else do {
        is_null \<leftarrow> get_bit_run null_bitmap i;
        sz \<leftarrow> fixed_size (col_type c);
        if is_null then decode_fixed_cols d null_bitmap (Suc i) cs (pos + sz, values)
        else do { v \<leftarrow> decode_fixed (col_type c) d pos;
                  decode_fixed_cols d null_bitmap (Suc i) cs (pos + sz, values[i := v]) } })"

fun read_offsets :: "bytes \<Rightarrow> nat \<Rightarrow> nat \<Rightarrow> nat list run" where
  "read_offsets d pos 0 = Some []"
| "read_offsets d pos (Suc n) =
     do { off \<leftarrow> read_u16 d pos; offs \<leftarrow> read_offsets d (pos + 2) n; Some (unat off # offs) }"

fun decode_var_cols :: "schema \<Rightarrow> bytes \<Rightarrow> bool \<Rightarrow> bytes \<Rightarrow> bytes \<Rightarrow> nat \<Rightarrow> nat list \<Rightarrow>
    nat \<Rightarrow> nat list \<Rightarrow> val list \<Rightarrow> val list run" where
  "decode_var_cols sc d is_v2 null_bitmap ovf_bitmap var_data_start var_offsets vi [] values = Some values"
| "decode_var_cols sc d is_v2 null_bitmap ovf_bitmap var_data_start var_offsets vi (ci # cis) values =
     do { is_null \<leftarrow> get_bit_run null_bitmap ci;
          values' \<leftarrow>
            (if is_null then Some values
             else do {
               spilled \<leftarrow> (if is_v2 then get_bit_run ovf_bitmap vi else Some False);
               if spilled then Some values
               else do {
                 o1 \<leftarrow> index_run var_offsets vi;
                 o2 \<leftarrow> index_run var_offsets (vi + 1);
                 b \<leftarrow> slice_run d (var_data_start + o1) (var_data_start + o2);
                 c \<leftarrow> index_run (columns sc) ci;
                 v \<leftarrow> decode_var (col_type c) b;
                 Some (values[ci := v]) } });
          decode_var_cols sc d is_v2 null_bitmap ovf_bitmap var_data_start var_offsets (Suc vi) cis values' }"

definition var_col_indices :: "schema \<Rightarrow> nat list" where
  "var_col_indices sc =
     filter (\<lambda>i. \<not> is_fixed_size (col_type (columns sc ! i))) [0..<length (columns sc)]"

definition decode_row :: "schema \<Rightarrow> bytes \<Rightarrow> val list run" where
  "decode_row sc row =
     do { let is_v2 = row_is_v2 row;
          let d = row_body row;
          let n_cols = length (columns sc);
          let bm_size = div_ceil8 n_cols;
          let nv = length (filter (\<lambda>c. \<not> is_fixed_size (col_type c)) (columns sc));
          let ovf_size = (if is_v2 then div_ceil8 nv else 0);
          null_bitmap \<leftarrow> slice_run d 2 (2 + bm_size);
          ovf_bitmap \<leftarrow> slice_run d (2 + bm_size) (2 + bm_size + ovf_size);
          (pos, values) \<leftarrow> decode_fixed_cols d null_bitmap 0 (columns sc)
                            (2 + bm_size + ovf_size, replicate n_cols VEmpty);
          let vcis = var_col_indices sc;
          let n_offsets = length vcis + 1;
          var_offsets \<leftarrow> read_offsets d pos n_offsets;
          let var_data_start = pos + 2 * n_offsets;
          decode_var_cols sc d is_v2 null_bitmap ovf_bitmap var_data_start var_offsets 0 vcis values }"

definition decode_inline_row_with_layout :: "schema \<Rightarrow> row_layout \<Rightarrow> bytes \<Rightarrow> val list run" where
  "decode_inline_row_with_layout sc lay row =
     do { let body = row_body row;
          let metadata_end = 2 + bitmap_size lay + fixed_region_size lay + (n_var lay + 1) * 2;
          _ \<leftarrow> slice_run body 0 metadata_end;
          those (map (decode_column sc lay row) [0..<length (columns sc)]) }"

subsection \<open>Patching a variable column in place\<close>

text \<open>Subtraction on \<open>usize\<close>, which wraps in a release build.\<close>

definition usize_sub :: "nat \<Rightarrow> nat \<Rightarrow> nat" where
  "usize_sub a b = (if b \<le> a then a - b else a + 2 ^ 64 - b)"

fun shift_offsets :: "bytes \<Rightarrow> nat \<Rightarrow> nat \<Rightarrow> nat list \<Rightarrow> bytes run" where
  "shift_offsets b table_start delta [] = Some b"
| "shift_offsets b table_start delta (vi # vis) =
     do { old_off \<leftarrow> read_u16 b (table_start + vi * 2);
          b' \<leftarrow> copy_from_slice b (table_start + vi * 2) (u16_to_le (old_off - word_of_nat delta));
          shift_offsets b' table_start delta vis }"

text \<open>The result is the changed buffer and, on success, the new row length.\<close>

definition patch_var_column_in_place ::
  "bytes \<Rightarrow> row_layout \<Rightarrow> nat \<Rightarrow> bytes option \<Rightarrow> (bytes \<times> u16 option) run" where
  "patch_var_column_in_place row lay col_idx new_value =
     (if row_is_v2 row then Some (row, None)
      else case row_body_offset row of
        Inl _ \<Rightarrow> Some (row, None)
      | Inr base \<Rightarrow> do {
          vo \<leftarrow> index_run (var_index lay) col_idx;
          var_idx \<leftarrow> vo;
          let table_start = base + 2 + bitmap_size lay + fixed_region_size lay;
          let var_data_start = table_start + (n_var lay + 1) * 2;
          old_offset \<leftarrow> read_u16 row (table_start + var_idx * 2);
          old_next \<leftarrow> read_u16 row (table_start + (var_idx + 1) * 2);
          let old_var_len = usize_sub (unat old_next) (unat old_offset);
          let new_var_len = (case new_value of None \<Rightarrow> 0 | Some v \<Rightarrow> length v);
          if new_var_len > old_var_len then Some (row, None)
          else do {
            let delta = old_var_len - new_var_len;
            let abs_start = var_data_start + unat old_offset;
            let abs_end = var_data_start + unat old_next;
            let old_row_len = length row;
            r1 \<leftarrow> (case new_value of Some v \<Rightarrow> copy_from_slice row abs_start v | None \<Rightarrow> Some row);
            r2 \<leftarrow> (if delta > 0
                   then do { x \<leftarrow> copy_within r1 abs_end old_row_len (abs_start + new_var_len);
                             shift_offsets x table_start delta [var_idx + 1..<n_var lay + 1] }
                   else Some r1);
            byte \<leftarrow> index_run r2 (base + 2 + col_idx div 8);
            let mask = push_bit (col_idx mod 8) (1 :: u8);
            let r3 = r2[base + 2 + col_idx div 8 :=
                          (if new_value = None then byte OR mask else byte AND NOT mask)];
            let new_row_len = usize_sub old_row_len delta;
            let new_body_len = usize_sub new_row_len base;
            r4 \<leftarrow> copy_from_slice r3 base (u16_to_le (word_of_nat new_body_len));
            Some (r4, Some (word_of_nat new_row_len)) } })"

subsection \<open>Format v2: rows with out-of-line values\<close>

fun prepass_v2 :: "row_layout \<Rightarrow> overflow_stub option list \<Rightarrow> nat \<Rightarrow> val list \<Rightarrow>
    bytes \<times> bytes \<times> nat \<Rightarrow> (bytes \<times> bytes \<times> nat) run" where
  "prepass_v2 lay spilled i [] st = Some st"
| "prepass_v2 lay spilled i (v # vs) (nb, ob, var_size) =
     do { vo \<leftarrow> index_run (var_index lay) i;
          st \<leftarrow> (case vo of
                   None \<Rightarrow> if v = VEmpty
                           then do { nb' \<leftarrow> set_bit_run nb i; Some (nb', ob, var_size) }
                           else Some (nb, ob, var_size)
                 | Some vi \<Rightarrow> do {
                     sp \<leftarrow> index_run spilled vi;
                     case sp of
                       Some _ \<Rightarrow> do { ob' \<leftarrow> set_bit_run ob vi;
                                     Some (nb, ob', var_size + OVERFLOW_STUB_SIZE) }
                     | None \<Rightarrow> (case v of
                          VEmpty \<Rightarrow> do { nb' \<leftarrow> set_bit_run nb i; Some (nb', ob, var_size) }
                        | VStr s \<Rightarrow> Some (nb, ob, var_size + length s)
                        | VBytes b \<Rightarrow> Some (nb, ob, var_size + length b)
                        | VJson b \<Rightarrow> Some (nb, ob, var_size + length b)
                        | _ \<Rightarrow> Some (nb, ob, var_size)) });
          prepass_v2 lay spilled (Suc i) vs st }"

fun write_columns_v2 :: "row_layout \<Rightarrow> overflow_stub option list \<Rightarrow> nat \<Rightarrow> nat \<Rightarrow> nat \<Rightarrow> nat \<Rightarrow> val list \<Rightarrow>
    bytes \<times> u16 \<times> nat \<Rightarrow> (bytes \<times> u16 \<times> nat) run" where
  "write_columns_v2 lay spilled fixed_start offsets_start var_data_start i [] st = Some st"
| "write_columns_v2 lay spilled fixed_start offsets_start var_data_start i (v # vs) (out, cursor, off_slot) =
     do { fo \<leftarrow> index_run (fixed_offsets lay) i;
          st \<leftarrow> (case fo of
                   Some off \<Rightarrow> do { o1 \<leftarrow> put_fixed out (fixed_start + off) v;
                                   Some (o1, cursor, off_slot) }
                 | None \<Rightarrow> do {
                     vo \<leftarrow> index_run (var_index lay) i;
                     vi \<leftarrow> vo;
                     o1 \<leftarrow> copy_from_slice out (offsets_start + off_slot * 2) (u16_to_le cursor);
                     sp \<leftarrow> index_run spilled vi;
                     (o2, c2) \<leftarrow> (case sp of
                         Some stub \<Rightarrow> do {
                           o' \<leftarrow> copy_from_slice o1 (var_data_start + unat cursor) (stub_to_bytes stub);
                           Some (o', cursor + word_of_nat OVERFLOW_STUB_SIZE) }
                       | None \<Rightarrow> put_var o1 var_data_start cursor v);
                     Some (o2, c2, off_slot + 1) });
          write_columns_v2 lay spilled fixed_start offsets_start var_data_start (Suc i) vs st }"

definition encode_row_v2_into ::
  "schema \<Rightarrow> row_layout \<Rightarrow> val list \<Rightarrow> overflow_stub option list \<Rightarrow> bytes run" where
  "encode_row_v2_into sc lay values spilled =
     do { let ovf_size = overflow_bitmap_size lay;
          let n_offsets = n_var lay + 1;
          (nb, ob, var_data_size) \<leftarrow> prepass_v2 lay spilled 0 values
             (replicate (bitmap_size lay) 0, replicate ovf_size 0, 0);
          let body_size = bitmap_size lay + ovf_size + fixed_region_size lay + n_offsets * 2 + var_data_size;
          let total_size = 2 + body_size;
          o1 \<leftarrow> copy_from_slice (replicate total_size 0) 0 (u16_to_le (word_of_nat total_size));
          o2 \<leftarrow> copy_from_slice o1 2 nb;
          let ovf_start = 2 + bitmap_size lay;
          o3 \<leftarrow> copy_from_slice o2 ovf_start ob;
          let fixed_start = ovf_start + ovf_size;
          let offsets_start = fixed_start + fixed_region_size lay;
          let var_data_start = offsets_start + n_offsets * 2;
          (o4, cursor, off_slot) \<leftarrow> write_columns_v2 lay spilled fixed_start offsets_start var_data_start 0
             (take (length (columns sc)) values) (o3, 0, 0);
          o5 \<leftarrow> copy_from_slice o4 (offsets_start + off_slot * 2) (u16_to_le cursor);
          prepend_prefix ROW_FORMAT_VERSION_V2 o5 }"

definition raw_stub :: "schema \<Rightarrow> row_layout \<Rightarrow> bytes \<Rightarrow> nat \<Rightarrow> overflow_stub option run" where
  "raw_stub sc lay row col_idx =
     (if \<not> row_is_v2 row \<or> col_idx \<ge> length (columns sc) then Some None
      else do {
        vo \<leftarrow> index_run (var_index lay) col_idx;
        case vo of
          None \<Rightarrow> Some None
        | Some vi \<Rightarrow> do {
            let body = drop ROW_PREFIX_SIZE row;
            let ovf_start = 2 + bitmap_size lay;
            ovf \<leftarrow> slice_run body ovf_start (ovf_start + overflow_bitmap_size lay);
            set \<leftarrow> get_bit_run ovf vi;
            if \<not> set then Some None
            else do {
              let fixed_start = ovf_start + overflow_bitmap_size lay;
              let offsets_start = fixed_start + fixed_region_size lay;
              var_offset \<leftarrow> read_u16 body (offsets_start + vi * 2);
              let start = offsets_start + (n_var lay + 1) * 2 + unat var_offset;
              b \<leftarrow> slice_run body start (start + OVERFLOW_STUB_SIZE);
              Some (stub_from_bytes b) } } })"

text \<open>\<open>for_each_stub\<close>, as the list of the visits it makes.\<close>

fun stubs_of :: "schema \<Rightarrow> row_layout \<Rightarrow> bytes \<Rightarrow> nat list \<Rightarrow> (nat \<times> overflow_stub) list run" where
  "stubs_of sc lay row [] = Some []"
| "stubs_of sc lay row (i # is) =
     do { s \<leftarrow> raw_stub sc lay row i;
          rest \<leftarrow> stubs_of sc lay row is;
          Some (case s of None \<Rightarrow> rest | Some stub \<Rightarrow> (i, stub) # rest) }"

definition for_each_stub :: "schema \<Rightarrow> row_layout \<Rightarrow> bytes \<Rightarrow> (nat \<times> overflow_stub) list run" where
  "for_each_stub sc lay row =
     (if \<not> row_is_v2 row then Some [] else stubs_of sc lay row [0..<length (columns sc)])"

text \<open>
  \<open>decode_row_v2\<close> reassembles spilled columns through \<open>fetch\<close>, the caller's reader of overflow
  chains.
\<close>

definition decode_column_v2 :: "(overflow_stub \<Rightarrow> row_error + bytes) \<Rightarrow> row_layout \<Rightarrow> bytes \<Rightarrow>
    bytes \<Rightarrow> bytes \<Rightarrow> nat \<Rightarrow> nat \<Rightarrow> nat \<Rightarrow> nat \<Rightarrow> column_def \<Rightarrow> (row_error + val) run" where
  "decode_column_v2 fetch lay body nb ob fixed_start offsets_start var_data_start i col =
     do { fo \<leftarrow> index_run (fixed_offsets lay) i;
          case fo of
            Some off \<Rightarrow> do {
              is_null \<leftarrow> get_bit_run nb i;
              if is_null then Some (Inr VEmpty)
              else map_option Inr (decode_fixed (col_type col) body (fixed_start + off)) }
          | None \<Rightarrow> do {
              vo \<leftarrow> index_run (var_index lay) i;
              vi \<leftarrow> vo;
              is_null \<leftarrow> get_bit_run nb i;
              if is_null then Some (Inr VEmpty)
              else do {
                var_offset \<leftarrow> read_u16 body (offsets_start + vi * 2);
                var_next \<leftarrow> read_u16 body (offsets_start + (vi + 1) * 2);
                let start = var_data_start + unat var_offset;
                let end = var_data_start + unat var_next;
                is_spilled \<leftarrow> get_bit_run ob vi;
                b \<leftarrow> (if is_spilled
                     then do { s \<leftarrow> slice_run body start end;
                               Some (case stub_from_bytes s of
                                       None \<Rightarrow> Inl MalformedStub
                                     | Some stub \<Rightarrow> fetch stub) }
                     else do { s \<leftarrow> slice_run body start end; Some (Inr s) });
                case b of
                  Inl e \<Rightarrow> Some (Inl e)
                | Inr bs \<Rightarrow> map_option Inr (decode_var (col_type col) bs) } } }"

fun decode_columns_v2 :: "(nat \<Rightarrow> column_def \<Rightarrow> (row_error + val) run) \<Rightarrow> nat \<Rightarrow> column_def list \<Rightarrow>
    (row_error + val list) run" where
  "decode_columns_v2 f i [] = Some (Inr [])"
| "decode_columns_v2 f i (c # cs) =
     do { v \<leftarrow> f i c;
          case v of
            Inl e \<Rightarrow> Some (Inl e)
          | Inr x \<Rightarrow> do { rest \<leftarrow> decode_columns_v2 f (Suc i) cs;
                          Some (case rest of Inl e \<Rightarrow> Inl e | Inr xs \<Rightarrow> Inr (x # xs)) } }"

definition decode_row_v2 :: "(overflow_stub \<Rightarrow> row_error + bytes) \<Rightarrow> schema \<Rightarrow> row_layout \<Rightarrow> bytes \<Rightarrow>
    (row_error + val list) run" where
  "decode_row_v2 fetch sc lay row =
     (if \<not> row_is_v2 row then map_option Inr (decode_row sc row)
      else do {
        let body = drop ROW_PREFIX_SIZE row;
        let ovf_size = overflow_bitmap_size lay;
        nb \<leftarrow> slice_run body 2 (2 + bitmap_size lay);
        let ovf_start = 2 + bitmap_size lay;
        ob \<leftarrow> slice_run body ovf_start (ovf_start + ovf_size);
        let fixed_start = ovf_start + ovf_size;
        let offsets_start = fixed_start + fixed_region_size lay;
        let var_data_start = offsets_start + (n_var lay + 1) * 2;
        decode_columns_v2
          (decode_column_v2 fetch lay body nb ob fixed_start offsets_start var_data_start)
          0 (columns sc) })"

definition rehydrate_v2_to_v1 :: "(overflow_stub \<Rightarrow> row_error + bytes) \<Rightarrow> schema \<Rightarrow> row_layout \<Rightarrow> bytes \<Rightarrow>
    (row_error + bytes) run" where
  "rehydrate_v2_to_v1 fetch sc lay row =
     (if \<not> row_is_v2 row then Some (Inr row)
      else do {
        r \<leftarrow> decode_row_v2 fetch sc lay row;
        case r of
          Inl e \<Rightarrow> Some (Inl e)
        | Inr values \<Rightarrow> try_encode_row_into_with_layout sc lay values })"

subsection \<open>The spill planner\<close>

fun var_len :: "val \<Rightarrow> nat option" where
  "var_len (VStr s) = Some (length s)"
| "var_len (VBytes b) = Some (length b)"
| "var_len (VJson b) = Some (length b)"
| "var_len _ = None"

definition v1_encoded_len :: "row_layout \<Rightarrow> val list \<Rightarrow> nat" where
  "v1_encoded_len lay values =
     (let var_data = foldl (\<lambda>acc v. case var_len v of None \<Rightarrow> acc | Some n \<Rightarrow> saturating_add acc n) 0 values
      in ROW_PREFIX_SIZE + 2 + bitmap_size lay + fixed_region_size lay + (n_var lay + 1) * 2 + var_data)"

fun spill_candidates :: "row_layout \<Rightarrow> nat \<Rightarrow> val list \<Rightarrow> (nat \<times> nat) list run" where
  "spill_candidates lay i [] = Some []"
| "spill_candidates lay i (v # vs) =
     do { vo \<leftarrow> index_run (var_index lay) i;
          rest \<leftarrow> spill_candidates lay (Suc i) vs;
          Some (case (vo, var_len v) of
                  (Some _, Some n) \<Rightarrow> if n = 0 then rest else (i, n) # rest
                | _ \<Rightarrow> rest) }"

definition is_indexed_at :: "bool list \<Rightarrow> nat \<Rightarrow> bool" where
  "is_indexed_at is_indexed i = (i < length is_indexed \<and> is_indexed ! i)"

text \<open>
  The comparator sorts by indexed, then by small, then by descending length; the sort is stable.
\<close>

definition spill_key :: "bool list \<Rightarrow> nat \<times> nat \<Rightarrow> bool \<times> bool \<times> int" where
  "spill_key is_indexed = (\<lambda>(i, n). (is_indexed_at is_indexed i, \<not> n \<ge> OVERFLOW_MIN, - int n))"

fun choose_spills :: "nat \<Rightarrow> (nat \<times> nat) list \<Rightarrow> nat list" where
  "choose_spills est [] = []"
| "choose_spills est ((col_idx, n) # cands) =
     (if est \<le> MAX_ROW_DATA_SIZE then []
      else col_idx # choose_spills (usize_sub est (n - OVERFLOW_STUB_SIZE)) cands)"

definition plan_spill :: "row_layout \<Rightarrow> val list \<Rightarrow> nat \<Rightarrow> bool list \<Rightarrow> nat list run" where
  "plan_spill lay values v1_len is_indexed =
     (if v1_len \<le> MAX_ROW_DATA_SIZE then Some []
      else do {
        cands \<leftarrow> spill_candidates lay 0 values;
        Some (choose_spills (v1_len + overflow_bitmap_size lay) (sort_key (spill_key is_indexed) cands)) })"

end
