(* ===== verification/Row_Image.thy ===== *)
theory Row_Image
  imports Row
begin

text \<open>
  The row image: what the encoders write, region by region. The imperative encoders of
  \<^theory_text>\<open>Row\<close> are shown to produce it.
\<close>

unbundle bit_operations_syntax

subsection \<open>The layout of a schema\<close>

definition col_size :: "column_def \<Rightarrow> nat" where
  "col_size c = (if is_fixed_size (col_type c) then the (fixed_size (col_type c)) else 0)"

definition is_var :: "column_def \<Rightarrow> bool" where
  "is_var c \<longleftrightarrow> \<not> is_fixed_size (col_type c)"

definition fixed_len :: "column_def list \<Rightarrow> nat" where
  "fixed_len cs = sum_list (map col_size cs)"

definition var_count :: "column_def list \<Rightarrow> nat" where
  "var_count cs = length (filter is_var cs)"

lemma fixed_len_simps [simp]: "fixed_len [] = 0" "fixed_len (c # cs) = col_size c + fixed_len cs"
  by (simp_all add: fixed_len_def)

lemma var_count_simps [simp]:
  "var_count [] = 0" "var_count (c # cs) = (if is_var c then Suc (var_count cs) else var_count cs)"
  by (simp_all add: var_count_def)

lemma fixed_len_append [simp]: "fixed_len (as @ bs) = fixed_len as + fixed_len bs"
  by (simp add: fixed_len_def)

lemma var_count_append [simp]: "var_count (as @ bs) = var_count as + var_count bs"
  by (simp add: var_count_def)

lemma layout_scan_eq:
  "layout_scan cs fp vc =
     (map (\<lambda>i. if is_var (cs ! i) then None else Some (fp + fixed_len (take i cs))) [0..<length cs],
      map (\<lambda>i. if is_var (cs ! i) then Some (vc + var_count (take i cs)) else None) [0..<length cs],
      fp + fixed_len cs, vc + var_count cs)"
proof (induction cs arbitrary: fp vc)
  case (Cons c cs)
  have "[0..<Suc (length cs)] = 0 # map Suc [0..<length cs]"
    by (simp add: upt_conv_Cons map_Suc_upt del: upt_Suc)
  then show ?case
    by (simp add: Cons is_var_def col_size_def Let_def comp_def add.assoc del: upt_Suc cong: if_cong)
qed simp

lemma layout_simps_new:
  "fixed_offsets (row_layout_new sc) =
     map (\<lambda>i. if is_var (columns sc ! i) then None else Some (fixed_len (take i (columns sc))))
       [0..<length (columns sc)]"
  "var_index (row_layout_new sc) =
     map (\<lambda>i. if is_var (columns sc ! i) then Some (var_count (take i (columns sc))) else None)
       [0..<length (columns sc)]"
  "fixed_region_size (row_layout_new sc) = fixed_len (columns sc)"
  "n_var (row_layout_new sc) = var_count (columns sc)"
  "bitmap_size (row_layout_new sc) = div_ceil8 (length (columns sc))"
  "overflow_bitmap_size (row_layout_new sc) = div_ceil8 (var_count (columns sc))"
  by (simp_all add: row_layout_new_def layout_scan_eq overflow_bitmap_size_def)

lemma var_count_take_less: "i < length cs \<Longrightarrow> is_var (cs ! i) \<Longrightarrow> var_count (take i cs) < var_count cs"
proof -
  assume "i < length cs" "is_var (cs ! i)"
  then have "var_count cs = var_count (take i cs) + Suc (var_count (drop (Suc i) cs))"
    using arg_cong [OF id_take_nth_drop [of i cs], of var_count] by simp
  then show ?thesis by simp
qed

subsection \<open>Bitmaps\<close>

definition bitmap_rep :: "nat \<Rightarrow> (nat \<Rightarrow> bool) \<Rightarrow> bytes \<Rightarrow> bool" where
  "bitmap_rep n P bm \<longleftrightarrow> length bm = n \<and> (\<forall>i < 8 * n. bit (bm ! (i div 8)) (i mod 8) \<longleftrightarrow> P i)"

lemma drop_bit_and_1: "drop_bit k (b :: u8) AND 1 = 1 \<longleftrightarrow> bit b k"
  by (simp add: and_one_eq mod_2_eq_odd) (simp only: bit_iff_odd_drop_bit)

lemma div8_less: "i < 8 * n \<Longrightarrow> i div 8 < (n :: nat)"
  by (simp add: less_mult_imp_div_less mult.commute)

lemma get_bit_run_rep: "bitmap_rep n P bm \<Longrightarrow> i < 8 * n \<Longrightarrow> get_bit_run bm i = Some (P i)"
  using div8_less [of i n] by (simp add: bitmap_rep_def get_bit_run_def index_run_def drop_bit_and_1)

lemma bitmap_rep_zero: "bitmap_rep n (\<lambda>_. False) (replicate n 0)"
  by (simp add: bitmap_rep_def div8_less)

lemma set_bit_run_rep:
  assumes "bitmap_rep n P bm" "i < 8 * n"
  shows "\<exists>bm'. set_bit_run bm i = Some bm' \<and> bitmap_rep n (\<lambda>j. j = i \<or> P j) bm'"
proof -
  have i: "i div 8 < n" using assms(2) by (rule div8_less)
  have len: "length bm = n" using assms(1) by (simp add: bitmap_rep_def)
  let ?bm = "bm[i div 8 := bm ! (i div 8) OR push_bit (i mod 8) 1]"
  have "bit (?bm ! (j div 8)) (j mod 8) \<longleftrightarrow> j = i \<or> P j" if "j < 8 * n" for j
  proof (cases "j div 8 = i div 8")
    case True
    have "j mod 8 = i mod 8 \<longleftrightarrow> j = i" using True by (metis div_mult_mod_eq)
    moreover have "bit (push_bit (i mod 8) 1 :: u8) (j mod 8) \<longleftrightarrow> j mod 8 = i mod 8"
      by (auto simp: bit_simps)
    moreover have "bit (bm ! (i div 8)) (j mod 8) \<longleftrightarrow> P j"
      using assms(1) that True by (auto simp: bitmap_rep_def)
    ultimately show ?thesis
      using i len by (simp add: True bit_or_iff) blast
  next
    case False
    then show ?thesis using assms(1) that by (auto simp: bitmap_rep_def)
  qed
  then show ?thesis
    using i len by (simp add: set_bit_run_def index_run_def bitmap_rep_def)
qed

lemma bitmap_rep_unique:
  assumes "bitmap_rep n P a" "bitmap_rep n P b"
  shows "a = b"
proof (rule nth_equalityI)
  fix k assume k: "k < length a"
  show "a ! k = b ! k"
  proof (rule bit_word_eqI)
    fix m assume "m < LENGTH(8)"
    then have "m < 8" by simp
    then have "(8 * k + m) div 8 = k" "(8 * k + m) mod 8 = m" "8 * k + m < 8 * n"
      using k assms(1) by (auto simp: bitmap_rep_def)
    with assms have "bit (a ! k) m \<longleftrightarrow> P (8 * k + m)" "bit (b ! k) m \<longleftrightarrow> P (8 * k + m)"
      by (auto simp: bitmap_rep_def dest!: spec [of _ "8 * k + m"])
    then show "bit (a ! k) m \<longleftrightarrow> bit (b ! k) m" by simp
  qed
qed (use assms in \<open>simp add: bitmap_rep_def\<close>)

lemma bitmap_rep_cong: "bitmap_rep n P a \<Longrightarrow> (\<And>i. i < 8 * n \<Longrightarrow> P i = Q i) \<Longrightarrow> bitmap_rep n Q a"
  by (simp add: bitmap_rep_def)

subsection \<open>The row image\<close>

text \<open>
  \<open>value_fits\<close>: a value may be stored in a column when it is empty or has the column's type; a
  UUID has 16 bytes and a string is valid UTF-8, as their Rust types guarantee.
\<close>

definition value_fits :: "type_id \<Rightarrow> val \<Rightarrow> bool" where
  "value_fits t v \<longleftrightarrow> v = VEmpty \<or> type_id_of v = t \<and>
     (case v of VUuid u \<Rightarrow> length u = 16 | VStr s \<Rightarrow> utf8_valid s | _ \<Rightarrow> True)"

definition conforms :: "column_def list \<Rightarrow> val list \<Rightarrow> bool" where
  "conforms cs vs \<longleftrightarrow> list_all2 (\<lambda>c v. value_fits (col_type c) v) cs vs"

fun fixed_bytes :: "val \<Rightarrow> bytes" where
  "fixed_bytes (VInt x) = u64_to_le x"
| "fixed_bytes (VFloat x) = u64_to_le x"
| "fixed_bytes (VBool b) = [if b then 1 else 0]"
| "fixed_bytes (VDateTime x) = u64_to_le x"
| "fixed_bytes (VUuid u) = u"
| "fixed_bytes _ = []"

fun payload :: "val \<Rightarrow> bytes" where
  "payload (VStr s) = s"
| "payload (VBytes b) = b"
| "payload (VJson b) = b"
| "payload _ = []"

definition fixed_cell :: "column_def \<Rightarrow> val \<Rightarrow> bytes" where
  "fixed_cell c v =
     (if is_var c then [] else if v = VEmpty then replicate (col_size c) 0 else fixed_bytes v)"

definition fixed_cells :: "column_def list \<Rightarrow> val list \<Rightarrow> bytes" where
  "fixed_cells cs vs = concat (map2 fixed_cell cs vs)"

definition var_cell :: "overflow_stub option \<Rightarrow> val \<Rightarrow> bytes" where
  "var_cell sp v = (case sp of Some stub \<Rightarrow> stub_to_bytes stub | None \<Rightarrow> payload v)"

fun var_cells :: "column_def list \<Rightarrow> val list \<Rightarrow> overflow_stub option list \<Rightarrow> bytes list" where
  "var_cells (c # cs) (v # vs) sp =
     (if is_var c then var_cell (hd sp) v # var_cells cs vs (tl sp) else var_cells cs vs sp)"
| "var_cells _ _ sp = []"

definition cells_len :: "bytes list \<Rightarrow> nat" where
  "cells_len cells = sum_list (map length cells)"

fun offset_table :: "nat \<Rightarrow> bytes list \<Rightarrow> bytes" where
  "offset_table n [] = u16_to_le (word_of_nat n)"
| "offset_table n (c # cells) = u16_to_le (word_of_nat n) @ offset_table (n + length c) cells"

text \<open>The same table without its end sentinel, as the column pass leaves it.\<close>

fun offset_init :: "nat \<Rightarrow> bytes list \<Rightarrow> bytes" where
  "offset_init n [] = []"
| "offset_init n (c # cells) = u16_to_le (word_of_nat n) @ offset_init (n + length c) cells"

lemma cells_len_simps [simp]: "cells_len [] = 0" "cells_len (c # cs) = length c + cells_len cs"
  by (simp_all add: cells_len_def)

lemma length_concat_cells: "length (concat cells) = cells_len cells"
  by (simp add: cells_len_def length_concat)

lemma offset_table_init:
  "offset_table n cells = offset_init n cells @ u16_to_le (word_of_nat (n + cells_len cells))"
  by (induction n cells rule: offset_table.induct) (simp_all add: add.assoc)

lemma length_offset_table [simp]: "length (offset_table n cells) = 2 * Suc (length cells)"
  by (induction n cells rule: offset_table.induct) simp_all

lemma length_offset_init [simp]: "length (offset_init n cells) = 2 * length cells"
  by (induction n cells rule: offset_init.induct) simp_all

lemma length_var_cells [simp]: "length vs = length cs \<Longrightarrow> length (var_cells cs vs sp) = var_count cs"
  by (induction cs vs sp rule: var_cells.induct) auto

lemma value_fits_cases:
  assumes "value_fits t v" "v \<noteq> VEmpty"
  obtains (int) x where "t = TInt" "v = VInt x" | (float) x where "t = TFloat" "v = VFloat x"
    | (bool) b where "t = TBool" "v = VBool b" | (str) s where "t = TStr" "v = VStr s" "utf8_valid s"
    | (dt) x where "t = TDateTime" "v = VDateTime x" | (uuid) u where "t = TUuid" "v = VUuid u" "length u = 16"
    | (bytes) b where "t = TBytes" "v = VBytes b" | (json) b where "t = TJson" "v = VJson b"
  using assms by (cases v) (auto simp: value_fits_def)

lemma length_fixed_cell [simp]: "value_fits (col_type c) v \<Longrightarrow> length (fixed_cell c v) = col_size c"
  by (cases "v = VEmpty"; cases "is_var c")
    (auto simp: fixed_cell_def col_size_def is_var_def elim!: value_fits_cases)

lemma length_fixed_cells [simp]: "conforms cs vs \<Longrightarrow> length (fixed_cells cs vs) = fixed_len cs"
  unfolding conforms_def by (induction cs vs rule: list_all2_induct) (simp_all add: fixed_cells_def)

subsection \<open>The column pass\<close>

lemma put_zeros:
  "a = length xs \<Longrightarrow> length ys \<le> n \<Longrightarrow>
   put (xs @ replicate n 0 @ zs) a ys = xs @ ys @ replicate (n - length ys) 0 @ zs"
  by (simp add: put_def)

lemma copy_zeros:
  "a = length xs \<Longrightarrow> length ys \<le> n \<Longrightarrow> copy_from_slice (xs @ replicate n 0 @ zs) a ys =
     Some (xs @ ys @ replicate (n - length ys) 0 @ zs)"
  by (simp add: copy_from_slice_def put_zeros)

lemma put_fixed_cell:
  assumes "value_fits (col_type c) v" "\<not> is_var c" "a = length xs" "n = col_size c + m"
  shows "put_fixed (xs @ replicate n 0 @ zs) a v =
         Some (xs @ fixed_cell c v @ replicate m 0 @ zs)"
proof (cases "v = VEmpty")
  case True
  then show ?thesis using assms by (simp add: put_fixed_def fixed_cell_def replicate_add)
next
  case False
  with assms length_fixed_cell [OF assms(1)] show ?thesis
    by (auto simp: put_fixed_def fixed_cell_def is_var_def copy_zeros elim!: value_fits_cases)
qed

lemma put_var_cell:
  assumes "value_fits (col_type c) v" "is_var c" "a + unat cursor = length xs" "n = length (payload v) + m"
  shows "put_var (xs @ replicate n 0 @ zs) a cursor v =
         Some (xs @ payload v @ replicate m 0 @ zs, cursor + word_of_nat (length (payload v)))"
  using assms
  by (cases "v = VEmpty")
    (auto simp: put_var_def is_var_def copy_zeros Let_def elim!: value_fits_cases)

lemma length_stub_to_bytes [simp]: "length (stub_to_bytes s) = 24"
  by (simp add: stub_to_bytes_def Let_def layout_simps)

lemma unat_u16_add: "unat (w :: u16) + n < 65536 \<Longrightarrow> unat (w + word_of_nat n) = unat w + n"
proof -
  assume *: "unat w + n < 65536"
  have "w + word_of_nat n = word_of_nat (unat w + n)" by simp
  with * show ?thesis by (simp del: of_nat_add)
qed

lemma layout_at:
  assumes "i < length (columns sc)"
  shows "index_run (fixed_offsets (row_layout_new sc)) i =
      Some (if is_var (columns sc ! i) then None else Some (fixed_len (take i (columns sc))))"
    and "index_run (var_index (row_layout_new sc)) i =
      Some (if is_var (columns sc ! i) then Some (var_count (take i (columns sc))) else None)"
  using assms by (simp_all add: layout_simps_new index_run_def)

lemma fixed_cells_Cons [simp]: "fixed_cells (c # cs) (v # vs) = fixed_cell c v @ fixed_cells cs vs"
  by (simp add: fixed_cells_def)

text \<open>One column of the pass: a fixed column fills its cell, a variable one its offset and data.\<close>

lemma write_fixed_column:
  assumes "i < length (columns sc)" "\<not> is_var (columns sc ! i)"
    and "value_fits (col_type (columns sc ! i)) v"
    and "fixed_start + fixed_len (take i (columns sc)) = length pre" "n = col_size (columns sc ! i) + m"
  shows "write_columns_v2 (row_layout_new sc) spilled fixed_start offsets_start var_data_start i (v # vs)
           (pre @ replicate n 0 @ post, cursor, slot) =
         write_columns_v2 (row_layout_new sc) spilled fixed_start offsets_start var_data_start (Suc i) vs
           (pre @ fixed_cell (columns sc ! i) v @ replicate m 0 @ post, cursor, slot)"
  using put_fixed_cell [OF assms(3,2,4,5), of post] assms(2) by (simp add: layout_at assms(1))

lemma write_var_column:
  assumes i: "i < length (columns sc)" and var: "is_var (columns sc ! i)"
    and fit: "value_fits (col_type (columns sc ! i)) v"
    and vi: "vi = var_count (take i (columns sc))" "vi < length spilled"
    and pos: "offsets_start + slot * 2 = length pre"
      "var_data_start + unat cursor = length pre + 2 + k + length mid"
  defines "cell \<equiv> var_cell (spilled ! vi) v"
  shows "write_columns_v2 (row_layout_new sc) spilled fixed_start offsets_start var_data_start i (v # vs)
           (pre @ replicate (2 + k) 0 @ mid @ replicate (length cell + m) 0, cursor, slot) =
         write_columns_v2 (row_layout_new sc) spilled fixed_start offsets_start var_data_start (Suc i) vs
           (pre @ u16_to_le cursor @ replicate k 0 @ mid @ cell @ replicate m 0,
            cursor + word_of_nat (length cell), Suc slot)"
proof -
  let ?pre = "pre @ u16_to_le cursor @ replicate k 0 @ mid"
  have o1: "copy_from_slice (pre @ replicate (2 + k) 0 @ mid @ replicate (length cell + m) 0)
      (offsets_start + slot * 2) (u16_to_le cursor) = Some (?pre @ replicate (length cell + m) 0)"
    using pos(1) by (subst copy_zeros) simp_all
  have pre: "var_data_start + unat cursor = length ?pre" using pos(2) by simp
  have sp: "index_run spilled vi = Some (spilled ! vi)" using vi by (simp add: index_run_def)
  note at = layout_at [OF i]
  show ?thesis
  proof (cases "spilled ! vi")
    case None
    with put_var_cell [OF fit var pre, of "length cell + m" m "[]"] vi sp o1 show ?thesis
      by (simp add: at var cell_def var_cell_def)
  next
    case (Some stub)
    with copy_zeros [OF pre, of "stub_to_bytes stub" "length cell + m" "[]"] vi sp o1 show ?thesis
      by (simp add: at var cell_def var_cell_def layout_simps)
  qed
qed

text \<open>
  The column pass from column \<open>i\<close> on, with the regions filled so far: \<open>f\<close> in the fixed region,
  \<open>ofs\<close> in the offset table, \<open>var\<close> in the variable data.
\<close>

lemma write_columns_v2_image:
  fixes sc :: schema
  defines "cols \<equiv> columns sc"
  assumes "conforms (drop i cols) vs" "i \<le> length cols" "length spilled = var_count cols"
    and "length f = fixed_len (take i cols)" "length ofs = 2 * slot" "slot = var_count (take i cols)"
    and "length var = unat cursor"
    and "length var + cells_len (var_cells (drop i cols) vs (drop slot spilled)) \<le> 65535"
    and starts: "fixed_start = length h" "offsets_start = length h + fixed_len cols"
      "var_data_start = offsets_start + 2 * (var_count cols + 1)"
  shows "let cells = var_cells (drop i cols) vs (drop slot spilled) in
    write_columns_v2 (row_layout_new sc) spilled fixed_start offsets_start var_data_start i vs
      (h @ f @ replicate (fixed_len (drop i cols)) 0 @
       ofs @ replicate (2 * var_count (drop i cols) + 2) 0 @ var @ replicate (cells_len cells) 0,
       cursor, slot) =
    Some (h @ f @ fixed_cells (drop i cols) vs @
          ofs @ offset_init (length var) cells @ [0, 0] @ var @ concat cells,
          word_of_nat (length var + cells_len cells), slot + var_count (drop i cols))"
  using assms(2-9)
proof (induction vs arbitrary: i f ofs var cursor slot)
  case Nil
  then have "drop i cols = []" by (simp add: conforms_def list_all2_conv_all_nth)
  with Nil show ?case by (simp add: fixed_cells_def)
next
  case (Cons v vs)
  define c where "c = cols ! i"
  from Cons.prems(1,2) have i: "i < length cols"
    by (cases "i = length cols") (auto simp: conforms_def)
  then have dr: "drop i cols = c # drop (Suc i) cols" by (simp add: c_def Cons_nth_drop_Suc)
  have tk: "take (Suc i) cols = take i cols @ [c]" using i by (simp add: c_def take_Suc_conv_app_nth)
  have fit: "value_fits (col_type c) v" and rest: "conforms (drop (Suc i) cols) vs"
    using Cons.prems(1) by (simp_all add: dr conforms_def)
  have tot: "fixed_len cols = fixed_len (take i cols) + (col_size c + fixed_len (drop (Suc i) cols))"
    "var_count cols = var_count (take i cols) + var_count (drop i cols)"
    using arg_cong [OF append_take_drop_id [of i cols, symmetric], of fixed_len]
      arg_cong [OF append_take_drop_id [of i cols, symmetric], of var_count]
    by (simp_all add: dr del: append_take_drop_id)
  show ?case
  proof (cases "is_var c")
    case False
    let ?rest = "ofs @ replicate (2 * var_count (drop i cols) + 2) 0 @ var @
      replicate (cells_len (var_cells (drop (Suc i) cols) vs (drop slot spilled))) 0"
    have "fixed_start + fixed_len (take i cols) = length (h @ f)" using Cons.prems(4) by (simp add: starts)
    note step = write_fixed_column [of i sc v fixed_start "h @ f" _ "fixed_len (drop (Suc i) cols)"
        spilled offsets_start var_data_start vs ?rest cursor slot, folded cols_def, folded c_def,
        OF i False fit this refl]
    have "length (f @ fixed_cell c v) = fixed_len (take (Suc i) cols)"
      using fit Cons.prems(4) by (simp add: tk)
    with Cons.IH [of "Suc i" "f @ fixed_cell c v" ofs slot var cursor] Cons.prems rest False i step
    show ?thesis by (simp add: Let_def dr tk)
  next
    case True
    let ?cell = "var_cell (spilled ! slot) v"
    let ?cells = "var_cells (drop (Suc i) cols) vs (drop (Suc slot) spilled)"
    let ?pre = "h @ f @ replicate (fixed_len (drop (Suc i) cols)) 0 @ ofs"
    have cz: "col_size c = 0" using True by (simp add: col_size_def is_var_def)
    have slot: "slot < length spilled"
      using Cons.prems(3,6) tot(2) True by (simp add: dr)
    then have cells: "var_cells (drop i cols) (v # vs) (drop slot spilled) = ?cell # ?cells"
      using True by (simp add: dr hd_drop_conv_nth drop_Suc tl_drop)
    have pos: "offsets_start + slot * 2 = length ?pre" "var_data_start + unat cursor =
        length ?pre + 2 + (2 * var_count (drop (Suc i) cols) + 2) + length var"
      using Cons.prems True tot cz by (simp_all add: starts dr)
    note step = write_var_column [of i sc v slot spilled offsets_start slot ?pre var_data_start cursor
        _ var fixed_start vs "cells_len ?cells", folded cols_def, folded c_def,
        OF i True fit Cons.prems(6) slot pos]
    have cur: "unat (cursor + word_of_nat (length ?cell)) = unat cursor + length ?cell"
      using Cons.prems(7,8) cells by (intro unat_u16_add) simp
    show ?thesis
      unfolding Let_def cells
      using step Cons.IH [of "Suc i" f "ofs @ u16_to_le cursor" "Suc slot" "var @ ?cell"
          "cursor + word_of_nat (length ?cell)"] Cons.prems rest True i cells cur cz
      by (simp add: Let_def tk dr fixed_cell_def)
  qed
qed

lemma write_columns_v1:
  "i + length vs \<le> length (columns sc) \<Longrightarrow>
   write_columns (row_layout_new sc) fs os vds i vs st =
   write_columns_v2 (row_layout_new sc) (replicate (var_count (columns sc)) None) fs os vds i vs st"
proof (induction vs arbitrary: i st)
  case (Cons v vs)
  obtain out cursor slot where st: "st = (out, cursor, slot)" by (cases st)
  have i: "i < length (columns sc)" using Cons.prems by simp
  have IH: "write_columns (row_layout_new sc) fs os vds (Suc i) vs =
      write_columns_v2 (row_layout_new sc) (replicate (var_count (columns sc)) None) fs os vds (Suc i) vs"
    by (rule ext, rule Cons.IH) (use Cons.prems in simp)
  show ?case
  proof (cases "is_var (columns sc ! i)")
    case True
    then have "index_run (replicate (var_count (columns sc)) (None :: overflow_stub option))
        (var_count (take i (columns sc))) = Some None"
      using var_count_take_less [OF i True] by (simp add: index_run_def)
    with True IH show ?thesis
      by (simp add: st layout_at [OF i])
  next
    case False
    with IH show ?thesis by (simp add: st layout_at [OF i])
  qed
qed simp

subsection \<open>The sizing passes\<close>

definition null_at :: "val list \<Rightarrow> nat \<Rightarrow> bool" where
  "null_at vs j \<longleftrightarrow> j < length vs \<and> vs ! j = VEmpty"

lemma null_at_Cons: "null_at (v # vs) j \<longleftrightarrow> (case j of 0 \<Rightarrow> v = VEmpty | Suc k \<Rightarrow> null_at vs k)"
  by (simp add: null_at_def split: nat.splits)

lemma prepass_image:
  assumes "bitmap_rep n P bm" "i + length vs \<le> 8 * n"
  shows "\<exists>bm'. prepass i vs (bm, s) = Some (bm', s + (\<Sum>v \<leftarrow> vs. length (payload v))) \<and>
           bitmap_rep n (\<lambda>j. P j \<or> i \<le> j \<and> null_at vs (j - i)) bm'"
  using assms
proof (induction vs arbitrary: i bm s P)
  case Nil
  then show ?case by (simp add: null_at_def)
next
  case (Cons v vs)
  show ?case
  proof (cases "v = VEmpty")
    case True
    from Cons.prems obtain bm' where bm': "set_bit_run bm i = Some bm'"
      "bitmap_rep n (\<lambda>j. j = i \<or> P j) bm'" using set_bit_run_rep [of n P bm i] by auto
    from Cons.IH [OF bm'(2), of "Suc i" s] Cons.prems obtain bm'' where
      "prepass (Suc i) vs (bm', s) = Some (bm'', s + (\<Sum>v \<leftarrow> vs. length (payload v)))"
      "bitmap_rep n (\<lambda>j. (j = i \<or> P j) \<or> Suc i \<le> j \<and> null_at vs (j - Suc i)) bm''" by auto
    moreover have "((j = i \<or> P j) \<or> Suc i \<le> j \<and> null_at vs (j - Suc i)) =
        (P j \<or> i \<le> j \<and> null_at (v # vs) (j - i))" for j
      using True by (cases "j \<le> i") (auto simp: null_at_Cons Suc_diff_Suc [symmetric] not_le split: nat.splits)
    ultimately show ?thesis using True bm'(1) by auto
  next
    case False
    from Cons.IH [OF Cons.prems(1), of "Suc i" "s + length (payload v)"] Cons.prems obtain bm' where
      "prepass (Suc i) vs (bm, s + length (payload v)) =
        Some (bm', s + length (payload v) + (\<Sum>v \<leftarrow> vs. length (payload v)))"
      "bitmap_rep n (\<lambda>j. P j \<or> Suc i \<le> j \<and> null_at vs (j - Suc i)) bm'" by auto
    moreover have "(P j \<or> Suc i \<le> j \<and> null_at vs (j - Suc i)) =
        (P j \<or> i \<le> j \<and> null_at (v # vs) (j - i))" for j
      using False by (cases "j \<le> i") (auto simp: null_at_Cons Suc_diff_Suc [symmetric] not_le split: nat.splits)
    ultimately show ?thesis using False by (cases v) (auto simp: add.assoc)
  qed
qed

lemma payload_sum:
  assumes "conforms cs vs" "length sp = var_count cs" "\<forall>x \<in> set sp. x = None"
  shows "(\<Sum>v \<leftarrow> vs. length (payload v)) = cells_len (var_cells cs vs sp)"
  using assms unfolding conforms_def
proof (induction cs vs arbitrary: sp rule: list_all2_induct)
  case (Cons c cs v vs)
  show ?case
  proof (cases "is_var c")
    case True
    then obtain sp' where "sp = None # sp'"
      using Cons.prems by (cases sp) auto
    with True Cons.IH [of sp'] Cons.prems show ?thesis by (simp add: var_cell_def)
  next
    case False
    have "payload v = []"
      using Cons.hyps(1) False
      by (cases "v = VEmpty") (auto simp: is_var_def elim!: value_fits_cases)
    with False Cons.IH [of sp] Cons.prems show ?thesis by simp
  qed
qed simp

subsection \<open>The encoders write the row image\<close>

definition row_body_image :: "bytes \<Rightarrow> bytes \<Rightarrow> column_def list \<Rightarrow> val list \<Rightarrow> bytes list \<Rightarrow> bytes" where
  "row_body_image nb ob cs vs cells =
     (let total = 2 + length nb + length ob + fixed_len cs + 2 * (length cells + 1) + cells_len cells
      in u16_to_le (word_of_nat total) @ nb @ ob @ fixed_cells cs vs @ offset_table 0 cells @ concat cells)"

definition row_image :: "u16 \<Rightarrow> bytes \<Rightarrow> bytes \<Rightarrow> column_def list \<Rightarrow> val list \<Rightarrow> bytes list \<Rightarrow> bytes" where
  "row_image version nb ob cs vs cells =
     ROW_MAGIC @ u16_to_le version @ row_body_image nb ob cs vs cells"

lemma prepend_prefix_eq: "prepend_prefix version out = Some (ROW_MAGIC @ u16_to_le version @ out)"
proof -
  define x where "x = take 6 (out @ replicate 6 (0 :: u8))"
  have x: "length x = 6" by (simp add: x_def)
  have "copy_within (out @ replicate 6 0) 0 (length out) 6 = Some (x @ out)"
    by (simp add: copy_within_def put_def x_def sub_append_left)
  with x show ?thesis
    by (simp add: prepend_prefix_def layout_simps copy_from_slice_def put_def ROW_MAGIC_def)
qed

text \<open>The part both encoders share: filling the regions behind the bitmaps.\<close>

lemma fill_regions:
  assumes cf: "conforms (columns sc) vs" and sp: "length spilled = var_count (columns sc)"
    and len: "cells_len (var_cells (columns sc) vs spilled) \<le> 65535"
    and start: "fixed_start = length h" "offsets_start = fixed_start + fixed_len (columns sc)"
      "var_data_start = offsets_start + (var_count (columns sc) + 1) * 2"
  defines "cells \<equiv> var_cells (columns sc) vs spilled"
  shows "\<exists>o4 cursor off_slot.
    write_columns_v2 (row_layout_new sc) spilled fixed_start offsets_start var_data_start 0 vs
      (h @ replicate (fixed_len (columns sc) + (var_count (columns sc) + 1) * 2 + cells_len cells) 0, 0, 0) =
      Some (o4, cursor, off_slot) \<and>
    copy_from_slice o4 (offsets_start + off_slot * 2) (u16_to_le cursor) =
      Some (h @ fixed_cells (columns sc) vs @ offset_table 0 cells @ concat cells)"
proof -
  have n: "length cells = var_count (columns sc)"
    using cf by (simp add: cells_def conforms_def list_all2_lengthD)
  have zeros: "replicate (fixed_len (columns sc) + (var_count (columns sc) + 1) * 2 + cells_len cells) (0 :: u8) =
      replicate (fixed_len (columns sc)) 0 @ replicate (2 * var_count (columns sc) + 2) 0 @ replicate (cells_len cells) 0"
    by (simp only: replicate_add [symmetric]) (rule arg_cong [of _ _ "\<lambda>n. replicate n 0"], simp)
  have w: "write_columns_v2 (row_layout_new sc) spilled fixed_start offsets_start var_data_start 0 vs
      (h @ replicate (fixed_len (columns sc)) 0 @ replicate (2 * var_count (columns sc) + 2) 0 @
         replicate (cells_len cells) 0, 0, 0) =
    Some (h @ fixed_cells (columns sc) vs @ offset_init 0 cells @ [0, 0] @ concat cells,
      word_of_nat (cells_len cells), var_count (columns sc))"
    using write_columns_v2_image [of 0 sc vs spilled "[]" "[]" 0 "[]" 0 fixed_start h] cf sp len
    by (simp add: start cells_def Let_def mult.commute)
  have "copy_from_slice ((h @ fixed_cells (columns sc) vs @ offset_init 0 cells) @ replicate 2 0 @ concat cells)
      (offsets_start + var_count (columns sc) * 2) (u16_to_le (word_of_nat (cells_len cells))) =
    Some (h @ fixed_cells (columns sc) vs @ offset_table 0 cells @ concat cells)"
    using cf n by (subst copy_zeros) (simp_all add: start offset_table_init)
  moreover have "replicate 2 (0 :: u8) = [0, 0]" by (simp add: numeral_2_eq_2)
  ultimately show ?thesis
    unfolding zeros w by simp
qed

definition v1_cells :: "column_def list \<Rightarrow> val list \<Rightarrow> bytes list" where
  "v1_cells cs vs = var_cells cs vs (replicate (var_count cs) None)"

definition v1_total :: "column_def list \<Rightarrow> val list \<Rightarrow> nat" where
  "v1_total cs vs = 2 + div_ceil8 (length cs) + fixed_len cs + 2 * (var_count cs + 1)
     + cells_len (v1_cells cs vs)"

lemma fill_row_image:
  assumes cf: "conforms (columns sc) vs" and nb: "length nb = div_ceil8 (length (columns sc))"
    and len: "cells_len (v1_cells (columns sc) vs) \<le> 65535"
  shows "fill_row (row_layout_new sc) (length (columns sc)) vs nb (cells_len (v1_cells (columns sc) vs)) =
    Some (row_image 1 nb [] (columns sc) vs (v1_cells (columns sc) vs))"
proof -
  let ?cells = "v1_cells (columns sc) vs" and ?lay = "row_layout_new sc"
  let ?rest = "fixed_len (columns sc) + (var_count (columns sc) + 1) * 2 + cells_len ?cells"
  let ?fs = "2 + length nb"
  let ?os = "?fs + fixed_len (columns sc)"
  let ?total = "2 + (length nb + fixed_len (columns sc) + (var_count (columns sc) + 1) * 2 + cells_len ?cells)"
  let ?h = "u16_to_le (word_of_nat ?total) @ nb"
  have lv: "length vs = length (columns sc)" using cf by (simp add: conforms_def list_all2_lengthD)
  have n: "length ?cells = var_count (columns sc)" using lv by (simp add: v1_cells_def)
  have o1: "copy_from_slice (replicate ?total 0) 0 (u16_to_le (word_of_nat ?total)) =
      Some (u16_to_le (word_of_nat ?total) @ replicate (?total - 2) 0)"
    using copy_zeros [of 0 "[]" "u16_to_le (word_of_nat ?total)" ?total "[]"] by simp
  have o2: "copy_from_slice (u16_to_le (word_of_nat ?total) @ replicate (?total - 2) 0) 2 nb =
      Some (?h @ replicate ?rest 0)"
    using copy_zeros [of 2 "u16_to_le (word_of_nat ?total)" nb "?total - 2" "[]"] by simp
  have w: "write_columns ?lay ?fs ?os (?os + (var_count (columns sc) + 1) * 2) 0 vs =
      write_columns_v2 ?lay (replicate (var_count (columns sc)) None) ?fs ?os (?os + (var_count (columns sc) + 1) * 2) 0 vs"
    by (rule ext, rule write_columns_v1) (simp add: lv)
  obtain o3 cursor slot where
    f: "write_columns ?lay ?fs ?os (?os + (var_count (columns sc) + 1) * 2) 0 vs (?h @ replicate ?rest 0, 0, 0) =
        Some (o3, cursor, slot)"
      "copy_from_slice o3 (?os + slot * 2) (u16_to_le cursor) =
        Some (?h @ fixed_cells (columns sc) vs @ offset_table 0 ?cells @ concat ?cells)"
    using fill_regions [OF cf, of "replicate (var_count (columns sc)) None" ?fs ?h ?os] len w
    by (auto simp: v1_cells_def)
  have image: "row_body_image nb [] (columns sc) vs ?cells =
      ?h @ fixed_cells (columns sc) vs @ offset_table 0 ?cells @ concat ?cells"
    by (simp add: row_body_image_def n Let_def algebra_simps)
  show ?thesis
    unfolding fill_row_def Let_def layout_simps_new nb [symmetric] o1 Option.bind_lunit o2
    using f by (simp add: lv prepend_row_prefix_def prepend_prefix_eq row_image_def image ROW_FORMAT_VERSION_def)
qed

lemma div_ceil8_cover: "n \<le> 8 * div_ceil8 n"
  by (simp add: div_ceil8_def)

lemma prepass_v1:
  assumes cf: "conforms (columns sc) vs"
  shows "\<exists>nb. prepass 0 vs (replicate (div_ceil8 (length (columns sc))) 0, 0) =
      Some (nb, cells_len (v1_cells (columns sc) vs)) \<and>
    bitmap_rep (div_ceil8 (length (columns sc))) (null_at vs) nb"
proof -
  have "length vs = length (columns sc)" using cf by (simp add: conforms_def list_all2_lengthD)
  then show ?thesis
    using prepass_image [OF bitmap_rep_zero, of 0 vs "div_ceil8 (length (columns sc))" 0]
      payload_sum [OF cf, of "replicate (var_count (columns sc)) None"] div_ceil8_cover [of "length (columns sc)"]
    by (simp add: v1_cells_def)
qed

theorem encode_row_image:
  assumes "conforms (columns sc) vs" "cells_len (v1_cells (columns sc) vs) \<le> 65535"
  shows "\<exists>nb. bitmap_rep (div_ceil8 (length (columns sc))) (null_at vs) nb \<and>
    encode_row_into_with_layout sc (row_layout_new sc) vs =
      Some (row_image 1 nb [] (columns sc) vs (v1_cells (columns sc) vs))"
proof -
  from prepass_v1 [OF assms(1)] obtain nb where
    nb: "prepass 0 vs (replicate (div_ceil8 (length (columns sc))) 0, 0) =
        Some (nb, cells_len (v1_cells (columns sc) vs))"
      "bitmap_rep (div_ceil8 (length (columns sc))) (null_at vs) nb" by blast
  then have "length nb = div_ceil8 (length (columns sc))" by (simp add: bitmap_rep_def)
  from fill_row_image [OF assms(1) this assms(2)] nb show ?thesis
    by (auto simp: encode_row_into_with_layout_def layout_simps_new)
qed

text \<open>The fallible encoder agrees with the infallible one below the limits and errs above them.\<close>

lemma prepass_checked_ok:
  "\<forall>v \<in> set vs. length (payload v) \<le> 65535 \<Longrightarrow>
   prepass_checked sc i vs (bm, s) = map_option Inr (prepass i vs (bm, s))"
proof (induction vs arbitrary: i bm s)
  case (Cons v vs)
  then show ?case
    by (cases v; cases "set_bit_run bm i") (simp_all add: layout_simps)
qed simp

lemma prepass_checked_err:
  assumes "bitmap_rep n P bm" "i + length vs \<le> 8 * n" "i + length vs \<le> length (columns sc)"
    and "\<exists>v \<in> set vs. length (payload v) > 65535"
  shows "\<exists>e. prepass_checked sc i vs (bm, s) = Some (Inl e)"
  using assms
proof (induction vs arbitrary: i bm s P)
  case (Cons v vs)
  show ?case
  proof (cases "length (payload v) > 65535")
    case True
    then show ?thesis using Cons.prems(3) by (cases v) (simp_all add: layout_simps index_run_def)
  next
    case False
    with Cons.prems(4) have ex: "\<exists>v \<in> set vs. length (payload v) > 65535" by auto
    show ?thesis
    proof (cases "v = VEmpty")
      case True
      from Cons.prems obtain bm' where bm': "set_bit_run bm i = Some bm'"
        "bitmap_rep n (\<lambda>j. j = i \<or> P j) bm'" using set_bit_run_rep [of n P bm i] by auto
      from Cons.IH [OF bm'(2), of "Suc i" s] Cons.prems ex True bm'(1) show ?thesis by simp
    next
      case False
      from Cons.IH [OF Cons.prems(1), of "Suc i"] Cons.prems ex False \<open>\<not> length (payload v) > 65535\<close>
      show ?thesis by (cases v) (simp_all add: layout_simps)
    qed
  qed
qed simp

lemma cells_len_payload:
  assumes "conforms cs vs" "v \<in> set vs"
  shows "length (payload v) \<le> cells_len (v1_cells cs vs)"
  using payload_sum [OF assms(1), of "replicate (var_count cs) None"] assms(2)
    member_le_sum_list [of "length (payload v)" "map (\<lambda>v. length (payload v)) vs"]
  by (simp add: v1_cells_def)

theorem try_encode_row_cases:
  assumes "conforms (columns sc) vs"
  shows "if v1_total (columns sc) vs \<le> 65535
     then try_encode_row_into_with_layout sc (row_layout_new sc) vs =
            map_option Inr (encode_row_into_with_layout sc (row_layout_new sc) vs)
     else \<exists>e. try_encode_row_into_with_layout sc (row_layout_new sc) vs = Some (Inl e)"
proof -
  have lv: "length vs = length (columns sc)" using assms by (simp add: conforms_def list_all2_lengthD)
  obtain nb where nb: "prepass 0 vs (replicate (div_ceil8 (length (columns sc))) 0, 0) =
        Some (nb, cells_len (v1_cells (columns sc) vs))"
    using prepass_v1 [OF assms] by blast
  let ?bm = "replicate (div_ceil8 (length (columns sc))) (0 :: u8)"
  have total: "v1_total (columns sc) vs = 2 + (div_ceil8 (length (columns sc)) + fixed_len (columns sc) +
      (var_count (columns sc) + 1) * 2 + cells_len (v1_cells (columns sc) vs))"
    by (simp add: v1_total_def)
  show ?thesis
  proof (cases "\<forall>v \<in> set vs. length (payload v) \<le> 65535")
    case True
    then have "prepass_checked sc 0 vs (?bm, 0) = Some (Inr (nb, cells_len (v1_cells (columns sc) vs)))"
      using nb by (simp add: prepass_checked_ok)
    then show ?thesis
      using nb by (auto simp: try_encode_row_into_with_layout_def encode_row_into_with_layout_def
          layout_simps_new layout_simps total Let_def)
  next
    case False
    then have "\<exists>v \<in> set vs. length (payload v) > 65535" by (meson not_le)
    moreover from this have "v1_total (columns sc) vs > 65535"
      using cells_len_payload [OF assms] unfolding total by fastforce
    ultimately show ?thesis
      using prepass_checked_err [OF bitmap_rep_zero, of 0 vs "div_ceil8 (length (columns sc))" sc 0] lv
        div_ceil8_cover [of "length (columns sc)"]
      by (auto simp: try_encode_row_into_with_layout_def layout_simps_new)
  qed
qed

subsection \<open>Format v2\<close>

text \<open>Only values that are present are stored out of line.\<close>

definition spills_ok :: "column_def list \<Rightarrow> val list \<Rightarrow> overflow_stub option list \<Rightarrow> bool" where
  "spills_ok cs vs sp \<longleftrightarrow> length sp = var_count cs \<and>
     (\<forall>i < length cs. is_var (cs ! i) \<and> sp ! var_count (take i cs) \<noteq> None \<longrightarrow> vs ! i \<noteq> VEmpty)"

definition spilled_at :: "overflow_stub option list \<Rightarrow> nat \<Rightarrow> bool" where
  "spilled_at sp j \<longleftrightarrow> j < length sp \<and> sp ! j \<noteq> None"

text \<open>One column of the v2 sizing pass.\<close>

lemma prepass_v2_step:
  assumes i: "i < length (columns sc)" and fit: "value_fits (col_type (columns sc ! i)) v"
    and slot: "slot = var_count (take i (columns sc))" and sp: "length sp = var_count (columns sc)"
    and ok: "is_var (columns sc ! i) \<Longrightarrow> sp ! slot \<noteq> None \<Longrightarrow> v \<noteq> VEmpty"
    and nb: "bitmap_rep n P nb" "i < 8 * n" and ob: "bitmap_rep m Q ob" "length sp \<le> 8 * m"
  shows "\<exists>nb' ob'. prepass_v2 (row_layout_new sc) sp i (v # vs) (nb, ob, s) =
       prepass_v2 (row_layout_new sc) sp (Suc i) vs
         (nb', ob', s + (if is_var (columns sc ! i) then length (var_cell (sp ! slot) v) else 0)) \<and>
     bitmap_rep n (\<lambda>j. P j \<or> j = i \<and> v = VEmpty) nb' \<and>
     bitmap_rep m (\<lambda>j. Q j \<or> is_var (columns sc ! i) \<and> j = slot \<and> spilled_at sp j) ob'"
proof -
  obtain nb1 where nb1: "set_bit_run nb i = Some nb1" "bitmap_rep n (\<lambda>j. j = i \<or> P j) nb1"
    using set_bit_run_rep [OF nb] by blast
  have nbs: "bitmap_rep n (\<lambda>j. P j \<or> j = i \<and> v = VEmpty) (if v = VEmpty then nb1 else nb)"
    using nb(1) nb1(2) by (auto elim!: bitmap_rep_cong)
  show ?thesis
  proof (cases "is_var (columns sc ! i)")
    case False
    with nbs ob(1) nb1(1) show ?thesis
      by (intro exI [of _ "if v = VEmpty then nb1 else nb"] exI [of _ ob]) (simp add: layout_at [OF i])
  next
    case True
    have slot_lt: "slot < length sp" using var_count_take_less [OF i True] by (simp add: slot sp)
    then have run: "index_run sp slot = Some (sp ! slot)" by (simp add: index_run_def)
    obtain ob1 where ob1: "set_bit_run ob slot = Some ob1" "bitmap_rep m (\<lambda>j. j = slot \<or> Q j) ob1"
      using set_bit_run_rep [OF ob(1), of slot] ob(2) slot_lt by auto
    note simps = layout_at [OF i] slot [symmetric] var_cell_def layout_simps run True
    show ?thesis
    proof (cases "sp ! slot")
      case (Some stub)
      then have v: "v \<noteq> VEmpty" and "spilled_at sp slot" using ok True slot_lt by (auto simp: spilled_at_def)
      then have "bitmap_rep m (\<lambda>j. Q j \<or> j = slot \<and> spilled_at sp j) ob1"
        using ob1(2) by (auto elim!: bitmap_rep_cong)
      with v Some nbs ob1(1) show ?thesis
        by (intro exI [of _ nb] exI [of _ ob1]) (simp add: simps)
    next
      case None
      then have "bitmap_rep m (\<lambda>j. Q j \<or> j = slot \<and> spilled_at sp j) ob"
        using ob(1) by (auto simp: spilled_at_def elim!: bitmap_rep_cong)
      moreover have "payload v = [] \<or> v \<noteq> VEmpty \<and> (\<exists>b. v = VStr b \<or> v = VBytes b \<or> v = VJson b)"
        using fit True by (cases "v = VEmpty") (auto simp: is_var_def elim!: value_fits_cases)
      ultimately show ?thesis
        using None nbs nb1(1)
        by (intro exI [of _ "if v = VEmpty then nb1 else nb"] exI [of _ ob])
          (cases v; simp add: simps)
    qed
  qed
qed

lemma null_at_shift:
  "j = i \<and> v = VEmpty \<or> Suc i \<le> j \<and> null_at vs (j - Suc i) \<longleftrightarrow> i \<le> j \<and> null_at (v # vs) (j - i)"
proof (cases "i < j")
  case True
  then obtain k where "j = Suc (i + k)" using less_iff_Suc_add by auto
  then show ?thesis by (simp add: null_at_Cons)
qed (auto simp: null_at_Cons)

lemma prepass_v2_image:
  assumes "conforms (drop i (columns sc)) vs" "i \<le> length (columns sc)"
    and "slot = var_count (take i (columns sc))" and "length sp = var_count (columns sc)"
    and "\<forall>k < length vs. is_var (columns sc ! (i + k)) \<and> sp ! var_count (take (i + k) (columns sc)) \<noteq> None
           \<longrightarrow> vs ! k \<noteq> VEmpty"
    and "bitmap_rep n P nb" "length (columns sc) \<le> 8 * n" and "bitmap_rep m Q ob" "length sp \<le> 8 * m"
  shows "\<exists>nb' ob'. prepass_v2 (row_layout_new sc) sp i vs (nb, ob, s) =
       Some (nb', ob', s + cells_len (var_cells (drop i (columns sc)) vs (drop slot sp))) \<and>
     bitmap_rep n (\<lambda>j. P j \<or> i \<le> j \<and> null_at vs (j - i)) nb' \<and>
     bitmap_rep m (\<lambda>j. Q j \<or> slot \<le> j \<and> spilled_at sp j) ob'"
  using assms
proof (induction vs arbitrary: i slot P Q nb ob s)
  case Nil
  then have "drop i (columns sc) = []" "slot = length sp" 
    by (auto simp: conforms_def)
  moreover have "bitmap_rep n (\<lambda>j. P j \<or> i \<le> j \<and> null_at [] (j - i)) nb"
    by (rule bitmap_rep_cong [OF Nil.prems(6)]) (simp add: null_at_def)
  moreover have "bitmap_rep m (\<lambda>j. Q j \<or> slot \<le> j \<and> spilled_at sp j) ob"
    by (rule bitmap_rep_cong [OF Nil.prems(8)]) (use \<open>slot = length sp\<close> in \<open>auto simp: spilled_at_def\<close>)
  ultimately show ?case by simp
next
  case (Cons v vs)
  let ?cols = "columns sc" and ?c = "columns sc ! i"
  from Cons.prems(1,2) have i: "i < length ?cols"
    by (cases "i = length ?cols") (auto simp: conforms_def)
  then have dr: "drop i ?cols = ?c # drop (Suc i) ?cols" by (simp add: Cons_nth_drop_Suc)
  have fit: "value_fits (col_type ?c) v" and rest: "conforms (drop (Suc i) ?cols) vs"
    using Cons.prems(1) by (simp_all add: dr conforms_def)
  define slot' where "slot' = (if is_var ?c then Suc slot else slot)"
  have slot': "slot' = var_count (take (Suc i) ?cols)"
    using i Cons.prems(3) by (simp add: slot'_def take_Suc_conv_app_nth)
  have ok: "is_var ?c \<Longrightarrow> sp ! slot \<noteq> None \<Longrightarrow> v \<noteq> VEmpty"
    using Cons.prems(5) [rule_format, of 0] Cons.prems(3) by simp
  have oks: "\<forall>k < length vs. is_var (?cols ! (Suc i + k)) \<and> sp ! var_count (take (Suc i + k) ?cols) \<noteq> None
           \<longrightarrow> vs ! k \<noteq> VEmpty"
  proof (intro allI impI)
    fix k assume "k < length vs"
      "is_var (?cols ! (Suc i + k)) \<and> sp ! var_count (take (Suc i + k) ?cols) \<noteq> None"
    with Cons.prems(5) [rule_format, of "Suc k"] show "vs ! k \<noteq> VEmpty" by simp
  qed
  obtain nb1 ob1 where
    step: "prepass_v2 (row_layout_new sc) sp i (v # vs) (nb, ob, s) =
       prepass_v2 (row_layout_new sc) sp (Suc i) vs
         (nb1, ob1, s + (if is_var ?c then length (var_cell (sp ! slot) v) else 0))"
      "bitmap_rep n (\<lambda>j. P j \<or> j = i \<and> v = VEmpty) nb1"
      "bitmap_rep m (\<lambda>j. Q j \<or> is_var ?c \<and> j = slot \<and> spilled_at sp j) ob1"
    using prepass_v2_step [OF i fit Cons.prems(3,4) ok Cons.prems(6) less_le_trans [OF i Cons.prems(7)]
        Cons.prems(8,9), of vs s] by blast
  obtain nb2 ob2 where
    IH: "prepass_v2 (row_layout_new sc) sp (Suc i) vs
         (nb1, ob1, s + (if is_var ?c then length (var_cell (sp ! slot) v) else 0)) =
       Some (nb2, ob2, s + (if is_var ?c then length (var_cell (sp ! slot) v) else 0) +
         cells_len (var_cells (drop (Suc i) ?cols) vs (drop slot' sp)))"
      "bitmap_rep n (\<lambda>j. (P j \<or> j = i \<and> v = VEmpty) \<or> Suc i \<le> j \<and> null_at vs (j - Suc i)) nb2"
      "bitmap_rep m (\<lambda>j. (Q j \<or> is_var ?c \<and> j = slot \<and> spilled_at sp j) \<or> slot' \<le> j \<and> spilled_at sp j) ob2"
    using Cons.IH [OF rest Suc_leI [OF i] slot' Cons.prems(4) oks step(2) Cons.prems(7) step(3) Cons.prems(9)]
    by blast
  have "slot < length sp" if "is_var ?c"
    using var_count_take_less [OF i that] Cons.prems(3,4) by simp
  then have cells: "s + (if is_var ?c then length (var_cell (sp ! slot) v) else 0) +
      cells_len (var_cells (drop (Suc i) ?cols) vs (drop slot' sp)) =
    s + cells_len (var_cells (drop i ?cols) (v # vs) (drop slot sp))"
    by (simp add: dr slot'_def hd_drop_conv_nth drop_Suc tl_drop)
  have "bitmap_rep n (\<lambda>j. P j \<or> i \<le> j \<and> null_at (v # vs) (j - i)) nb2"
    by (rule bitmap_rep_cong [OF IH(2)]) (use null_at_shift in blast)
  moreover have "bitmap_rep m (\<lambda>j. Q j \<or> slot \<le> j \<and> spilled_at sp j) ob2"
    by (rule bitmap_rep_cong [OF IH(3)]) (auto simp: slot'_def)
  ultimately show ?case
    unfolding step(1) IH(1) cells by blast
qed

text \<open>The v2 encoder writes the row image with both bitmaps and a stub in each spilled slot.\<close>

theorem encode_row_v2_image:
  assumes cf: "conforms (columns sc) vs" and ok: "spills_ok (columns sc) vs sp"
    and len: "cells_len (var_cells (columns sc) vs sp) \<le> 65535"
  shows "\<exists>nb ob. bitmap_rep (div_ceil8 (length (columns sc))) (null_at vs) nb \<and>
    bitmap_rep (div_ceil8 (var_count (columns sc))) (spilled_at sp) ob \<and>
    encode_row_v2_into sc (row_layout_new sc) vs sp =
      Some (row_image 2 nb ob (columns sc) vs (var_cells (columns sc) vs sp))"
proof -
  let ?cols = "columns sc" and ?cells = "var_cells (columns sc) vs sp" and ?lay = "row_layout_new sc"
  have lv: "length vs = length ?cols" using cf by (simp add: conforms_def list_all2_lengthD)
  have n: "length ?cells = var_count ?cols" using lv by simp
  have spl: "length sp = var_count ?cols" using ok by (simp add: spills_ok_def)
  have oks: "\<forall>k < length vs. is_var (?cols ! (0 + k)) \<and> sp ! var_count (take (0 + k) ?cols) \<noteq> None
      \<longrightarrow> vs ! k \<noteq> VEmpty"
    using ok lv by (simp add: spills_ok_def)
  have cf0: "conforms (drop 0 ?cols) vs" using cf by simp
  have "0 = var_count (take 0 ?cols)" "length sp \<le> 8 * div_ceil8 (var_count ?cols)"
    using div_ceil8_cover [of "var_count ?cols"] by (simp_all add: spl)
  from prepass_v2_image [OF cf0 le0 this(1) spl oks bitmap_rep_zero div_ceil8_cover bitmap_rep_zero this(2), of 0]
  obtain nb ob where pre: "prepass_v2 ?lay sp 0 vs (replicate (div_ceil8 (length ?cols)) 0,
        replicate (div_ceil8 (var_count ?cols)) 0, 0) = Some (nb, ob, cells_len ?cells)"
    and reps: "bitmap_rep (div_ceil8 (length ?cols)) (null_at vs) nb"
      "bitmap_rep (div_ceil8 (var_count ?cols)) (spilled_at sp) ob" by auto
  have lens: "length nb = div_ceil8 (length ?cols)" "length ob = div_ceil8 (var_count ?cols)"
    using reps by (simp_all add: bitmap_rep_def)
  let ?rest = "fixed_len ?cols + (var_count ?cols + 1) * 2 + cells_len ?cells"
  let ?total = "2 + (length nb + length ob + fixed_len ?cols + (var_count ?cols + 1) * 2 + cells_len ?cells)"
  let ?u = "u16_to_le (word_of_nat ?total)"
  let ?fs = "2 + length nb + length ob"
  let ?os = "?fs + fixed_len ?cols"
  let ?h = "?u @ nb @ ob"
  have o1: "copy_from_slice (replicate ?total 0) 0 ?u = Some (?u @ replicate (?total - 2) 0)"
    using copy_zeros [of 0 "[]" ?u ?total "[]"] by simp
  have o2: "copy_from_slice (?u @ replicate (?total - 2) 0) 2 nb = Some (?u @ nb @ replicate (?total - 2 - length nb) 0)"
    using copy_zeros [of 2 ?u nb "?total - 2" "[]"] by simp
  have o3: "copy_from_slice (?u @ nb @ replicate (?total - 2 - length nb) 0) (2 + length nb) ob =
      Some (?h @ replicate ?rest 0)"
    using copy_zeros [of "2 + length nb" "?u @ nb" ob "?total - 2 - length nb" "[]"] by simp
  obtain o4 cursor slot where
    f: "write_columns_v2 ?lay sp ?fs ?os (?os + (var_count ?cols + 1) * 2) 0 vs (?h @ replicate ?rest 0, 0, 0) =
        Some (o4, cursor, slot)"
      "copy_from_slice o4 (?os + slot * 2) (u16_to_le cursor) =
        Some (?h @ fixed_cells ?cols vs @ offset_table 0 ?cells @ concat ?cells)"
    using fill_regions [OF cf spl len, of ?fs ?h ?os] by auto
  have image: "row_body_image nb ob ?cols vs ?cells = ?h @ fixed_cells ?cols vs @ offset_table 0 ?cells @ concat ?cells"
    by (simp add: row_body_image_def n Let_def algebra_simps)
  have "encode_row_v2_into sc ?lay vs sp = Some (row_image 2 nb ob ?cols vs ?cells)"
    unfolding encode_row_v2_into_def Let_def layout_simps_new pre Option.bind_lunit prod.case
    unfolding lens [symmetric] o1 o2 o3 Option.bind_lunit
    using f by (simp add: lv prepend_prefix_eq row_image_def image ROW_FORMAT_VERSION_V2_def)
  with reps show ?thesis by blast
qed

end
