(* ===== verification/Row_Decode.thy ===== *)
theory Row_Decode
  imports Row_Image
begin

text \<open>
  Reading a row image back: every decoder of \<^theory_text>\<open>Row\<close> on what the encoders write, and the
  agreement of the two full-row decoders on arbitrary bytes.
\<close>

unbundle bit_operations_syntax

subsection \<open>Regions of an image\<close>

lemma sub_middle:
  "b = length as + a \<Longrightarrow> a + n \<le> length xs \<Longrightarrow> sub (as @ xs @ bs) b n = sub xs a n"
  by (simp add: sub_def)

lemma sub_fixed_cells:
  assumes "conforms cs vs" "i < length cs"
  shows "sub (fixed_cells cs vs) (fixed_len (take i cs)) (col_size (cs ! i)) = fixed_cell (cs ! i) (vs ! i) \<and>
    fixed_len (take i cs) + col_size (cs ! i) \<le> fixed_len cs"
  using assms unfolding conforms_def
proof (induction cs vs arbitrary: i rule: list_all2_induct)
  case (Cons c cs v vs)
  show ?case
  proof (cases i)
    case 0
    with Cons show ?thesis by (simp add: sub_def)
  next
    case (Suc k)
    have "sub (fixed_cells (c # cs) (v # vs)) (col_size c + fixed_len (take k cs)) (col_size (cs ! k)) =
        sub (fixed_cells cs vs) (fixed_len (take k cs)) (col_size (cs ! k))"
      using Cons.hyps(1) by (simp add: sub_append_right)
    with Suc Cons show ?thesis by simp
  qed
qed simp

lemma sub_offset_table:
  "k \<le> length cells \<Longrightarrow>
   sub (offset_table n cells) (2 * k) 2 = u16_to_le (word_of_nat (n + cells_len (take k cells)))"
proof (induction n cells arbitrary: k rule: offset_table.induct)
  case (2 n c cells)
  show ?case
  proof (cases k)
    case 0
    then show ?thesis by (simp add: sub_def)
  next
    case (Suc j)
    with 2 show ?thesis by (simp add: sub_append_right add.assoc)
  qed
qed (simp add: sub_def)

lemma sub_concat_cells:
  "k < length cells \<Longrightarrow> sub (concat cells) (cells_len (take k cells)) (length (cells ! k)) = cells ! k"
proof (induction cells arbitrary: k)
  case (Cons c cells)
  show ?case
  proof (cases k)
    case 0
    then show ?thesis by (simp add: sub_def)
  next
    case (Suc j)
    with Cons show ?thesis by (simp add: sub_append_right)
  qed
qed simp

lemma cells_len_take_Suc: "k < length cells \<Longrightarrow> cells_len (take (Suc k) cells) = cells_len (take k cells) + length (cells ! k)"
  by (simp add: take_Suc_conv_app_nth cells_len_def)

lemma cells_len_take_le: "cells_len (take k cells) \<le> cells_len cells"
proof -
  have "cells_len (take k cells) + cells_len (drop k cells) = cells_len cells"
    by (metis append_take_drop_id cells_len_def map_append sum_list_append)
  then show ?thesis by simp
qed

lemma var_cells_nth:
  "length vs = length cs \<Longrightarrow> length sp = var_count cs \<Longrightarrow> i < length cs \<Longrightarrow> is_var (cs ! i) \<Longrightarrow>
   var_cells cs vs sp ! var_count (take i cs) = var_cell (sp ! var_count (take i cs)) (vs ! i)"
proof (induction cs vs sp arbitrary: i rule: var_cells.induct)
  case (1 c cs v vs sp)
  show ?case
  proof (cases i)
    case 0
    with 1 show ?thesis by (cases sp) auto
  next
    case (Suc j)
    with 1 show ?thesis by (cases sp) auto
  qed
qed auto

definition image_fixed_start :: "bytes \<Rightarrow> bytes \<Rightarrow> nat" where
  "image_fixed_start nb ob = 2 + length nb + length ob"

definition image_table_start :: "bytes \<Rightarrow> bytes \<Rightarrow> column_def list \<Rightarrow> nat" where
  "image_table_start nb ob cs = 2 + length nb + length ob + fixed_len cs"

definition image_data_start :: "bytes \<Rightarrow> bytes \<Rightarrow> column_def list \<Rightarrow> nat" where
  "image_data_start nb ob cs = 2 + length nb + length ob + fixed_len cs + (var_count cs + 1) * 2"

lemma body_split:
  "\<exists>u. length u = 2 \<and> row_body_image nb ob cs vs cells =
     u @ nb @ ob @ fixed_cells cs vs @ offset_table 0 cells @ concat cells"
  by (simp add: row_body_image_def Let_def)

lemma image_null_bitmap:
  "sub (row_body_image nb ob cs vs cells) 2 (length nb) = nb"
  "length nb + 2 \<le> length (row_body_image nb ob cs vs cells)"
  "i < length nb \<Longrightarrow> row_body_image nb ob cs vs cells ! (2 + i) = nb ! i"
  using body_split [of nb ob cs vs cells]
  by (auto simp: sub_def nth_append)

lemma image_ovf_bitmap:
  "slice_run (row_body_image nb ob cs vs cells) (2 + length nb) (2 + length nb + length ob) = Some ob"
  using body_split [of nb ob cs vs cells] by (auto simp: slice_run_def sub_def)

lemma image_fixed:
  assumes "conforms cs vs" "i < length cs"
  shows "sub (row_body_image nb ob cs vs cells) (image_fixed_start nb ob + fixed_len (take i cs)) (col_size (cs ! i)) =
      fixed_cell (cs ! i) (vs ! i)"
    and "image_fixed_start nb ob + fixed_len (take i cs) + col_size (cs ! i)
      \<le> length (row_body_image nb ob cs vs cells)"
proof -
  obtain u where u: "length u = 2" "row_body_image nb ob cs vs cells =
     (u @ nb @ ob) @ fixed_cells cs vs @ offset_table 0 cells @ concat cells"
    using body_split [of nb ob cs vs cells] by auto
  note f = sub_fixed_cells [OF assms]
  show "sub (row_body_image nb ob cs vs cells) (image_fixed_start nb ob + fixed_len (take i cs)) (col_size (cs ! i)) =
      fixed_cell (cs ! i) (vs ! i)"
    unfolding u(2) using f u(1) assms(1) by (subst sub_middle) (auto simp: image_fixed_start_def)
  show "image_fixed_start nb ob + fixed_len (take i cs) + col_size (cs ! i)
      \<le> length (row_body_image nb ob cs vs cells)"
    using f u assms(1) by (simp add: image_fixed_start_def)
qed

lemma image_offset:
  assumes "conforms cs vs" "length cells = var_count cs" "k \<le> var_count cs"
  shows "read_u16 (row_body_image nb ob cs vs cells) (image_table_start nb ob cs + k * 2) =
    Some (word_of_nat (cells_len (take k cells)))"
proof -
  obtain u where u: "length u = 2" "row_body_image nb ob cs vs cells =
     (u @ nb @ ob @ fixed_cells cs vs) @ offset_table 0 cells @ concat cells"
    using body_split [of nb ob cs vs cells] by auto
  have "sub (row_body_image nb ob cs vs cells) (image_table_start nb ob cs + k * 2) 2 =
      u16_to_le (word_of_nat (cells_len (take k cells)))"
    unfolding u(2) using sub_offset_table [of k cells 0] u(1) assms
    by (subst sub_middle [of _ _ "2 * k"]) (auto simp: image_table_start_def)
  moreover have "image_table_start nb ob cs + k * 2 + 2 \<le> length (row_body_image nb ob cs vs cells)"
    using u assms by (simp add: image_table_start_def)
  ultimately show ?thesis by (simp add: read_u16_def slice_run_def)
qed

lemma image_cell:
  assumes "conforms cs vs" "length cells = var_count cs" "k < var_count cs"
  shows "slice_run (row_body_image nb ob cs vs cells) (image_data_start nb ob cs + cells_len (take k cells))
     (image_data_start nb ob cs + cells_len (take (Suc k) cells)) = Some (cells ! k)"
proof -
  obtain u where u: "length u = 2" "row_body_image nb ob cs vs cells =
     (u @ nb @ ob @ fixed_cells cs vs @ offset_table 0 cells) @ concat cells @ []"
    using body_split [of nb ob cs vs cells] by auto
  have le: "cells_len (take k cells) + length (cells ! k) \<le> cells_len cells"
    using cells_len_take_le [of "Suc k" cells] cells_len_take_Suc [of k cells] assms by simp
  have "sub (row_body_image nb ob cs vs cells) (image_data_start nb ob cs + cells_len (take k cells))
      (length (cells ! k)) = cells ! k"
    unfolding u(2) using sub_concat_cells [of k cells] u(1) assms le
    by (subst sub_middle [of _ _ "cells_len (take k cells)"]) (auto simp: image_data_start_def length_concat_cells)
  moreover have "image_data_start nb ob cs + cells_len (take k cells) + length (cells ! k)
      \<le> length (row_body_image nb ob cs vs cells)"
    using u le assms by (simp add: image_data_start_def length_concat_cells)
  ultimately show ?thesis using assms by (simp add: slice_run_def cells_len_take_Suc)
qed

lemma image_prefix:
  "has_row_prefix (row_image version nb ob cs vs cells)"
  "row_body (row_image version nb ob cs vs cells) = row_body_image nb ob cs vs cells"
  "drop ROW_PREFIX_SIZE (row_image version nb ob cs vs cells) = row_body_image nb ob cs vs cells"
  "row_is_v2 (row_image version nb ob cs vs cells) \<longleftrightarrow> version = 2"
proof -
  obtain a b where ab: "u16_to_le version = [a, b]"
    by (simp add: u16_to_le_def numeral_2_eq_2)
  show p: "has_row_prefix (row_image version nb ob cs vs cells)"
    by (simp add: has_row_prefix_def row_image_def layout_simps ROW_MAGIC_def sub_def)
  show "drop ROW_PREFIX_SIZE (row_image version nb ob cs vs cells) = row_body_image nb ob cs vs cells"
    by (simp add: row_image_def layout_simps ROW_MAGIC_def)
  with p show "row_body (row_image version nb ob cs vs cells) = row_body_image nb ob cs vs cells"
    by (simp add: row_body_def)
  have "u16_from_le [a, b] = version" using u16_from_to_le [of version] by (simp add: ab)
  with p ab show "row_is_v2 (row_image version nb ob cs vs cells) \<longleftrightarrow> version = 2"
    by (simp add: row_is_v2_def ROW_FORMAT_VERSION_V2_def) (simp add: row_image_def ROW_MAGIC_def nth_append)
qed

subsection \<open>Decoding one column\<close>

lemma decode_fixed_cell:
  assumes "value_fits (col_type c) v" "v \<noteq> VEmpty" "\<not> is_var c"
    and "sub d pos (col_size c) = fixed_cell c v" "pos + col_size c \<le> length d"
  shows "decode_fixed (col_type c) d pos = Some v"
  using assms(1,2)
proof (cases rule: value_fits_cases)
  case (bool b)
  have "d ! pos = sub d pos 1 ! 0" using assms(5) bool by (simp add: nth_sub col_size_def)
  also have "\<dots> = (if b then 1 else 0)"
    using assms(3,4) bool by (simp add: fixed_cell_def col_size_def)
  finally have "d ! pos = (if b then 1 else 0)" .
  with bool assms(5) show ?thesis
    by (simp add: decode_fixed_def index_run_def col_size_def)
qed (use assms in \<open>auto simp: decode_fixed_def slice_run_def col_size_def fixed_cell_def is_var_def\<close>)

lemma decode_var_cell:
  assumes "value_fits (col_type c) v" "v \<noteq> VEmpty" "is_var c"
  shows "decode_var (col_type c) (payload v) = Some v"
  using assms(1,2) by (cases rule: value_fits_cases) (use assms(3) in \<open>auto simp: decode_var_def is_var_def\<close>)

lemma unat_cells_len: "cells_len cells \<le> 65535 \<Longrightarrow> unat (word_of_nat (cells_len (take k cells)) :: u16) = cells_len (take k cells)"
  using cells_len_take_le [of k cells] by simp

text \<open>
  \<^const>\<open>decode_column\<close> on a row image: the stored value, or empty for a value stored out of line.
\<close>

lemma decode_column_image:
  assumes cf: "conforms (columns sc) vs" and i: "i < length (columns sc)"
    and sp: "length sp = var_count (columns sc)"
    and len: "cells_len (var_cells (columns sc) vs sp) \<le> 65535"
    and nb: "bitmap_rep (div_ceil8 (length (columns sc))) (null_at vs) nb"
    and v: "version = 2 \<and> bitmap_rep (div_ceil8 (var_count (columns sc))) (spilled_at sp) ob \<or>
            version = 1 \<and> ob = [] \<and> (\<forall>x \<in> set sp. x = None)"
  shows "decode_column sc (row_layout_new sc)
      (row_image version nb ob (columns sc) vs (var_cells (columns sc) vs sp)) i =
    Some (if is_var (columns sc ! i) \<and> vs ! i \<noteq> VEmpty \<and> sp ! var_count (take i (columns sc)) \<noteq> None
          then VEmpty else vs ! i)"
proof -
  let ?cols = "columns sc" and ?cells = "var_cells (columns sc) vs sp" and ?k = "var_count (take i (columns sc))"
  let ?body = "row_body_image nb ob ?cols vs ?cells"
  have lv: "length vs = length ?cols" using cf by (simp add: conforms_def list_all2_lengthD)
  have n: "length ?cells = var_count ?cols" using lv by simp
  have fit: "value_fits (col_type (?cols ! i)) (vs ! i)"
    using cf i by (simp add: conforms_def list_all2_conv_all_nth)
  have lnb: "length nb = div_ceil8 (length ?cols)" using nb by (simp add: bitmap_rep_def)
  have i8: "i div 8 < length nb" using i lnb div_ceil8_bound by simp
  have "bit (nb ! (i div 8)) (i mod 8) \<longleftrightarrow> vs ! i = VEmpty"
    using nb i div_ceil8_cover [of "length ?cols"] lv by (auto simp: bitmap_rep_def null_at_def)
  then have null: "index_run ?body (2 + i div 8) = Some (nb ! (i div 8))"
      "drop_bit (i mod 8) (nb ! (i div 8)) AND 1 = 1 \<longleftrightarrow> vs ! i = VEmpty"
    using image_null_bitmap(3) [of "i div 8" nb ob ?cols vs ?cells] image_null_bitmap(2) [of nb ob ?cols vs ?cells] i8
    by (simp_all add: index_run_def drop_bit_and_1)
  have lob: "length ob = (if version = 2 then div_ceil8 (var_count ?cols) else 0)"
    using v by (auto simp: bitmap_rep_def)
  have base: "2 + bitmap_size (row_layout_new sc) = 2 + length nb"
    "(if version = 2 then overflow_bitmap_size (row_layout_new sc) else 0) = length ob"
    by (simp_all add: layout_simps_new lnb lob)
  have col: "index_run ?cols i = Some (?cols ! i)" using i by (simp add: index_run_def)
  note open_col = decode_column_def Let_def image_prefix col null(1) Option.bind_lunit base layout_at [OF i]
  show ?thesis
  proof (cases "vs ! i = VEmpty")
    case True
    then show ?thesis using null by (simp add: decode_column_def image_prefix col)
  next
    case ne: False
    show ?thesis
    proof (cases "is_var (?cols ! i)")
      case False
      have "decode_fixed (col_type (?cols ! i)) ?body (image_fixed_start nb ob + fixed_len (take i ?cols)) = Some (vs ! i)"
        using decode_fixed_cell [OF fit ne False image_fixed [OF cf i]] .
      then show ?thesis
        using ne False unfolding open_col by (simp add: null(2) image_fixed_start_def)
    next
      case True
      have k: "?k < var_count ?cols" using var_count_take_less [OF i True] .
      have spilled: "(if version = 2 then do { ovf \<leftarrow> slice_run ?body (2 + length nb) (2 + length nb + length ob);
          get_bit_run ovf ?k } else Some False) = Some (sp ! ?k \<noteq> None)"
        using v
      proof
        assume v2: "version = 2 \<and> bitmap_rep (div_ceil8 (var_count ?cols)) (spilled_at sp) ob"
        have "?k < 8 * div_ceil8 (var_count ?cols)" using k div_ceil8_cover [of "var_count ?cols"] by linarith
        with v2 get_bit_run_rep [OF conjunct2 [OF v2], of ?k] k sp image_ovf_bitmap [of nb ob ?cols vs ?cells]
        show ?thesis by (simp add: spilled_at_def)
      next
        assume "version = 1 \<and> ob = [] \<and> (\<forall>x \<in> set sp. x = None)"
        then show ?thesis using k sp nth_mem [of ?k sp] by auto
      qed
      show ?thesis
      proof (cases "sp ! ?k")
        case (Some stub)
        then show ?thesis
          using ne True spilled unfolding open_col by (simp add: null(2))
      next
        case None
        have cell: "?cells ! ?k = payload (vs ! i)"
          using var_cells_nth [OF lv sp i True] None by (simp add: var_cell_def)
        have tab: "2 + length nb + length ob + fixed_region_size (row_layout_new sc) = image_table_start nb ob ?cols"
          "image_table_start nb ob ?cols + (n_var (row_layout_new sc) + 1) * 2 = image_data_start nb ob ?cols"
          by (simp_all add: layout_simps_new image_table_start_def image_data_start_def)
        have reads: "read_u16 ?body (image_table_start nb ob ?cols + ?k * 2) = Some (word_of_nat (cells_len (take ?k ?cells)))"
          "read_u16 ?body (image_table_start nb ob ?cols + (?k + 1) * 2) = Some (word_of_nat (cells_len (take (Suc ?k) ?cells)))"
          using image_offset [OF cf n, of ?k nb ob] image_offset [OF cf n, of "?k + 1" nb ob] k by simp_all
        show ?thesis
          using ne True spilled None decode_var_cell [OF fit ne True]
            image_cell [OF cf n k, of nb ob] reads
          unfolding open_col tab by (simp add: null(2) cell unat_cells_len [OF len])
      qed
    qed
  qed
qed

end
