(* ===== verification/Row_Agree.thy ===== *)
theory Row_Agree
  imports Row_Decode
begin

text \<open>
  The two full-row decoders agree: \<open>decode_inline_row_with_layout\<close>, which decodes column by column
  with a cached layout, and \<open>decode_row\<close>, which walks the row once. They return the same values on
  every byte string that is not a v2 row and panic on exactly the same ones.
\<close>

unbundle bit_operations_syntax

lemma those_map:
  "those (map f xs) = (if \<forall>x \<in> set xs. f x \<noteq> None then Some (map (\<lambda>x. the (f x)) xs) else None)"
  by (induction xs) (auto split: option.splits)

lemma decode_fixed_total:
  assumes "\<not> is_var c" "pos + col_size c \<le> length d"
  shows "\<exists>v. decode_fixed (col_type c) d pos = Some v"
  using assms
  by (cases "col_type c") (auto simp: decode_fixed_def is_var_def col_size_def slice_run_def index_run_def)

lemma decode_fixed_present: "decode_fixed t d pos = Some v \<Longrightarrow> v \<noteq> VEmpty"
  by (auto simp: decode_fixed_def bind_eq_Some_conv split: type_id.splits)

lemma read_offsets_eq:
  "read_offsets d pos n =
     (if n = 0 \<or> pos + 2 * n \<le> length d
      then Some (map (\<lambda>j. unat (u16_from_le (sub d (pos + 2 * j) 2))) [0..<n]) else None)"
proof (induction n arbitrary: pos)
  case (Suc n)
  have "[0..<Suc n] = 0 # map Suc [0..<n]" by (simp add: upt_conv_Cons map_Suc_upt del: upt_Suc)
  with Suc show ?case
    by (auto simp: read_u16_def slice_run_def comp_def add.assoc simp del: upt_Suc)
qed simp

lemma fixed_cols_pos:
  "decode_fixed_cols d nb i cs (pos, vs) = Some (pos', vs') \<Longrightarrow> pos' = pos + fixed_len cs"
proof (induction cs arbitrary: i pos vs)
  case (Cons c cs)
  then show ?case
    by (fastforce simp: col_size_def bind_eq_Some_conv split: if_splits)
qed simp

subsection \<open>The columns of a row with complete metadata\<close>

definition metadata_end :: "schema \<Rightarrow> nat" where
  "metadata_end sc = 2 + div_ceil8 (length (columns sc)) + fixed_len (columns sc) + (var_count (columns sc) + 1) * 2"

definition null_bit :: "bytes \<Rightarrow> nat \<Rightarrow> bool" where
  "null_bit d i = (drop_bit (i mod 8) (d ! (2 + i div 8)) AND 1 = 1)"

lemma get_null_bit:
  assumes "i < length (columns sc)" "metadata_end sc \<le> length d"
  shows "get_bit_run (sub d 2 (div_ceil8 (length (columns sc)))) i = Some (null_bit d i)"
    and "index_run d (2 + i div 8) = Some (d ! (2 + i div 8))"
proof -
  have "i div 8 < div_ceil8 (length (columns sc))" using assms(1) by (rule div_ceil8_bound)
  with assms(2) show "get_bit_run (sub d 2 (div_ceil8 (length (columns sc)))) i = Some (null_bit d i)"
    "index_run d (2 + i div 8) = Some (d ! (2 + i div 8))"
    by (simp_all add: get_bit_run_def index_run_def nth_sub null_bit_def metadata_end_def)
qed

lemma decode_column_fixed:
  assumes "\<not> row_is_v2 row" "i < length (columns sc)" "metadata_end sc \<le> length (row_body row)"
    and "\<not> is_var (columns sc ! i)"
  shows "decode_column sc (row_layout_new sc) row i =
    (if null_bit (row_body row) i then Some VEmpty
     else decode_fixed (col_type (columns sc ! i)) (row_body row)
            (2 + div_ceil8 (length (columns sc)) + fixed_len (take i (columns sc))))"
proof -
  have "index_run (columns sc) i = Some (columns sc ! i)" using assms(2) by (simp add: index_run_def)
  with assms get_null_bit(2) [OF assms(2,3)] show ?thesis
    by (simp add: decode_column_def Let_def layout_at layout_simps_new(3-6) null_bit_def)
qed

definition offset_at :: "schema \<Rightarrow> bytes \<Rightarrow> nat \<Rightarrow> nat" where
  "offset_at sc d k =
     unat (u16_from_le (sub d (2 + div_ceil8 (length (columns sc)) + fixed_len (columns sc) + 2 * k) 2))"

lemma decode_column_var:
  assumes "\<not> row_is_v2 row" "i < length (columns sc)" "metadata_end sc \<le> length (row_body row)"
    and "is_var (columns sc ! i)"
  defines "d \<equiv> row_body row" and "k \<equiv> var_count (take i (columns sc))"
  shows "decode_column sc (row_layout_new sc) row i =
    (if null_bit d i then Some VEmpty
     else do { b \<leftarrow> slice_run d (metadata_end sc + offset_at sc d k) (metadata_end sc + offset_at sc d (Suc k));
               decode_var (col_type (columns sc ! i)) b })"
proof -
  have col: "index_run (columns sc) i = Some (columns sc ! i)" using assms(2) by (simp add: index_run_def)
  have k: "k < var_count (columns sc)"
    unfolding k_def using var_count_take_less [OF assms(2,4)] .
  let ?t = "2 + div_ceil8 (length (columns sc)) + fixed_len (columns sc)"
  have "?t + k * 2 + 2 \<le> length d" "?t + (k + 1) * 2 + 2 \<le> length d"
    using assms(3) k by (simp_all add: metadata_end_def d_def)
  then have reads: "read_u16 d (?t + k * 2) = Some (u16_from_le (sub d (?t + 2 * k) 2))"
      "read_u16 d (?t + (k + 1) * 2) = Some (u16_from_le (sub d (?t + 2 * Suc k) 2))"
    by (simp_all add: read_u16_def slice_run_def mult.commute)
  show ?thesis
    using assms(1,4) col get_null_bit(2) [OF assms(2,3), folded d_def] reads
    by (simp add: decode_column_def d_def [symmetric] layout_at [OF assms(2)] layout_simps_new(3-6) null_bit_def
        k_def [symmetric] metadata_end_def offset_at_def)
qed

subsection \<open>The two passes of \<open>decode_row\<close>\<close>

lemma decode_fixed_cols_eq:
  assumes v1: "\<not> row_is_v2 row" and len: "metadata_end sc \<le> length (row_body row)"
    and "i \<le> length (columns sc)" "length vs = length (columns sc)"
  defines "dcol \<equiv> decode_column sc (row_layout_new sc) row" and "n \<equiv> length (columns sc)"
  shows "decode_fixed_cols (row_body row) (sub (row_body row) 2 (div_ceil8 n)) i (drop i (columns sc))
      (2 + div_ceil8 n + fixed_len (take i (columns sc)), vs) =
    Some (2 + div_ceil8 n + fixed_len (columns sc),
      map (\<lambda>j. if i \<le> j \<and> \<not> is_var (columns sc ! j) \<and> dcol j \<noteq> Some VEmpty then the (dcol j) else vs ! j) [0..<n])"
  using assms(3,4)
proof (induction "length (columns sc) - i" arbitrary: i vs)
  case 0
  then have "i = n" by (simp add: n_def)
  with 0 show ?case by (auto simp: n_def intro!: nth_equalityI)
next
  case (Suc m)
  let ?c = "columns sc ! i" and ?d = "row_body row"
  have i: "i < length (columns sc)" using Suc(2) by simp
  have dr: "drop i (columns sc) = ?c # drop (Suc i) (columns sc)" using i by (simp add: Cons_nth_drop_Suc)
  have tk: "fixed_len (take (Suc i) (columns sc)) = fixed_len (take i (columns sc)) + col_size ?c"
    using i by (simp add: take_Suc_conv_app_nth)
  let ?R = "\<lambda>i vs. map (\<lambda>j. if i \<le> j \<and> \<not> is_var (columns sc ! j) \<and> dcol j \<noteq> Some VEmpty
      then the (dcol j) else vs ! j) [0..<n]"
  show ?case
  proof (cases "is_var ?c")
    case True
    then have "?R (Suc i) vs = ?R i vs" by (auto simp: Suc_le_eq le_less)
    moreover have "col_size ?c = 0" using True by (simp add: col_size_def is_var_def)
    ultimately show ?thesis
      using Suc(1) [of "Suc i" vs] Suc.hyps(2) Suc.prems True i by (simp add: dr tk is_var_def)
  next
    case False
    note col = decode_column_fixed [OF v1 i len False, folded dcol_def n_def]
    have sz: "fixed_size (col_type ?c) = Some (col_size ?c)"
      using False fixed_size_iff [of "col_type ?c"] by (auto simp: is_var_def col_size_def)
    have nb: "get_bit_run (sub ?d 2 (div_ceil8 n)) i = Some (null_bit ?d i)"
      using get_null_bit(1) [OF i len] by (simp add: n_def)
    show ?thesis
    proof (cases "null_bit ?d i")
      case True
      then have "?R (Suc i) vs = ?R i vs" using col by (auto simp: Suc_le_eq le_less)
      then show ?thesis
        using Suc(1) [of "Suc i" vs] Suc.hyps(2) Suc.prems True False i nb sz
        by (simp add: dr tk is_var_def add.assoc)
    next
      case nn: False
      have fl: "fixed_len (take i (columns sc)) + col_size ?c \<le> fixed_len (columns sc)"
        using arg_cong [OF id_take_nth_drop [OF i], of fixed_len] by simp
      have "2 + div_ceil8 n + fixed_len (take i (columns sc)) + col_size ?c \<le> length ?d"
        using len fl by (simp add: metadata_end_def n_def)
      from decode_fixed_total [OF False this] obtain v where
        v: "decode_fixed (col_type ?c) ?d (2 + div_ceil8 n + fixed_len (take i (columns sc))) = Some v" by blast
      then have "dcol i = Some v" using col nn by simp
      then have "?R (Suc i) (vs[i := v]) = ?R i vs"
        using i Suc.prems(2) False decode_fixed_present [OF v] by (auto simp: n_def nth_list_update Suc_le_eq le_less)
      then show ?thesis
        using Suc(1) [of "Suc i" "vs[i := v]"] Suc.hyps(2) Suc.prems nn False i nb sz v
        by (simp add: dr tk is_var_def add.assoc)
    qed
  qed
qed

lemma decode_var_cols_eq:
  assumes v1: "\<not> row_is_v2 row" and len: "metadata_end sc \<le> length (row_body row)"
    and "i \<le> length (columns sc)" "length vs = length (columns sc)"
    and "\<forall>j < length (columns sc). i \<le> j \<and> is_var (columns sc ! j) \<longrightarrow> vs ! j = VEmpty"
  defines "dcol \<equiv> decode_column sc (row_layout_new sc) row" and "n \<equiv> length (columns sc)"
  defines "offs \<equiv> map (offset_at sc (row_body row)) [0..<var_count (columns sc) + 1]"
  shows "decode_var_cols sc (row_body row) False (sub (row_body row) 2 (div_ceil8 n)) ob (metadata_end sc) offs
      (var_count (take i (columns sc))) (filter (\<lambda>j. is_var (columns sc ! j)) [i..<n]) vs =
    (if \<forall>j \<in> {i..<n}. is_var (columns sc ! j) \<longrightarrow> dcol j \<noteq> None
     then Some (map (\<lambda>j. if i \<le> j \<and> is_var (columns sc ! j) then the (dcol j) else vs ! j) [0..<n])
     else None)"
  using assms(3-5)
proof (induction "length (columns sc) - i" arbitrary: i vs)
  case 0
  then have "i = n" by (simp add: n_def)
  with 0 show ?case by (auto simp: n_def intro!: nth_equalityI)
next
  case (Suc m)
  let ?c = "columns sc ! i" and ?d = "row_body row" and ?k = "var_count (take i (columns sc))"
  have i: "i < length (columns sc)" using Suc(2) by simp
  have up: "[i..<n] = i # [Suc i..<n]" using i by (simp add: n_def upt_conv_Cons)
  have set: "{i..<n} = insert i {Suc i..<n}" using i by (auto simp: n_def)
  have tk: "var_count (take (Suc i) (columns sc)) = ?k + (if is_var ?c then 1 else 0)"
    using i by (simp add: take_Suc_conv_app_nth)
  let ?R = "\<lambda>i vs. map (\<lambda>j. if i \<le> j \<and> is_var (columns sc ! j) then the (dcol j) else vs ! j) [0..<n]"
  show ?case
  proof (cases "is_var ?c")
    case False
    then have "?R (Suc i) vs = ?R i vs" by (auto simp: Suc_le_eq le_less)
    with Suc(1) [of "Suc i" vs] Suc.hyps(2) Suc.prems False i show ?thesis
      by (simp add: up set tk)
  next
    case True
    have k: "?k < var_count (columns sc)" using var_count_take_less [OF i True] .
    note col = decode_column_var [OF v1 i len True, folded dcol_def]
    have nb: "get_bit_run (sub ?d 2 (div_ceil8 n)) i = Some (null_bit ?d i)"
      using get_null_bit(1) [OF i len] by (simp add: n_def)
    have offs: "index_run offs ?k = Some (offset_at sc ?d ?k)" "index_run offs (?k + 1) = Some (offset_at sc ?d (Suc ?k))"
      using k by (simp_all add: offs_def index_run_def del: upt_Suc)
    have ci: "index_run (columns sc) i = Some ?c" using i by (simp add: index_run_def)
    have step: "decode_var_cols sc ?d False (sub ?d 2 (div_ceil8 n)) ob (metadata_end sc) offs ?k
        (i # cis) vs = (case dcol i of None \<Rightarrow> None | Some v \<Rightarrow>
          decode_var_cols sc ?d False (sub ?d 2 (div_ceil8 n)) ob (metadata_end sc) offs (Suc ?k) cis (vs[i := v]))" for cis
    proof (cases "null_bit ?d i")
      case True
      moreover have "vs[i := VEmpty] = vs" using Suc.prems(3) i \<open>is_var ?c\<close> list_update_id [of vs i] by force
      ultimately show ?thesis using nb col by simp
    next
      case False
      then show ?thesis
        using nb col offs ci by (simp split: option.splits) (auto split: bind_splits)
    qed
    show ?thesis
    proof (cases "dcol i")
      case None
      then show ?thesis using True by (simp add: up step set del: decode_var_cols.simps)
    next
      case (Some v)
      then have "?R (Suc i) (vs[i := v]) = ?R i vs"
        using i Suc.prems(2) True by (auto simp: n_def nth_list_update Suc_le_eq le_less)
      with Suc(1) [of "Suc i" "vs[i := v]"] Suc.hyps(2) Suc.prems True i Some show ?thesis
        by (simp add: up step set tk del: decode_var_cols.simps)
    qed
  qed
qed

subsection \<open>Agreement\<close>

lemma var_col_indices_eq:
  "var_col_indices sc = filter (\<lambda>j. is_var (columns sc ! j)) [0..<length (columns sc)]"
  by (simp add: var_col_indices_def is_var_def)

lemma length_var_col_indices: "length (var_col_indices sc) = var_count (columns sc)"
proof -
  have "map (\<lambda>j. columns sc ! j) (var_col_indices sc) = filter is_var (columns sc)"
    unfolding var_col_indices_eq
    by (simp add: filter_map [of is_var "\<lambda>j. columns sc ! j", unfolded comp_def, symmetric] map_nth)
  from arg_cong [OF this, of length] show ?thesis by (simp add: var_count_def)
qed

lemma decoders_agree_short:
  assumes "\<not> row_is_v2 row" "length (row_body row) < metadata_end sc"
  shows "decode_row sc row = None"
proof (rule ccontr)
  assume "decode_row sc row \<noteq> None"
  then obtain pos vs offs where
    fc: "decode_fixed_cols (row_body row) (sub (row_body row) 2 (div_ceil8 (length (columns sc)))) 0 (columns sc)
        (2 + div_ceil8 (length (columns sc)), replicate (length (columns sc)) VEmpty) = Some (pos, vs)"
    and ro: "read_offsets (row_body row) pos (length (var_col_indices sc) + 1) = Some offs"
    using assms(1) by (auto simp: decode_row_def Let_def slice_run_def bind_eq_Some_conv split: if_splits)
  from fixed_cols_pos [OF fc] ro assms(2) show False
    by (simp add: read_offsets_eq metadata_end_def length_var_col_indices split: if_splits)
qed

lemma decoders_agree_long:
  assumes v1: "\<not> row_is_v2 row" and len: "metadata_end sc \<le> length (row_body row)"
  shows "decode_row sc row = those (map (decode_column sc (row_layout_new sc) row) [0..<length (columns sc)])"
proof -
  let ?d = "row_body row" and ?n = "length (columns sc)" and ?dcol = "decode_column sc (row_layout_new sc) row"
  let ?vs = "map (\<lambda>j. if \<not> is_var (columns sc ! j) \<and> ?dcol j \<noteq> Some VEmpty then the (?dcol j) else VEmpty) [0..<?n]"
  have fc: "decode_fixed_cols ?d (sub ?d 2 (div_ceil8 ?n)) 0 (columns sc)
      (2 + div_ceil8 ?n, replicate ?n VEmpty) = Some (2 + div_ceil8 ?n + fixed_len (columns sc), ?vs)"
    using decode_fixed_cols_eq [OF v1 len, of 0 "replicate ?n VEmpty"] by (simp cong: map_cong)
  have ro: "read_offsets ?d (2 + div_ceil8 ?n + fixed_len (columns sc)) (var_count (columns sc) + 1) =
      Some (map (offset_at sc ?d) [0..<var_count (columns sc) + 1])"
    using len by (simp add: read_offsets_eq metadata_end_def offset_at_def del: upt_Suc)
  have vc: "decode_var_cols sc ?d False (sub ?d 2 (div_ceil8 ?n)) ob (metadata_end sc)
      (map (offset_at sc ?d) [0..<var_count (columns sc) + 1]) 0 (var_col_indices sc) ?vs =
    (if \<forall>j \<in> {0..<?n}. is_var (columns sc ! j) \<longrightarrow> ?dcol j \<noteq> None
     then Some (map (\<lambda>j. if 0 \<le> j \<and> is_var (columns sc ! j) then the (?dcol j) else ?vs ! j) [0..<?n])
     else None)" for ob
    using decode_var_cols_eq [OF v1 len, of 0 ?vs ob] by (simp add: var_col_indices_eq)
  have fixed: "?dcol j \<noteq> None" if j: "j < ?n" "\<not> is_var (columns sc ! j)" for j
  proof -
    have "fixed_len (take j (columns sc)) + col_size (columns sc ! j) \<le> fixed_len (columns sc)"
      using arg_cong [OF id_take_nth_drop [OF j(1)], of fixed_len] by simp
    then have "2 + div_ceil8 ?n + fixed_len (take j (columns sc)) + col_size (columns sc ! j) \<le> length ?d"
      using len by (simp add: metadata_end_def)
    from decode_fixed_total [OF j(2) this] show ?thesis
      by (auto simp: decode_column_fixed [OF v1 j(1) len j(2)])
  qed
  have "decode_row sc row = (if \<forall>j \<in> {0..<?n}. is_var (columns sc ! j) \<longrightarrow> ?dcol j \<noteq> None
     then Some (map (\<lambda>j. if 0 \<le> j \<and> is_var (columns sc ! j) then the (?dcol j) else ?vs ! j) [0..<?n])
     else None)"
    using v1 fc ro vc len
    by (simp add: decode_row_def Let_def slice_run_def length_var_col_indices metadata_end_def algebra_simps
        del: upt_Suc read_offsets.simps)
  also have "\<dots> = those (map ?dcol [0..<?n])"
    using fixed by (auto simp: those_map)
  finally show ?thesis .
qed

theorem decode_inline_agrees:
  assumes v1: "\<not> row_is_v2 row"
  shows "decode_inline_row_with_layout sc (row_layout_new sc) row = decode_row sc row"
proof (cases "metadata_end sc \<le> length (row_body row)")
  case True
  with decoders_agree_long [OF v1 True] show ?thesis
    by (simp add: decode_inline_row_with_layout_def layout_simps_new(3-6) slice_run_def metadata_end_def)
next
  case False
  with decoders_agree_short [OF v1, of sc] show ?thesis
    by (simp add: decode_inline_row_with_layout_def layout_simps_new(3-6) slice_run_def metadata_end_def)
qed

end
