(* ===== verification/Row_Roundtrip.thy ===== *)
theory Row_Roundtrip
  imports Row_Agree
begin

unbundle bit_operations_syntax

text \<open>
  Round trips of the row codec: v1 rows, v2 rows with out-of-line values, and the rehydration of a
  v2 row.
\<close>

subsection \<open>Format v1\<close>

lemma image_body_length:
  assumes "conforms cs vs" "length cells = var_count cs"
  shows "length (row_body_image nb ob cs vs cells) =
    2 + length nb + length ob + fixed_len cs + (var_count cs + 1) * 2 + cells_len cells"
  using assms by (simp add: row_body_image_def Let_def length_concat_cells)

lemma decode_v1_image:
  assumes cf: "conforms (columns sc) vs" and len: "cells_len (v1_cells (columns sc) vs) \<le> 65535"
    and nb: "bitmap_rep (div_ceil8 (length (columns sc))) (null_at vs) nb"
  defines "row \<equiv> row_image 1 nb [] (columns sc) vs (v1_cells (columns sc) vs)"
  shows "i < length (columns sc) \<Longrightarrow> decode_column sc (row_layout_new sc) row i = Some (vs ! i)"
    and "decode_row sc row = Some vs"
proof -
  have lv: "length vs = length (columns sc)" using cf by (simp add: conforms_def list_all2_lengthD)
  show col: "decode_column sc (row_layout_new sc) row i = Some (vs ! i)" if "i < length (columns sc)" for i
    using decode_column_image [OF cf that, of "replicate (var_count (columns sc)) None" nb 1 "[]"] len nb that
      var_count_take_less [OF that]
    by (auto simp: row_def v1_cells_def)
  have v1: "\<not> row_is_v2 row" by (simp add: row_def image_prefix)
  have "length (v1_cells (columns sc) vs) = var_count (columns sc)" using lv by (simp add: v1_cells_def)
  then have "metadata_end sc \<le> length (row_body row)"
    using nb by (simp add: row_def image_prefix image_body_length [OF cf] metadata_end_def bitmap_rep_def)
  from decoders_agree_long [OF v1 this] show "decode_row sc row = Some vs"
    using col by (auto simp: those_map lv intro!: nth_equalityI)
qed

subsection \<open>Overflow stubs\<close>

lemma stub_to_bytes_eq:
  "stub_to_bytes s = u64_to_le (total_len s) @ u32_to_le (first_page s) @ u32_to_le (value_crc32 s) @
     [stub_flags s, stub_version s] @ replicate 6 0"
proof -
  have 1: "put (replicate 24 0) 0 (u64_to_le (total_len s)) = u64_to_le (total_len s) @ replicate 16 0"
    using put_zeros [of 0 "[]" "u64_to_le (total_len s)" 24 "[]"] by simp
  have 2: "put (u64_to_le (total_len s) @ replicate 16 0) 8 (u32_to_le (first_page s)) =
      u64_to_le (total_len s) @ u32_to_le (first_page s) @ replicate 12 0"
    using put_zeros [of 8 "u64_to_le (total_len s)" "u32_to_le (first_page s)" 16 "[]"] by simp
  have 3: "put (u64_to_le (total_len s) @ u32_to_le (first_page s) @ replicate 12 0) 12 (u32_to_le (value_crc32 s)) =
      u64_to_le (total_len s) @ u32_to_le (first_page s) @ u32_to_le (value_crc32 s) @ 0 # 0 # replicate 6 0"
    using put_zeros [of 12 "u64_to_le (total_len s) @ u32_to_le (first_page s)" "u32_to_le (value_crc32 s)" 12 "[]"]
    by (simp add: numeral_eq_Suc)
  show ?thesis
    unfolding stub_to_bytes_def Let_def OVERFLOW_STUB_SIZE_def 1 2 3
    by (simp add: list_update_append)
qed

lemma stub_roundtrip:
  assumes "stub_version s = OVERFLOW_STUB_VERSION"
  shows "stub_from_bytes (stub_to_bytes s) = Some s"
  using assms
  by (simp add: stub_from_bytes_def layout_simps stub_to_bytes_eq sub_def nth_append)

subsection \<open>Format v2\<close>

lemma decode_columns_v2_all:
  "\<forall>k < length cs. f (i + k) (cs ! k) = Some (Inr (vs ! k)) \<Longrightarrow> length vs = length cs \<Longrightarrow>
   decode_columns_v2 f i cs = Some (Inr vs)"
proof (induction cs arbitrary: i vs)
  case (Cons c cs)
  then obtain v vs' where vs: "vs = v # vs'" by (cases vs) auto
  have "f i c = Some (Inr v)" using Cons.prems(1) [rule_format, of 0] by (simp add: vs)
  moreover have "\<forall>k < length cs. f (Suc i + k) (cs ! k) = Some (Inr (vs' ! k))"
    using Cons.prems(1) [rule_format, of "Suc _"] by (auto simp: vs)
  ultimately show ?case using Cons.IH [of "Suc i" vs'] Cons.prems(2) by (simp add: vs)
qed simp

text \<open>
  \<open>stored sp fetch\<close>: every out-of-line value is one the chain reader returns for its stub.
\<close>

definition stored :: "column_def list \<Rightarrow> val list \<Rightarrow> overflow_stub option list \<Rightarrow>
    (overflow_stub \<Rightarrow> row_error + bytes) \<Rightarrow> bool" where
  "stored cs vs sp fetch \<longleftrightarrow> (\<forall>i < length cs. is_var (cs ! i) \<longrightarrow>
     (case sp ! var_count (take i cs) of None \<Rightarrow> True
      | Some stub \<Rightarrow> stub_version stub = OVERFLOW_STUB_VERSION \<and> fetch stub = Inr (payload (vs ! i))))"

lemma decode_column_v2_image:
  assumes cf: "conforms (columns sc) vs" and i: "i < length (columns sc)"
    and ok: "spills_ok (columns sc) vs sp" and st: "stored (columns sc) vs sp fetch"
    and len: "cells_len (var_cells (columns sc) vs sp) \<le> 65535"
    and nb: "bitmap_rep (div_ceil8 (length (columns sc))) (null_at vs) nb"
    and ob: "bitmap_rep (div_ceil8 (var_count (columns sc))) (spilled_at sp) ob"
  shows "decode_column_v2 fetch (row_layout_new sc)
      (row_body_image nb ob (columns sc) vs (var_cells (columns sc) vs sp)) nb ob
      (image_fixed_start nb ob) (image_table_start nb ob (columns sc)) (image_data_start nb ob (columns sc))
      i (columns sc ! i) = Some (Inr (vs ! i))"
proof -
  let ?cols = "columns sc" and ?cells = "var_cells (columns sc) vs sp" and ?k = "var_count (take i (columns sc))"
  let ?body = "row_body_image nb ob ?cols vs ?cells"
  have lv: "length vs = length ?cols" using cf by (simp add: conforms_def list_all2_lengthD)
  have n: "length ?cells = var_count ?cols" using lv by simp
  have sp: "length sp = var_count ?cols" using ok by (simp add: spills_ok_def)
  have fit: "value_fits (col_type (?cols ! i)) (vs ! i)"
    using cf i by (simp add: conforms_def list_all2_conv_all_nth)
  have null: "get_bit_run nb i = Some (vs ! i = VEmpty)"
    using get_bit_run_rep [OF nb, of i] i div_ceil8_cover [of "length ?cols"] lv by (simp add: null_at_def)
  show ?thesis
  proof (cases "vs ! i = VEmpty")
    case True
    then show ?thesis
      using null by (auto simp: decode_column_v2_def layout_at [OF i])
  next
    case ne: False
    show ?thesis
    proof (cases "is_var (?cols ! i)")
      case False
      with decode_fixed_cell [OF fit ne False image_fixed [OF cf i]] null ne show ?thesis
        by (simp add: decode_column_v2_def layout_at [OF i])
    next
      case True
      have k: "?k < var_count ?cols" using var_count_take_less [OF i True] .
      have spilled: "get_bit_run ob ?k = Some (sp ! ?k \<noteq> None)"
        using get_bit_run_rep [OF ob, of ?k] k sp div_ceil8_cover [of "var_count ?cols"]
        by (simp add: spilled_at_def)
      have reads: "read_u16 ?body (image_table_start nb ob ?cols + ?k * 2) = Some (word_of_nat (cells_len (take ?k ?cells)))"
        "read_u16 ?body (image_table_start nb ob ?cols + (?k + 1) * 2) = Some (word_of_nat (cells_len (take (Suc ?k) ?cells)))"
        using image_offset [OF cf n, of ?k nb ob] image_offset [OF cf n, of "?k + 1" nb ob] k by simp_all
      note slice = image_cell [OF cf n k, of nb ob] var_cells_nth [OF lv sp i True]
        decode_var_cell [OF fit ne True] unat_cells_len [OF len]
      show ?thesis
      proof (cases "sp ! ?k")
        case None
        with slice reads null ne True spilled show ?thesis
          by (simp add: decode_column_v2_def layout_at [OF i] var_cell_def)
      next
        case (Some stub)
        with st i True have "stub_from_bytes (stub_to_bytes stub) = Some stub" "fetch stub = Inr (payload (vs ! i))"
          by (auto simp: stored_def intro!: stub_roundtrip)
        with Some slice reads null ne True spilled show ?thesis
          by (simp add: decode_column_v2_def layout_at [OF i] var_cell_def)
      qed
    qed
  qed
qed

lemma decode_row_v2_image:
  assumes "conforms (columns sc) vs" "spills_ok (columns sc) vs sp" "stored (columns sc) vs sp fetch"
    and "cells_len (var_cells (columns sc) vs sp) \<le> 65535"
    and "bitmap_rep (div_ceil8 (length (columns sc))) (null_at vs) nb"
    and "bitmap_rep (div_ceil8 (var_count (columns sc))) (spilled_at sp) ob"
  shows "decode_row_v2 fetch sc (row_layout_new sc)
      (row_image 2 nb ob (columns sc) vs (var_cells (columns sc) vs sp)) = Some (Inr vs)"
proof -
  let ?body = "row_body_image nb ob (columns sc) vs (var_cells (columns sc) vs sp)"
  have lens: "div_ceil8 (length (columns sc)) = length nb" "div_ceil8 (var_count (columns sc)) = length ob"
    using assms(5,6) by (simp_all add: bitmap_rep_def)
  have lv: "length vs = length (columns sc)" using assms(1) by (simp add: conforms_def list_all2_lengthD)
  have nb: "slice_run ?body 2 (2 + length nb) = Some nb"
    using image_null_bitmap(1,2) [of nb ob "columns sc" vs "var_cells (columns sc) vs sp"]
    by (simp add: slice_run_def)
  have "decode_columns_v2 (decode_column_v2 fetch (row_layout_new sc) ?body nb ob (image_fixed_start nb ob)
      (image_table_start nb ob (columns sc)) (image_data_start nb ob (columns sc))) 0 (columns sc) = Some (Inr vs)"
    by (rule decode_columns_v2_all) (use decode_column_v2_image [OF assms(1) _ assms(2-6)] lv in simp_all)
  then show ?thesis
    using nb image_ovf_bitmap [of nb ob "columns sc" vs "var_cells (columns sc) vs sp"]
    by (simp add: decode_row_v2_def image_prefix layout_simps_new(3-6) lens Let_def
        image_fixed_start_def image_table_start_def image_data_start_def)
qed

end
