(* ===== verification/Row_Patch.thy ===== *)
theory Row_Patch
  imports Row_Roundtrip
begin

text \<open>
  \<open>patch_var_column_in_place\<close> against re-encoding: patching a v1 row in place leaves, in its first
  bytes, exactly the encoding of the updated row.
\<close>

unbundle bit_operations_syntax

lemma offset_table_append:
  "offset_table n (cp @ c # cq) = offset_table n cp @ offset_table (n + cells_len cp + length c) cq"
  by (induction cp arbitrary: n) (simp_all add: add.assoc)

lemma shift_offsets_table:
  assumes "delta \<le> n" "start + 2 * j = length xs"
  shows "shift_offsets (xs @ offset_table n cq @ ys) start delta [j..<j + length cq + 1] =
         Some (xs @ offset_table (n - delta) cq @ ys)"
  using assms
proof (induction cq arbitrary: xs n j)
  case Nil
  have read: "read_u16 (xs @ u16_to_le (word_of_nat n) @ ys) (start + j * 2) = Some (word_of_nat n)"
    using Nil(2) by (simp add: read_u16_def slice_run_def sub_def mult.commute)
  have "put (xs @ u16_to_le (word_of_nat n) @ ys) (start + j * 2) (u16_to_le w) = xs @ u16_to_le w @ ys" for w
    using Nil(2) by (simp add: put_def mult.commute)
  moreover have "(word_of_nat n - word_of_nat delta :: u16) = word_of_nat (n - delta)"
    using Nil(1) by (simp add: of_nat_diff)
  ultimately show ?case
    using read Nil(2) by (simp add: copy_from_slice_def)
next
  case (Cons c cq)
  let ?rest = "offset_table (n + length c) cq @ ys"
  have up: "[j..<j + length (c # cq) + 1] = j # [Suc j..<Suc j + length cq + 1]"
    by (subst upt_conv_Cons) simp_all
  have read: "read_u16 (xs @ u16_to_le (word_of_nat n) @ ?rest) (start + j * 2) = Some (word_of_nat n)"
    using Cons.prems(2) by (simp add: read_u16_def slice_run_def sub_def mult.commute)
  have wr: "copy_from_slice (xs @ u16_to_le (word_of_nat n) @ ?rest) (start + j * 2) (u16_to_le w) =
      Some (xs @ u16_to_le w @ ?rest)" for w
    using Cons.prems(2) by (simp add: copy_from_slice_def put_def mult.commute)
  have d: "(word_of_nat n - word_of_nat delta :: u16) = word_of_nat (n - delta)"
    using Cons.prems(1) by (simp add: of_nat_diff)
  have "n + length c - delta = n - delta + length c" using Cons.prems(1) by simp
  then have IH: "shift_offsets (xs @ u16_to_le (word_of_nat (n - delta)) @ ?rest) start delta
      [Suc j..<Suc j + length cq + 1] = Some (xs @ offset_table (n - delta) (c # cq) @ ys)"
    using Cons.IH [of "n + length c" "Suc j" "xs @ u16_to_le (word_of_nat (n - delta))"] Cons.prems
    by (simp del: upt_Suc)
  show ?case
    unfolding up shift_offsets.simps offset_table.simps append_assoc read wr d Option.bind_lunit IH
    by (simp only: offset_table.simps append_assoc)
qed

lemma bitmap_rep_patch:
  assumes "bitmap_rep n P bm" "i < 8 * n"
  shows "bitmap_rep n (\<lambda>j. if j = i then b else P j)
    (bm[i div 8 := (if b then bm ! (i div 8) OR push_bit (i mod 8) 1
                    else bm ! (i div 8) AND NOT (push_bit (i mod 8) 1))])"
proof -
  have i: "i div 8 < length bm" using assms div8_less by (simp add: bitmap_rep_def)
  define mask where "mask = push_bit (i mod 8) (1 :: u8)"
  have "bit (bm[i div 8 := (if b then bm ! (i div 8) OR mask else bm ! (i div 8) AND NOT mask)] ! (j div 8)) (j mod 8) \<longleftrightarrow>
      (if j = i then b else P j)" if j: "j < 8 * n" for j
  proof (cases "j div 8 = i div 8")
    case True
    have eq: "j mod 8 = i mod 8 \<longleftrightarrow> j = i" using True by (metis div_mult_mod_eq)
    have "bit mask (j mod 8) \<longleftrightarrow> j = i"
      unfolding eq [symmetric] mask_def by (auto simp: bit_simps)
    moreover have "bit (bm ! (i div 8)) (j mod 8) \<longleftrightarrow> P j"
      using assms(1) j True by (auto simp: bitmap_rep_def)
    ultimately show ?thesis
      using i by (simp add: True bit_or_iff bit_and_iff bit_not_iff) auto
  next
    case False
    then show ?thesis using assms(1) j by (auto simp: bitmap_rep_def)
  qed
  with assms(1) show ?thesis unfolding mask_def by (simp add: bitmap_rep_def)
qed

lemma var_cells_update:
  assumes "length vs = length cs" "length sp = var_count cs" "i < length cs" "is_var (cs ! i)"
  shows "var_cells cs (vs[i := v]) sp =
    (var_cells cs vs sp)[var_count (take i cs) := var_cell (sp ! var_count (take i cs)) v]"
  using assms
proof (induction cs vs sp arbitrary: i rule: var_cells.induct)
  case (1 c cs v0 vs sp)
  show ?case
  proof (cases i)
    case 0
    with 1 show ?thesis by (cases sp) auto
  next
    case (Suc j)
    with 1 show ?thesis by (cases sp) auto
  qed
qed auto

lemma fixed_cells_update:
  assumes "length vs = length cs" "i < length cs" "is_var (cs ! i)"
  shows "fixed_cells cs (vs[i := v]) = fixed_cells cs vs"
  using assms
proof (induction cs arbitrary: vs i)
  case (Cons c cs)
  then obtain w ws where "vs = w # ws" by (cases vs) auto
  with Cons show ?case by (cases i) (auto simp: fixed_cell_def)
qed simp

text \<open>The row as the patch sees it: the regions around the patched value.\<close>

definition patched_regions :: "bytes \<Rightarrow> bytes \<Rightarrow> bytes \<Rightarrow> bytes \<Rightarrow> bytes list \<Rightarrow> bytes \<Rightarrow> bytes list \<Rightarrow> bytes" where
  "patched_regions pfx u nb f cp b cq =
     pfx @ u @ nb @ f @ offset_table 0 cp @ offset_table (cells_len cp + length b) cq @ concat cp @ b @ concat cq"

lemma patch_data:
  fixes xs old new vt :: bytes
  assumes len: "length new \<le> length old"
    and start: "abs_start = length xs" "abs_end = length xs + length old"
  defines "row \<equiv> xs @ old @ vt" and "delta \<equiv> length old - length new"
  shows "\<exists>junk. length junk = delta \<and> copy_from_slice row abs_start new = Some (xs @ new @ drop (length new) old @ vt) \<and>
    copy_within (xs @ new @ drop (length new) old @ vt) abs_end (length row) (abs_start + length new) =
      Some (xs @ new @ vt @ junk)"
proof -
  let ?r = "xs @ new @ drop (length new) old @ vt"
  let ?junk = "drop (length vt) (drop (length new) old @ vt)"
  have "sub ?r abs_end (length row - abs_end) = vt"
    using len by (simp add: sub_def start row_def)
  moreover have "put ?r (abs_start + length new) vt = xs @ new @ vt @ ?junk"
    by (simp add: put_def start)
  ultimately have "copy_within ?r abs_end (length row) (abs_start + length new) = Some (xs @ new @ vt @ ?junk)"
    using len by (simp add: copy_within_def start row_def)
  moreover have "copy_from_slice row abs_start new = Some ?r"
    using len by (simp add: copy_from_slice_def put_def start row_def)
  moreover have "length ?junk = delta" using len by (simp add: delta_def)
  ultimately show ?thesis by blast
qed

lemma region_offsets:
  fixes pfx u nb f old :: bytes and cp cq :: "bytes list"
  assumes "length pfx = 6" "length u = 2" "cells_len cp + length old \<le> 65535"
  defines "row \<equiv> patched_regions pfx u nb f cp old cq" and "ts \<equiv> 8 + length nb + length f"
  shows "read_u16 row (ts + length cp * 2) = Some (word_of_nat (cells_len cp))"
    and "read_u16 row (ts + (length cp + 1) * 2) = Some (word_of_nat (cells_len cp + length old))"
proof -
  let ?x = "pfx @ u @ nb @ f" and ?d = "concat cp @ old @ concat cq"
  let ?t = "offset_table (cells_len cp + length old) cq"
  have row: "row = ?x @ offset_table 0 cp @ ?t @ ?d" by (simp add: row_def patched_regions_def)
  have x: "length ?x = ts" using assms by (simp add: ts_def)
  have "sub row (ts + length cp * 2) 2 = u16_to_le (word_of_nat (cells_len cp))"
    using sub_offset_table [of "length cp" cp 0] x unfolding row
    by (subst sub_middle [of _ _ "2 * length cp"]) auto
  moreover have "sub row (ts + (length cp + 1) * 2) 2 = u16_to_le (word_of_nat (cells_len cp + length old))"
    using sub_offset_table [of 0 cq "cells_len cp + length old"] x
      sub_middle [of "ts + (length cp + 1) * 2" "?x @ offset_table 0 cp" 0 2 ?t ?d]
    unfolding row by simp
  moreover have "ts + (length cp + 1) * 2 + 2 \<le> length row" using x by (simp add: row)
  ultimately show "read_u16 row (ts + length cp * 2) = Some (word_of_nat (cells_len cp))"
    "read_u16 row (ts + (length cp + 1) * 2) = Some (word_of_nat (cells_len cp + length old))"
    by (simp_all add: read_u16_def slice_run_def)
qed

lemma patch_regions:
  fixes pfx u nb f old :: bytes
  assumes len6: "length pfx = 6" "length u = 2"
    and v1: "\<not> row_is_v2 row" "row_body_offset row = Inr 6"
    and lay: "index_run (var_index lay) i = Some (Some (length cp))" "n_var lay = length cp + 1 + length cq"
      "bitmap_size lay = length nb" "fixed_region_size lay = length f"
    and i: "i div 8 < length nb" and len: "cells_len cp + length old \<le> 65535"
    and row: "row = patched_regions pfx u nb f cp old cq"
    and new: "new = (case nv of None \<Rightarrow> [] | Some v \<Rightarrow> v)" "length new \<le> length old"
  defines "delta \<equiv> length old - length new"
    and "nb' \<equiv> nb[i div 8 := (if nv = None then nb ! (i div 8) OR push_bit (i mod 8) 1
                    else nb ! (i div 8) AND NOT (push_bit (i mod 8) 1))]"
  shows "\<exists>junk. length junk = delta \<and> patch_var_column_in_place row lay i nv =
    Some (patched_regions pfx (u16_to_le (word_of_nat (length row - delta - 6))) nb' f cp new cq @ junk,
          Some (word_of_nat (length row - delta)))"
proof -
  let ?ts = "8 + length nb + length f"
  let ?vds = "?ts + (length cp + 1 + length cq + 1) * 2"
  let ?n = "cells_len cp + length old"
  let ?x = "pfx @ u @ nb @ f @ offset_table 0 cp"
  let ?xs = "?x @ offset_table ?n cq @ concat cp"
  note reads = region_offsets [OF len6 len, of nb f cq, folded row]
  have ts: "6 + 2 + bitmap_size lay + fixed_region_size lay = ?ts" by (simp add: lay)
  have vds: "?vds + cells_len cp = length ?xs" using len6 by (simp add: length_concat_cells)
  have rowx: "row = ?xs @ old @ concat cq" by (simp add: row patched_regions_def)
  have old: "usize_sub ?n (cells_len cp) = length old"
    "unat (word_of_nat ?n :: u16) = ?n" "unat (word_of_nat (cells_len cp) :: u16) = cells_len cp"
    using len by (simp_all add: usize_sub_def del: of_nat_add)
  obtain junk where junk: "length junk = delta"
    "copy_from_slice row (?vds + cells_len cp) new = Some (?xs @ new @ drop (length new) old @ concat cq)"
    "copy_within (?xs @ new @ drop (length new) old @ concat cq) (?vds + ?n) (length row)
       (?vds + cells_len cp + length new) = Some (?xs @ new @ concat cq @ junk)"
    using patch_data [OF new(2) vds, of "?vds + ?n" "concat cq"] vds unfolding rowx delta_def by auto
  have sh: "shift_offsets (?xs @ new @ concat cq @ junk) ?ts delta [length cp + 1..<length cp + 1 + length cq + 1] =
      Some (?x @ offset_table (cells_len cp + length new) cq @ concat cp @ new @ concat cq @ junk)"
  proof -
    have "?n - delta = cells_len cp + length new" using new(2) by (simp add: delta_def)
    moreover have "?ts + 2 * (length cp + 1) = length ?x" using len6 by simp
    ultimately show ?thesis
      using shift_offsets_table [of delta ?n ?ts "length cp + 1" ?x cq "concat cp @ new @ concat cq @ junk"]
      by (simp add: delta_def)
  qed
  let ?r2 = "pfx @ u @ nb @ f @ offset_table 0 cp @ offset_table (cells_len cp + length new) cq
     @ concat cp @ new @ concat cq @ junk"
  have r1: "(case nv of Some v \<Rightarrow> copy_from_slice row (?vds + cells_len cp) v | None \<Rightarrow> Some row) =
      Some (?xs @ new @ drop (length new) old @ concat cq)"
    using junk(2) new by (cases nv) (simp_all add: rowx)
  have r2: "(if delta > 0 then copy_within (?xs @ new @ drop (length new) old @ concat cq) (?vds + ?n) (length row)
       (?vds + cells_len cp + length new) \<bind> (\<lambda>x. shift_offsets x ?ts delta [length cp + 1..<length cp + 1 + length cq + 1])
      else Some (?xs @ new @ drop (length new) old @ concat cq)) = Some ?r2"
  proof (cases "delta > 0")
    case True
    then show ?thesis using junk(3) sh by simp
  next
    case False
    then have "length new = length old" "junk = []" using new(2) junk(1) by (simp_all add: delta_def)
    then show ?thesis by (simp add: delta_def)
  qed
  let ?tail = "f @ offset_table 0 cp @ offset_table (cells_len cp + length new) cq @ concat cp @ new @ concat cq @ junk"
  have byte: "index_run ?r2 (6 + 2 + i div 8) = Some (nb ! (i div 8))"
    using i len6 by (simp add: index_run_def nth_append)
  have upd: "?r2[6 + 2 + i div 8 := b] = pfx @ u @ nb[i div 8 := b] @ ?tail" for b
    using i len6 by (simp add: list_update_append)
  have pre: "copy_from_slice (pfx @ u @ xs) 6 (u16_to_le w) = Some (pfx @ u16_to_le w @ xs)" for xs w
    using len6 by (simp add: copy_from_slice_def put_def)
  have subs: "usize_sub (length row) delta = length row - delta"
    "usize_sub (length row - delta) 6 = length row - delta - 6"
    using len6 by (simp_all add: usize_sub_def rowx delta_def)
  have nvl: "(case nv of None \<Rightarrow> 0 | Some v \<Rightarrow> length v) = length new" by (cases nv) (simp_all add: new)
  have "patch_var_column_in_place row lay i nv =
    Some (pfx @ u16_to_le (word_of_nat (length row - delta - 6)) @ nb' @ ?tail, Some (word_of_nat (length row - delta)))"
    unfolding patch_var_column_in_place_def Let_def v1(2) sum.case lay(1,2) Option.bind_lunit ts reads old nvl
    unfolding delta_def [symmetric] r1 r2 byte upd pre subs Option.bind_lunit
    using v1(1) new(2) by (simp add: nb'_def)
  with junk(1) show ?thesis by (auto simp: patched_regions_def)
qed

lemma patch_grows:
  assumes "length pfx = 6" "length u = 2" "\<not> row_is_v2 row" "row_body_offset row = Inr 6"
    and "index_run (var_index lay) i = Some (Some (length cp))"
    and "bitmap_size lay = length nb" "fixed_region_size lay = length f"
    and "cells_len cp + length old \<le> 65535" "row = patched_regions pfx u nb f cp old cq"
    and "new = (case nv of None \<Rightarrow> [] | Some v \<Rightarrow> v)" "length old < length new"
  shows "patch_var_column_in_place row lay i nv = Some (row, None)"
proof -
  have "(case nv of None \<Rightarrow> 0 | Some v \<Rightarrow> length v) = length new" using assms(10) by (cases nv) simp_all
  moreover have "usize_sub (cells_len cp + length old) (cells_len cp) = length old" by (simp add: usize_sub_def)
  moreover note region_offsets [OF assms(1,2,8), of nb f cq, folded assms(9)]
  ultimately show ?thesis
    using assms(3-8,11) by (simp add: patch_var_column_in_place_def del: of_nat_add)
qed

subsection \<open>The length of a v1 row\<close>

lemma saturating_fold:
  "acc \<le> 2 ^ 64 - 1 \<Longrightarrow>
   foldl (\<lambda>acc v. case var_len v of None \<Rightarrow> acc | Some n \<Rightarrow> saturating_add acc n) acc vs =
   min (acc + (\<Sum>v \<leftarrow> vs. length (payload v))) (2 ^ 64 - 1)"
proof (induction vs arbitrary: acc)
  case (Cons v vs)
  have step: "(case var_len v of None \<Rightarrow> acc | Some n \<Rightarrow> saturating_add acc n) =
      min (acc + length (payload v)) (2 ^ 64 - 1)"
    using Cons.prems by (cases v) (simp_all add: saturating_add_def)
  show ?case
    unfolding foldl_Cons step
    using Cons.IH [of "min (acc + length (payload v)) (2 ^ 64 - 1)"] by (simp add: min_def)
qed simp

lemma v1_encoded_len_eq:
  assumes "conforms (columns sc) vs" "v1_encoded_len (row_layout_new sc) vs < 2 ^ 64"
  shows "v1_encoded_len (row_layout_new sc) vs = 6 + v1_total (columns sc) vs"
proof -
  have "(\<Sum>v \<leftarrow> vs. length (payload v)) = cells_len (v1_cells (columns sc) vs)"
    using payload_sum [OF assms(1), of "replicate (var_count (columns sc)) None"] by (simp add: v1_cells_def)
  with saturating_fold [of 0 vs] assms(2) show ?thesis
    by (auto simp: v1_encoded_len_def Let_def layout_simps_new(3-6) v1_total_def ROW_PREFIX_SIZE_def min_def
        split: if_splits)
qed

lemma row_image_regions:
  assumes "cells = cp @ old # cq"
  shows "row_image 1 nb [] cs vs cells = patched_regions (ROW_MAGIC @ u16_to_le 1)
    (u16_to_le (word_of_nat (2 + length nb + fixed_len cs + 2 * (length cells + 1) + cells_len cells)))
    nb (fixed_cells cs vs) cp old cq"
  by (simp add: row_image_def row_body_image_def patched_regions_def assms offset_table_append Let_def)

lemma length_row_image:
  assumes "conforms cs vs" "length cells = var_count cs"
  shows "length (row_image 1 nb [] cs vs cells) =
    8 + length nb + fixed_len cs + 2 * (var_count cs + 1) + cells_len cells"
  using image_body_length [OF assms, of nb "[]"] by (simp add: row_image_def ROW_MAGIC_def)

lemma conforms_update:
  "conforms cs vs \<Longrightarrow> i < length cs \<Longrightarrow> value_fits (col_type (cs ! i)) v \<Longrightarrow> conforms cs (vs[i := v])"
  by (auto simp: conforms_def list_all2_conv_all_nth nth_list_update)

lemma image_body_offset: "row_body_offset (row_image 1 nb [] cs vs cells) = Inr 6"
proof -
  have "sub (row_image 1 nb [] cs vs cells) 4 2 = u16_to_le 1"
    by (simp add: row_image_def ROW_MAGIC_def sub_def)
  then show ?thesis
    using image_prefix(1) [of 1 nb "[]" cs vs cells]
    by (simp add: row_body_offset_def row_format_version_def MAX_ROW_FORMAT_VERSION_def
        ROW_FORMAT_VERSION_V2_def layout_simps)
qed

lemma null_bits_update:
  assumes "bitmap_rep n (null_at vs) nb" "i < length vs" "length vs \<le> 8 * n"
  shows "bitmap_rep n (null_at (vs[i := v])) (nb[i div 8 :=
    (if v = VEmpty then nb ! (i div 8) OR push_bit (i mod 8) 1 else nb ! (i div 8) AND NOT (push_bit (i mod 8) 1))])"
  by (rule bitmap_rep_cong [OF bitmap_rep_patch [OF assms(1), of i "v = VEmpty"]])
    (use assms in \<open>auto simp: null_at_def\<close>)

theorem patch_matches_encode:
  assumes cf: "conforms (columns sc) vs" and fits: "v1_encoded_len (row_layout_new sc) vs \<le> 65535"
    and i: "i < length (columns sc)" and var: "is_var (columns sc ! i)"
    and v: "value_fits (col_type (columns sc ! i)) v" and row: "encode_row sc vs = Some row"
  defines "nv \<equiv> (if v = VEmpty then None else Some (payload v))"
  shows "if length (payload v) > length (payload (vs ! i))
     then patch_var_column_in_place row (row_layout_new sc) i nv = Some (row, None)
     else \<exists>row' n. patch_var_column_in_place row (row_layout_new sc) i nv = Some (row', Some n) \<and>
            encode_row sc (vs[i := v]) = Some (take (unat n) row')"
proof -
  let ?cols = "columns sc" and ?cells = "v1_cells (columns sc) vs" and ?k = "var_count (take i (columns sc))"
  have lv: "length vs = length ?cols" using cf by (simp add: conforms_def list_all2_lengthD)
  have n: "length ?cells = var_count ?cols" using lv by (simp add: v1_cells_def)
  have k: "?k < var_count ?cols" using var_count_take_less [OF i var] .
  have total: "6 + v1_total ?cols vs \<le> 65535" using v1_encoded_len_eq [OF cf] fits by simp
  then have len: "cells_len ?cells \<le> 65535" by (simp add: v1_total_def)
  obtain nb where nb: "bitmap_rep (div_ceil8 (length ?cols)) (null_at vs) nb"
    and img: "row = row_image 1 nb [] ?cols vs ?cells"
    using encode_row_image [OF cf len] row by (auto simp: encode_row_def encode_row_into_def)
  define cp where "cp = take ?k ?cells"
  define cq where "cq = drop (Suc ?k) ?cells"
  define old where "old = payload (vs ! i)"
  have cell: "?cells ! ?k = old"
    using var_cells_nth [OF lv _ i var, of "replicate (var_count ?cols) None"] k
    by (simp add: v1_cells_def var_cell_def old_def)
  have split: "?cells = cp @ old # cq"
    using id_take_nth_drop [of ?k ?cells] k n by (simp add: cp_def cq_def cell)
  let ?pfx = "ROW_MAGIC @ u16_to_le 1"
  let ?u = "\<lambda>cells. u16_to_le (word_of_nat (2 + length nb + fixed_len ?cols + 2 * (length cells + 1) + cells_len cells))"
  have lnb: "length nb = div_ceil8 (length ?cols)" using nb by (simp add: bitmap_rep_def)
  have pfx: "length ?pfx = 6" "length (?u c) = 2" for c by (simp_all add: ROW_MAGIC_def)
  have regs: "row = patched_regions ?pfx (?u ?cells) nb (fixed_cells ?cols vs) cp old cq"
    unfolding img by (rule row_image_regions [OF split])
  have v1: "\<not> row_is_v2 row" "row_body_offset row = Inr 6"
    unfolding img by (simp_all add: image_prefix image_body_offset)
  have cpk: "length cp = ?k" "length cq = var_count ?cols - Suc ?k" using k n by (simp_all add: cp_def cq_def)
  then have lay: "index_run (var_index (row_layout_new sc)) i = Some (Some (length cp))"
    "n_var (row_layout_new sc) = length cp + 1 + length cq" "bitmap_size (row_layout_new sc) = length nb"
    "fixed_region_size (row_layout_new sc) = length (fixed_cells ?cols vs)"
    using layout_at(2) [OF i] var k cf lnb by (simp_all add: layout_simps_new(3-6))
  have i8: "i div 8 < length nb" using i lnb div_ceil8_bound by simp
  have co: "cells_len cp + length old \<le> 65535" using len by (simp add: split cells_len_def)
  have new: "payload v = (case nv of None \<Rightarrow> [] | Some b \<Rightarrow> b)" by (simp add: nv_def)
  show ?thesis
  proof (cases "length (payload v) > length old")
    case True
    then show ?thesis
      using patch_grows [OF pfx v1 lay(1,3,4) co regs new True] by (simp add: old_def)
  next
    case False
    then have le: "length (payload v) \<le> length old" by simp
    let ?d = "length old - length (payload v)" and ?vs = "vs[i := v]"
    have cells': "v1_cells ?cols ?vs = cp @ payload v # cq"
    proof -
      have "v1_cells ?cols ?vs = ?cells[?k := payload v]"
        using var_cells_update [OF lv _ i var, of "replicate (var_count ?cols) None" v] k
        by (simp add: v1_cells_def var_cell_def)
      then show ?thesis using cpk by (simp add: split list_update_append)
    qed
    have cf': "conforms ?cols ?vs" using conforms_update [OF cf i v] .
    have len': "cells_len (v1_cells ?cols ?vs) \<le> 65535"
      using len le by (simp add: cells' split cells_len_def)
    obtain nb2 where nb2: "bitmap_rep (div_ceil8 (length ?cols)) (null_at ?vs) nb2"
      "encode_row sc ?vs = Some (row_image 1 nb2 [] ?cols ?vs (v1_cells ?cols ?vs))"
      using encode_row_image [OF cf' len'] by (auto simp: encode_row_def encode_row_into_def)
    have nbeq: "nb2 = nb[i div 8 := (if nv = None then nb ! (i div 8) OR push_bit (i mod 8) 1
        else nb ! (i div 8) AND NOT (push_bit (i mod 8) 1))]"
      using bitmap_rep_unique [OF nb2(1)] null_bits_update [OF nb, of i v] i lv div_ceil8_cover [of "length ?cols"]
      by (simp add: nv_def)
    have lrow: "length row = 6 + v1_total ?cols vs"
      unfolding img using length_row_image [OF cf n] lnb by (simp add: v1_total_def)
    have d: "v1_total ?cols vs - ?d =
        2 + length nb2 + fixed_len ?cols + 2 * (length (v1_cells ?cols ?vs) + 1) + cells_len (v1_cells ?cols ?vs)"
      using le cpk k lnb by (simp add: v1_total_def split cells' cells_len_def nbeq)
    obtain junk where junk: "length junk = ?d" "patch_var_column_in_place row (row_layout_new sc) i nv =
      Some (row_image 1 nb2 [] ?cols ?vs (v1_cells ?cols ?vs) @ junk, Some (word_of_nat (length row - ?d)))"
      using patch_regions [OF pfx v1 lay i8 co regs new le] lrow d
      unfolding row_image_regions [OF cells'] nbeq fixed_cells_update [OF lv i var] by auto
    have "length (row_image 1 nb2 [] ?cols ?vs (v1_cells ?cols ?vs)) = length row - ?d"
      using length_row_image [OF cf', of "v1_cells ?cols ?vs" nb2] cpk k d lrow
      by (simp add: cells')
    moreover have "unat (word_of_nat (length row - ?d) :: u16) = length row - ?d"
      using total lrow by simp
    ultimately show ?thesis
      using False junk nb2(2) by (simp add: old_def)
  qed
qed

end
