(* ===== verification/Row_Spill.thy ===== *)
theory Row_Spill
  imports Row_Patch "HOL-Library.Multiset"
begin

text \<open>
  The spill planner: which values move out of line so that the v2 row fits in a page.
\<close>

subsection \<open>The candidates\<close>

definition spillable :: "schema \<Rightarrow> val list \<Rightarrow> nat \<Rightarrow> bool" where
  "spillable sc vs i \<longleftrightarrow> is_var (columns sc ! i) \<and> payload (vs ! i) \<noteq> []"

lemma spill_candidates_eq:
  assumes "conforms (drop i (columns sc)) vs" "i \<le> length (columns sc)"
  shows "spill_candidates (row_layout_new sc) i vs =
    Some (map (\<lambda>j. (i + j, length (payload (vs ! j))))
       (filter (\<lambda>j. is_var (columns sc ! (i + j)) \<and> payload (vs ! j) \<noteq> []) [0..<length vs]))"
  using assms
proof (induction vs arbitrary: i)
  case (Cons v vs)
  from Cons.prems have i: "i < length (columns sc)"
    by (cases "i = length (columns sc)") (auto simp: conforms_def)
  then have dr: "drop i (columns sc) = columns sc ! i # drop (Suc i) (columns sc)"
    by (simp add: Cons_nth_drop_Suc)
  have fit: "value_fits (col_type (columns sc ! i)) v" and rest: "conforms (drop (Suc i) (columns sc)) vs"
    using Cons.prems(1) by (simp_all add: dr conforms_def)
  have up: "[0..<length (v # vs)] = 0 # map Suc [0..<length vs]"
    by (simp add: upt_conv_Cons map_Suc_upt del: upt_Suc)
  have len: "is_var (columns sc ! i) \<Longrightarrow> var_len v = (if v = VEmpty then None else Some (length (payload v)))"
    "v = VEmpty \<Longrightarrow> payload v = []"
    using fit by (auto simp: is_var_def value_fits_def split: if_splits; cases v; auto)+
  show ?case
    using Cons.IH [OF rest] i len fit unfolding up
    by (auto simp: layout_at [OF i] filter_map comp_def)
qed simp

lemma choose_spills_prefix:
  assumes "(\<Sum>(i, n) \<leftarrow> cands. n - 24) \<le> est"
  shows "\<exists>m. m \<le> length cands \<and> choose_spills est cands = map fst (take m cands) \<and>
    (m = length cands \<or> est - (\<Sum>(i, n) \<leftarrow> take m cands. n - 24) \<le> MAX_ROW_DATA_SIZE)"
  using assms
proof (induction cands arbitrary: est)
  case (Cons c cands)
  obtain i n where c: "c = (i, n)" by (cases c)
  show ?case
  proof (cases "est \<le> MAX_ROW_DATA_SIZE")
    case True
    then show ?thesis by (intro exI [of _ 0]) (simp add: c)
  next
    case False
    have "usize_sub est (n - 24) = est - (n - 24)" using Cons.prems by (simp add: usize_sub_def c)
    moreover have "(\<Sum>(i, n) \<leftarrow> cands. n - 24) \<le> est - (n - 24)" using Cons.prems by (simp add: c)
    from Cons.IH [OF this] obtain m where "m \<le> length cands" "choose_spills (est - (n - 24)) cands = map fst (take m cands)"
      "m = length cands \<or> est - (n - 24) - (\<Sum>(i, n) \<leftarrow> take m cands. n - 24) \<le> MAX_ROW_DATA_SIZE"
      by blast
    ultimately show ?thesis
      using False by (intro exI [of _ "Suc m"]) (auto simp: c layout_simps)
  qed
qed simp

subsection \<open>The size of a row with spilled values\<close>

lemma cells_len_sum:
  "length vs = length cs \<Longrightarrow> length sp = var_count cs \<Longrightarrow> cells_len (var_cells cs vs sp) =
   (\<Sum>i < length cs. if is_var (cs ! i) then length (var_cell (sp ! var_count (take i cs)) (vs ! i)) else 0)"
proof (induction cs vs sp rule: var_cells.induct)
  case (1 c cs v vs sp)
  show ?case
  proof (cases "is_var c")
    case True
    then obtain s sp' where "sp = s # sp'" using 1 by (cases sp) auto
    with 1 True show ?thesis by (simp add: sum.lessThan_Suc_shift del: sum.lessThan_Suc cong: if_cong)
  next
    case False
    with 1 show ?thesis by (simp add: sum.lessThan_Suc_shift del: sum.lessThan_Suc cong: if_cong)
  qed
qed auto

definition spills_exactly :: "column_def list \<Rightarrow> overflow_stub option list \<Rightarrow> nat set \<Rightarrow> bool" where
  "spills_exactly cs sp S \<longleftrightarrow> length sp = var_count cs \<and>
     (\<forall>i < length cs. is_var (cs ! i) \<longrightarrow> (sp ! var_count (take i cs) \<noteq> None \<longleftrightarrow> i \<in> S))"

lemma spilled_size:
  assumes cf: "conforms cs vs" and sp: "spills_exactly cs sp S"
    and S: "\<And>i. i \<in> S \<Longrightarrow> i < length cs \<and> is_var (cs ! i) \<and> 24 \<le> length (payload (vs ! i))"
  shows "cells_len (var_cells cs vs sp) + (\<Sum>i \<in> S. length (payload (vs ! i)) - 24) = cells_len (v1_cells cs vs)"
proof -
  let ?g = "\<lambda>sp i. if is_var (cs ! i) then length (var_cell (sp ! var_count (take i cs)) (vs ! i)) else 0"
  let ?none = "replicate (var_count cs) None"
  have lv: "length vs = length cs" using cf by (simp add: conforms_def list_all2_lengthD)
  have lsp: "length sp = var_count cs" using sp by (simp add: spills_exactly_def)
  have SS: "S \<subseteq> {..<length cs}" using S by auto
  have "(\<Sum>i < length cs. ?g sp i) + (\<Sum>i < length cs. if i \<in> S then length (payload (vs ! i)) - 24 else 0) =
      (\<Sum>i < length cs. ?g ?none i)"
    unfolding sum.distrib [symmetric]
  proof (rule sum.cong [OF refl])
    fix i assume "i \<in> {..<length cs}"
    then have i: "i < length cs" by simp
    show "?g sp i + (if i \<in> S then length (payload (vs ! i)) - 24 else 0) = ?g ?none i"
    proof (cases "is_var (cs ! i)")
      case True
      have "var_count (take i cs) < var_count cs" using var_count_take_less [OF i True] .
      moreover have "sp ! var_count (take i cs) \<noteq> None \<longleftrightarrow> i \<in> S" using sp i True by (simp add: spills_exactly_def)
      ultimately show ?thesis
        using True S [of i] by (cases "sp ! var_count (take i cs)") (auto simp: var_cell_def)
    qed (use S in auto)
  qed
  moreover have "(\<Sum>i < length cs. if i \<in> S then length (payload (vs ! i)) - 24 else 0) =
      (\<Sum>i \<in> S. length (payload (vs ! i)) - 24)"
    using SS by (simp add: sum.If_cases Int_absorb1)
  ultimately show ?thesis
    using cells_len_sum [OF lv lsp] cells_len_sum [OF lv, of ?none] by (simp add: v1_cells_def)
qed

lemma length_row_v2:
  assumes "conforms (columns sc) vs" "spills_ok (columns sc) vs sp" "cells_len (var_cells (columns sc) vs sp) \<le> 65535"
  shows "\<exists>row. encode_row_v2_into sc (row_layout_new sc) vs sp = Some row \<and>
    length row = 8 + div_ceil8 (length (columns sc)) + div_ceil8 (var_count (columns sc)) + fixed_len (columns sc)
      + 2 * (var_count (columns sc) + 1) + cells_len (var_cells (columns sc) vs sp)"
proof -
  have n: "length (var_cells (columns sc) vs sp) = var_count (columns sc)"
    using assms(1) by (simp add: conforms_def list_all2_lengthD)
  from encode_row_v2_image [OF assms] obtain nb ob where
    "bitmap_rep (div_ceil8 (length (columns sc))) (null_at vs) nb"
    "bitmap_rep (div_ceil8 (var_count (columns sc))) (spilled_at sp) ob"
    "encode_row_v2_into sc (row_layout_new sc) vs sp =
      Some (row_image 2 nb ob (columns sc) vs (var_cells (columns sc) vs sp))" by blast
  then show ?thesis
    using image_body_length [OF assms(1) n, of nb ob]
    by (simp add: row_image_def ROW_MAGIC_def bitmap_rep_def)
qed

subsection \<open>The plan\<close>

lemma candidate_list:
  fixes vs :: "val list" and sc :: schema
  defines "cands \<equiv> map (\<lambda>j. (j, length (payload (vs ! j)))) (filter (spillable sc vs) [0..<length vs])"
  shows "set (map fst cands) = {i. i < length vs \<and> spillable sc vs i}" "distinct (map fst cands)"
    "\<forall>p \<in> set cands. snd p = length (payload (vs ! fst p))"
    "(\<Sum>(i, n) \<leftarrow> cands. n - 24) \<le> (\<Sum>v \<leftarrow> vs. length (payload v))"
proof -
  have "(\<Sum>(i, n) \<leftarrow> cands. n - 24) \<le> (\<Sum>j \<leftarrow> filter (spillable sc vs) [0..<length vs]. length (payload (vs ! j)))"
    unfolding cands_def by (induction "[0..<length vs]") (auto simp: comp_def intro!: sum_list_mono)
  also have "\<dots> \<le> (\<Sum>j \<leftarrow> [0..<length vs]. length (payload (vs ! j)))" by (rule sum_list_filter_le_nat)
  also have "\<dots> = (\<Sum>v \<leftarrow> map ((!) vs) [0..<length vs]. length (payload v))" by (simp add: comp_def)
  finally show "(\<Sum>(i, n) \<leftarrow> cands. n - 24) \<le> (\<Sum>v \<leftarrow> vs. length (payload v))" by (simp add: map_nth)
qed (auto simp: cands_def comp_def)

lemma sum_list_of_pairs:
  assumes "\<forall>p \<in> set ps. snd p = g (fst p)" "distinct (map fst ps)"
  shows "(\<Sum>(i, n) \<leftarrow> ps. n - 24) = (\<Sum>i \<in> set (map fst ps). g i - (24 :: nat))"
proof -
  have "map (\<lambda>(i, n). n - 24) ps = map (\<lambda>i. g i - 24) (map fst ps)"
    using assms(1) by (auto simp: case_prod_beta)
  with assms(2) show ?thesis by (simp add: sum_list_distinct_conv_sum_set del: map_map)
qed

lemma plan_spill_cases:
  assumes cf: "conforms (columns sc) vs" and len: "v1_encoded_len (row_layout_new sc) vs < 2 ^ 64"
    and big: "MAX_ROW_DATA_SIZE < v1_encoded_len (row_layout_new sc) vs"
  obtains ps qs where "plan_spill (row_layout_new sc) vs (v1_encoded_len (row_layout_new sc) vs) idx = Some (map fst ps)"
    and "set (map fst (ps @ qs)) = {i. i < length vs \<and> spillable sc vs i}" "distinct (map fst (ps @ qs))"
    and "\<forall>p \<in> set ps. snd p = length (payload (vs ! fst p))"
    and "sorted (map (spill_key idx) (ps @ qs))"
    and "qs = [] \<or> v1_encoded_len (row_layout_new sc) vs + div_ceil8 (var_count (columns sc)) \<le>
       (\<Sum>(i, n) \<leftarrow> ps. n - 24) + MAX_ROW_DATA_SIZE"
proof -
  let ?len = "v1_encoded_len (row_layout_new sc) vs"
  define cands where "cands = map (\<lambda>j. (j, length (payload (vs ! j)))) (filter (spillable sc vs) [0..<length vs])"
  note cl = candidate_list [where sc = sc and vs = vs, folded cands_def]
  let ?S = "sort_key (spill_key idx) cands" and ?est = "?len + div_ceil8 (var_count (columns sc))"
  have "(\<Sum>v \<leftarrow> vs. length (payload v)) = cells_len (v1_cells (columns sc) vs)"
    using payload_sum [OF cf, of "replicate (var_count (columns sc)) None"] by (simp add: v1_cells_def)
  moreover have "(\<Sum>(i, n) \<leftarrow> ?S. n - 24) = (\<Sum>(i, n) \<leftarrow> cands. n - 24)"
    by (metis mset_map mset_sort sum_mset_sum_list)
  ultimately have "(\<Sum>(i, n) \<leftarrow> ?S. n - 24) \<le> ?est"
    using cl(4) v1_encoded_len_eq [OF cf len] by (simp add: v1_total_def)
  from choose_spills_prefix [OF this] obtain m where m: "choose_spills ?est ?S = map fst (take m ?S)"
    "m = length ?S \<or> ?est - (\<Sum>(i, n) \<leftarrow> take m ?S. n - 24) \<le> MAX_ROW_DATA_SIZE" by blast
  have "spill_candidates (row_layout_new sc) 0 vs = Some cands"
    using spill_candidates_eq [of 0 sc vs] cf by (simp add: cands_def spillable_def [abs_def])
  then have "plan_spill (row_layout_new sc) vs ?len idx = Some (map fst (take m ?S))"
    using big m(1) by (simp add: plan_spill_def layout_simps_new(3-6) overflow_bitmap_size_def)
  moreover have "distinct (map fst ?S)" using cl(2) by (simp add: distinct_map)
  moreover have "drop m ?S = [] \<or> ?est \<le> (\<Sum>(i, n) \<leftarrow> take m ?S. n - 24) + MAX_ROW_DATA_SIZE"
    using m(2) by auto
  moreover have "\<forall>p \<in> set (take m ?S). snd p = length (payload (vs ! fst p))"
    using cl(3) by (metis in_set_takeD set_sort)
  ultimately show ?thesis
    using that [of "take m ?S" "drop m ?S"] cl(1) by simp
qed

theorem plan_spill_sound:
  assumes cf: "conforms (columns sc) vs" and len: "v1_encoded_len (row_layout_new sc) vs < 2 ^ 64"
  shows "\<exists>chosen. plan_spill (row_layout_new sc) vs (v1_encoded_len (row_layout_new sc) vs) idx = Some chosen \<and>
    distinct chosen \<and> (\<forall>i \<in> set chosen. i < length vs \<and> spillable sc vs i) \<and>
    (v1_encoded_len (row_layout_new sc) vs \<le> MAX_ROW_DATA_SIZE \<longrightarrow> chosen = []) \<and>
    (\<forall>i \<in> set chosen. is_indexed_at idx i \<longrightarrow>
       (\<forall>j < length vs. spillable sc vs j \<and> \<not> is_indexed_at idx j \<longrightarrow> j \<in> set chosen)) \<and>
    (v1_encoded_len (row_layout_new sc) vs > MAX_ROW_DATA_SIZE \<and>
     (\<forall>i < length vs. spillable sc vs i \<longrightarrow> 24 \<le> length (payload (vs ! i))) \<and>
     spills_exactly (columns sc) sp (set chosen) \<longrightarrow>
       set chosen = {i. i < length vs \<and> spillable sc vs i} \<or>
       (\<exists>row. encode_row_v2_into sc (row_layout_new sc) vs sp = Some row \<and> length row \<le> MAX_ROW_DATA_SIZE))"
proof (cases "v1_encoded_len (row_layout_new sc) vs \<le> MAX_ROW_DATA_SIZE")
  case True
  then show ?thesis by (simp add: plan_spill_def)
next
  case False
  then have big: "MAX_ROW_DATA_SIZE < v1_encoded_len (row_layout_new sc) vs" by simp
  have lv: "length vs = length (columns sc)" using cf by (simp add: conforms_def list_all2_lengthD)
  obtain ps qs where plan: "plan_spill (row_layout_new sc) vs (v1_encoded_len (row_layout_new sc) vs) idx = Some (map fst ps)"
    and all: "set (map fst (ps @ qs)) = {i. i < length vs \<and> spillable sc vs i}" and dist: "distinct (map fst (ps @ qs))"
    and snd: "\<forall>p \<in> set ps. snd p = length (payload (vs ! fst p))"
    and srt: "sorted (map (spill_key idx) (ps @ qs))"
    and est: "qs = [] \<or> v1_encoded_len (row_layout_new sc) vs + div_ceil8 (var_count (columns sc)) \<le>
       (\<Sum>(i, n) \<leftarrow> ps. n - 24) + MAX_ROW_DATA_SIZE"
    using plan_spill_cases [OF cf len big] .
  have sub: "\<forall>i \<in> set (map fst ps). i < length vs \<and> spillable sc vs i" using all by auto
  have order: "j \<in> set (map fst ps)"
    if i: "i \<in> set (map fst ps)" and "is_indexed_at idx i" "j < length vs" "spillable sc vs j" "\<not> is_indexed_at idx j" for i j
  proof (rule ccontr)
    assume "j \<notin> set (map fst ps)"
    then have "j \<in> set (map fst qs)" using all that(3,4) by auto
    then obtain q where q: "q \<in> set qs" "fst q = j" by auto
    obtain p where p: "p \<in> set ps" "fst p = i" using i by auto
    have "spill_key idx p \<le> spill_key idx q" using srt p(1) q(1) by (auto simp: sorted_append)
    then show False using p(2) q(2) that(2,5) by (cases p; cases q) (simp add: spill_key_def)
  qed
  have fits: "set (map fst ps) = {i. i < length vs \<and> spillable sc vs i} \<or>
      (\<exists>row. encode_row_v2_into sc (row_layout_new sc) vs sp = Some row \<and> length row \<le> MAX_ROW_DATA_SIZE)"
    if ge: "\<forall>i < length vs. spillable sc vs i \<longrightarrow> 24 \<le> length (payload (vs ! i))"
      and ex: "spills_exactly (columns sc) sp (set (map fst ps))"
  proof (cases "qs = []")
    case True
    then show ?thesis using all by simp
  next
    case False
    let ?cells = "var_cells (columns sc) vs sp"
    have chosen: "i < length (columns sc) \<and> is_var (columns sc ! i) \<and> 24 \<le> length (payload (vs ! i))"
      if "i \<in> set (map fst ps)" for i
      using that all ge lv by (auto simp: spillable_def)
    have "cells_len ?cells + (\<Sum>(i, n) \<leftarrow> ps. n - 24) = cells_len (v1_cells (columns sc) vs)"
      using spilled_size [OF cf ex chosen] sum_list_of_pairs [OF snd] dist by simp
    then have size: "8 + div_ceil8 (length (columns sc)) + div_ceil8 (var_count (columns sc)) + fixed_len (columns sc)
        + 2 * (var_count (columns sc) + 1) + cells_len ?cells \<le> MAX_ROW_DATA_SIZE"
      using est False v1_encoded_len_eq [OF cf len] by (simp add: v1_total_def)
    have "vs ! i \<noteq> VEmpty" if "i \<in> set (map fst ps)" for i
      using bspec [OF sub that] by (auto simp: spillable_def)
    then have "spills_ok (columns sc) vs sp"
      using ex unfolding spills_exactly_def spills_ok_def by blast
    from length_row_v2 [OF cf this] size show ?thesis by (auto simp: layout_simps)
  qed
  have "distinct (map fst ps)" using dist by simp
  moreover have "\<forall>i \<in> set (map fst ps). is_indexed_at idx i \<longrightarrow>
       (\<forall>j < length vs. spillable sc vs j \<and> \<not> is_indexed_at idx j \<longrightarrow> j \<in> set (map fst ps))"
    using order by blast
  moreover have "v1_encoded_len (row_layout_new sc) vs \<le> MAX_ROW_DATA_SIZE \<longrightarrow> map fst ps = []" using big by simp
  ultimately show ?thesis
    using plan sub by (intro exI [of _ "map fst ps"] conjI) (assumption | use fits in blast)+
qed

end
