(* ===== verification/Row_Correct.thy ===== *)
theory Row_Correct
  imports Row_Spill
begin

text \<open>
  The properties of the row format: round trips in both versions, agreement of the decoders, the
  in-place column patch, and the spill planner.
\<close>

subsection \<open>The stubs of a row\<close>

definition stub_at :: "column_def list \<Rightarrow> overflow_stub option list \<Rightarrow> nat \<Rightarrow> overflow_stub option" where
  "stub_at cs sp i = (if i < length cs \<and> is_var (cs ! i) then sp ! var_count (take i cs) else None)"

definition stub_versions_ok :: "overflow_stub option list \<Rightarrow> bool" where
  "stub_versions_ok sp \<longleftrightarrow> (\<forall>stub. Some stub \<in> set sp \<longrightarrow> stub_version stub = OVERFLOW_STUB_VERSION)"

lemma raw_stub_image:
  assumes cf: "conforms (columns sc) vs" and sp: "length sp = var_count (columns sc)" "stub_versions_ok sp"
    and len: "cells_len (var_cells (columns sc) vs sp) \<le> 65535"
    and nb: "bitmap_rep (div_ceil8 (length (columns sc))) (null_at vs) nb"
    and ob: "bitmap_rep (div_ceil8 (var_count (columns sc))) (spilled_at sp) ob"
  shows "raw_stub sc (row_layout_new sc) (row_image 2 nb ob (columns sc) vs (var_cells (columns sc) vs sp)) i =
    Some (stub_at (columns sc) sp i)"
proof (cases "i < length (columns sc) \<and> is_var (columns sc ! i)")
  case False
  then show ?thesis
    by (auto simp: raw_stub_def stub_at_def image_prefix layout_at)
next
  case True
  then have i: "i < length (columns sc)" and var: "is_var (columns sc ! i)" by auto
  let ?cols = "columns sc" and ?cells = "var_cells (columns sc) vs sp" and ?k = "var_count (take i (columns sc))"
  have lv: "length vs = length ?cols" using cf by (simp add: conforms_def list_all2_lengthD)
  have n: "length ?cells = var_count ?cols" using lv by simp
  have k: "?k < var_count ?cols" using var_count_take_less [OF i var] .
  have lens: "div_ceil8 (length ?cols) = length nb" "div_ceil8 (var_count ?cols) = length ob"
    using nb ob by (simp_all add: bitmap_rep_def)
  have spilled: "get_bit_run ob ?k = Some (sp ! ?k \<noteq> None)"
    using get_bit_run_rep [OF ob, of ?k] k sp div_ceil8_cover [of "var_count ?cols"] by (simp add: spilled_at_def)
  have read: "read_u16 (row_body_image nb ob ?cols vs ?cells) (image_table_start nb ob ?cols + ?k * 2) =
      Some (word_of_nat (cells_len (take ?k ?cells)))"
    using image_offset [OF cf n, of ?k nb ob] k by simp
  note cell = image_cell [OF cf n k, of nb ob] var_cells_nth [OF lv sp(1) i var] unat_cells_len [OF len]
  show ?thesis
  proof (cases "sp ! ?k")
    case None
    then show ?thesis
      using i var spilled image_ovf_bitmap [of nb ob ?cols vs ?cells]
      by (simp add: raw_stub_def stub_at_def image_prefix layout_at [OF i] layout_simps_new(3-6) lens)
  next
    case (Some stub)
    then have "stub_version stub = OVERFLOW_STUB_VERSION"
      using sp k by (auto simp: stub_versions_ok_def in_set_conv_nth)
    then have bk: "stub_from_bytes (stub_to_bytes stub) = Some stub" by (rule stub_roundtrip)
    have "cells_len (take (Suc ?k) ?cells) = cells_len (take ?k ?cells) + 24"
      using k n cell(2) Some by (simp add: take_Suc_conv_app_nth cells_len_def var_cell_def)
    then show ?thesis
      using i var spilled image_ovf_bitmap [of nb ob ?cols vs ?cells] cell read bk Some
      by (simp add: raw_stub_def stub_at_def image_prefix layout_at [OF i] layout_simps_new(3-6) lens Let_def
          image_table_start_def image_data_start_def var_cell_def OVERFLOW_STUB_SIZE_def)
  qed
qed

lemma stubs_of_eq:
  assumes "\<And>i. raw_stub sc lay row i = Some (f i)"
  shows "stubs_of sc lay row ks = Some (List.map_filter (\<lambda>i. map_option (Pair i) (f i)) ks)"
  by (induction ks) (simp_all add: assms List.map_filter_simps split: option.splits)

lemma v1_encoded_len_fits:
  assumes "conforms (columns sc) vs"
  shows "v1_encoded_len (row_layout_new sc) vs \<le> 65541 \<longleftrightarrow> v1_total (columns sc) vs \<le> 65535"
proof -
  have "(\<Sum>v \<leftarrow> vs. length (payload v)) = cells_len (v1_cells (columns sc) vs)"
    using payload_sum [OF assms, of "replicate (var_count (columns sc)) None"] by (simp add: v1_cells_def)
  with saturating_fold [of 0 vs] show ?thesis
    by (auto simp: v1_encoded_len_def Let_def layout_simps_new(3-6) v1_total_def ROW_PREFIX_SIZE_def min_def
        split: if_splits)
qed

subsection \<open>Properties\<close>

text \<open>A three-column schema on which the properties are instantiated.\<close>

definition sample_schema :: schema where
  "sample_schema = \<lparr>table_name = [116],
     columns = [\<lparr>col_name = [97], col_type = TInt, required = True, position = 0\<rparr>,
                \<lparr>col_name = [98], col_type = TStr, required = False, position = 1\<rparr>,
                \<lparr>col_name = [99], col_type = TBytes, required = False, position = 2\<rparr>]\<rparr>"

lemma sample_conforms:
  "conforms (columns sample_schema) [VInt 7, VStr [104, 105], VBytes b]"
  "conforms (columns sample_schema) [VInt 7, VEmpty, VBytes b]"
  by (simp_all add: sample_schema_def conforms_def value_fits_def utf8_valid_ascii)

lemma sample_layout:
  "div_ceil8 (length (columns sample_schema)) = 1" "var_count (columns sample_schema) = 2"
  "fixed_len (columns sample_schema) = 8"
  by (simp_all add: sample_schema_def var_count_def is_var_def fixed_len_def col_size_def div_ceil8_def)

lemma sample_column:
  "length (columns sample_schema) = 3" "is_var (columns sample_schema ! Suc 0)"
  "col_type (columns sample_schema ! Suc 0) = TStr"
  by (simp_all add: sample_schema_def is_var_def)

lemma sample_v1_len:
  "v1_encoded_len (row_layout_new sample_schema) [VInt 7, VStr [104, 105], VBytes b] = min (25 + length b) (2 ^ 64 + 22)"
  by (simp add: v1_encoded_len_def layout_simps_new(3-6) sample_layout saturating_add_def ROW_PREFIX_SIZE_def)

text \<open>
  C11. A row that fits its length field survives storage: \<open>encode_row\<close> and \<open>try_encode_row\<close> produce the
  same bytes, of the length \<open>v1_encoded_len\<close> predicts, and \<open>decode_row\<close>, \<open>decode_column\<close> and the inline
  decoder all return the values that were encoded. A row that does not fit is rejected by
  \<open>try_encode_row\<close> with a typed error instead of being truncated.
\<close>

theorem row_roundtrip:
  assumes "conforms (columns sc) vs"
  shows "if v1_encoded_len (row_layout_new sc) vs \<le> U16_MAX + ROW_PREFIX_SIZE
     then \<exists>row. encode_row sc vs = Some row \<and> try_encode_row sc vs = Some (Inr row) \<and>
       length row = v1_encoded_len (row_layout_new sc) vs \<and> decode_row sc row = Some vs \<and>
       decode_inline_row_with_layout sc (row_layout_new sc) row = Some vs \<and>
       (\<forall>i < length vs. decode_column sc (row_layout_new sc) row i = Some (vs ! i))
     else \<exists>e. try_encode_row sc vs = Some (Inl e)"
proof (cases "v1_total (columns sc) vs \<le> 65535")
  case True
  then have len: "cells_len (v1_cells (columns sc) vs) \<le> 65535" by (simp add: v1_total_def)
  have n: "length vs = length (columns sc)" "length (v1_cells (columns sc) vs) = var_count (columns sc)"
    using assms by (simp_all add: conforms_def list_all2_lengthD v1_cells_def)
  from encode_row_image [OF assms len] obtain nb where
    nb: "bitmap_rep (div_ceil8 (length (columns sc))) (null_at vs) nb"
    and enc: "encode_row sc vs = Some (row_image 1 nb [] (columns sc) vs (v1_cells (columns sc) vs))"
    by (auto simp: encode_row_def encode_row_into_def)
  moreover have "\<not> row_is_v2 (row_image 1 nb [] (columns sc) vs (v1_cells (columns sc) vs))"
    by (simp add: image_prefix)
  moreover have "v1_encoded_len (row_layout_new sc) vs \<le> 65541" "v1_encoded_len (row_layout_new sc) vs < 2 ^ 64"
    using v1_encoded_len_fits [OF assms] True by auto
  ultimately show ?thesis
    using decode_v1_image [OF assms len nb] try_encode_row_cases [OF assms] True n v1_encoded_len_eq [OF assms]
      length_row_image [OF assms n(2), of nb]
    by (auto simp: decode_inline_agrees try_encode_row_def try_encode_row_into_def encode_row_def encode_row_into_def
        U16_MAX_def ROW_PREFIX_SIZE_def v1_total_def bitmap_rep_def)
next
  case False
  then show ?thesis
    using try_encode_row_cases [OF assms] v1_encoded_len_fits [OF assms]
    by (auto simp: try_encode_row_def try_encode_row_into_def U16_MAX_def ROW_PREFIX_SIZE_def)
qed

theorem row_roundtrip_witness:
  "\<exists>row. encode_row sample_schema [VInt 7, VStr [104, 105], VBytes [1, 2]] = Some row \<and> length row = 27 \<and>
     decode_row sample_schema row = Some [VInt 7, VStr [104, 105], VBytes [1, 2]]"
  using row_roundtrip [OF sample_conforms(1), of "[1, 2]"]
  by (auto simp: sample_v1_len U16_MAX_def ROW_PREFIX_SIZE_def)

text \<open>
  C12. The layout-driven decoder of the scan path agrees with \<open>decode_row\<close> on every byte string that
  is not a v2 row, well-formed or not, including the inputs on which both panic.
\<close>

theorem inline_decoder_equiv:
  assumes "\<not> row_is_v2 row"
  shows "decode_inline_row_with_layout sc (row_layout_new sc) row = decode_row sc row"
  using assms by (rule decode_inline_agrees)

theorem inline_decoder_equiv_witness:
  "decode_inline_row_with_layout sample_schema (row_layout_new sample_schema) [1, 2, 3] =
     decode_row sample_schema [1, 2, 3]"
  by (rule inline_decoder_equiv) (simp add: row_is_v2_def has_row_prefix_def layout_simps)

text \<open>
  C13. Patching a variable-length column in place is re-encoding: on an encoded row,
  \<open>patch_var_column_in_place\<close> refuses exactly the values that are longer than the stored one, leaving
  the row alone; otherwise the reported prefix of the patched bytes is the encoding of the row with
  that column replaced, null values included.
\<close>

theorem patch_var_column_correct:
  assumes "conforms (columns sc) vs" "v1_encoded_len (row_layout_new sc) vs \<le> U16_MAX"
    and "i < length (columns sc)" "is_var (columns sc ! i)" "value_fits (col_type (columns sc ! i)) v"
    and "encode_row sc vs = Some row"
  shows "let patched = patch_var_column_in_place row (row_layout_new sc) i (if v = VEmpty then None else Some (payload v))
     in if length (payload v) > length (payload (vs ! i)) then patched = Some (row, None)
        else \<exists>row' n. patched = Some (row', Some n) \<and> encode_row sc (vs[i := v]) = Some (take (unat n) row')"
  using patch_matches_encode [OF assms(1) _ assms(3-6)] assms(2) unfolding Let_def by (simp add: U16_MAX_def)

theorem patch_var_column_correct_witness:
  "\<exists>row row' n. encode_row sample_schema [VInt 7, VStr [104, 105], VBytes [1, 2]] = Some row \<and>
     patch_var_column_in_place row (row_layout_new sample_schema) 1 None = Some (row', Some n) \<and>
     encode_row sample_schema [VInt 7, VEmpty, VBytes [1, 2]] = Some (take (unat n) row')"
proof -
  have "cells_len (v1_cells (columns sample_schema) [VInt 7, VStr [104, 105], VBytes [1, 2]]) \<le> 65535"
    by (simp add: v1_cells_def sample_schema_def var_count_def is_var_def var_cell_def cells_len_def)
  then obtain row where row: "encode_row sample_schema [VInt 7, VStr [104, 105], VBytes [1, 2]] = Some row"
    using encode_row_image [OF sample_conforms(1)] by (auto simp: encode_row_def encode_row_into_def)
  then show ?thesis
    using patch_var_column_correct [OF sample_conforms(1), of "[1, 2]" 1 VEmpty row]
    by (auto simp: sample_v1_len U16_MAX_def Let_def sample_column value_fits_def)
qed

text \<open>
  C14. A v2 row keeps its out-of-line values: when the chain reader returns the spilled value for each
  stub, \<open>decode_row_v2\<close> returns the values that were encoded, \<open>for_each_stub\<close> visits exactly the stubs
  that were written, and \<open>rehydrate_v2_to_v1\<close> is the v1 encoding, or a typed error when that row
  would not fit its length field.
\<close>

theorem row_v2_roundtrip:
  assumes "conforms (columns sc) vs" "spills_ok (columns sc) vs sp" "stored (columns sc) vs sp fetch"
    and "stub_versions_ok sp" "cells_len (var_cells (columns sc) vs sp) \<le> U16_MAX"
  shows "\<exists>row. encode_row_v2_into sc (row_layout_new sc) vs sp = Some row \<and>
     decode_row_v2 fetch sc (row_layout_new sc) row = Some (Inr vs) \<and>
     for_each_stub sc (row_layout_new sc) row =
       Some (List.map_filter (\<lambda>i. map_option (Pair i) (stub_at (columns sc) sp i)) [0..<length vs]) \<and>
     (if v1_encoded_len (row_layout_new sc) vs \<le> U16_MAX + ROW_PREFIX_SIZE
      then rehydrate_v2_to_v1 fetch sc (row_layout_new sc) row = map_option Inr (encode_row sc vs)
      else \<exists>e. rehydrate_v2_to_v1 fetch sc (row_layout_new sc) row = Some (Inl e))"
proof -
  have len: "cells_len (var_cells (columns sc) vs sp) \<le> 65535" using assms(5) by (simp add: U16_MAX_def)
  have sp: "length sp = var_count (columns sc)" using assms(2) by (simp add: spills_ok_def)
  have lv: "length vs = length (columns sc)" using assms(1) by (simp add: conforms_def list_all2_lengthD)
  from encode_row_v2_image [OF assms(1,2) len] obtain nb ob where
    bits: "bitmap_rep (div_ceil8 (length (columns sc))) (null_at vs) nb"
    "bitmap_rep (div_ceil8 (var_count (columns sc))) (spilled_at sp) ob"
    and enc: "encode_row_v2_into sc (row_layout_new sc) vs sp =
      Some (row_image 2 nb ob (columns sc) vs (var_cells (columns sc) vs sp))" (is "_ = Some ?row") by blast
  have dec: "decode_row_v2 fetch sc (row_layout_new sc) ?row = Some (Inr vs)"
    by (rule decode_row_v2_image [OF assms(1-3) len bits])
  have v2: "row_is_v2 ?row" by (simp add: image_prefix)
  have "for_each_stub sc (row_layout_new sc) ?row =
      Some (List.map_filter (\<lambda>i. map_option (Pair i) (stub_at (columns sc) sp i)) [0..<length vs])"
    using v2 lv stubs_of_eq [OF raw_stub_image [OF assms(1) sp assms(4) len bits]] by (simp add: for_each_stub_def)
  moreover have "if v1_encoded_len (row_layout_new sc) vs \<le> U16_MAX + ROW_PREFIX_SIZE
      then rehydrate_v2_to_v1 fetch sc (row_layout_new sc) ?row = map_option Inr (encode_row sc vs)
      else \<exists>e. rehydrate_v2_to_v1 fetch sc (row_layout_new sc) ?row = Some (Inl e)"
    using try_encode_row_cases [OF assms(1)] v1_encoded_len_fits [OF assms(1)] v2 dec
    by (simp add: rehydrate_v2_to_v1_def encode_row_def encode_row_into_def U16_MAX_def ROW_PREFIX_SIZE_def)
  ultimately show ?thesis using enc dec by blast
qed

definition sample_stub :: overflow_stub where
  "sample_stub = \<lparr>total_len = 2, first_page = 5, value_crc32 = 9, stub_flags = 0, stub_version = OVERFLOW_STUB_VERSION\<rparr>"

theorem row_v2_roundtrip_witness:
  "\<exists>row. encode_row_v2_into sample_schema (row_layout_new sample_schema) [VInt 7, VEmpty, VBytes [1, 2]]
       [None, Some sample_stub] = Some row \<and>
     decode_row_v2 (\<lambda>s. Inr [1, 2]) sample_schema (row_layout_new sample_schema) row =
       Some (Inr [VInt 7, VEmpty, VBytes [1, 2]])"
proof -
  have "spills_ok (columns sample_schema) [VInt 7, VEmpty, VBytes [1, 2]] [None, Some sample_stub]"
    "stored (columns sample_schema) [VInt 7, VEmpty, VBytes [1, 2]] [None, Some sample_stub] (\<lambda>s. Inr [1, 2])"
    by (auto simp: spills_ok_def stored_def sample_schema_def var_count_def is_var_def less_Suc_eq sample_stub_def)
  moreover have "stub_versions_ok [None, Some sample_stub]" by (simp add: stub_versions_ok_def sample_stub_def)
  moreover have "cells_len (var_cells (columns sample_schema) [VInt 7, VEmpty, VBytes [1, 2]] [None, Some sample_stub])
      \<le> U16_MAX"
    by (simp add: sample_schema_def is_var_def cells_len_def var_cell_def U16_MAX_def)
  ultimately show ?thesis using row_v2_roundtrip [OF sample_conforms(2)] by blast
qed



text \<open>
  C16. The planner's size estimate ignores that a stub is larger than a short value. With the
  large column indexed, it first spills the two-byte string, which makes the row 22 bytes longer,
  although spilling the large column alone would have been enough.
\<close>

theorem plan_spill_grows_row:
  "let vs = [VInt 7, VStr [104, 105], VBytes (replicate 5000 0)]; lay = row_layout_new sample_schema
   in plan_spill lay vs (v1_encoded_len lay vs) [False, False, True] = Some [1, 2] \<and>
      (\<exists>row. encode_row_v2_into sample_schema lay vs [None, Some s] = Some row \<and> length row = 50 \<and>
             length row \<le> MAX_ROW_DATA_SIZE) \<and>
      (\<exists>row. encode_row_v2_into sample_schema lay vs [Some t, Some s] = Some row \<and> length row = 72)"
proof -
  let ?vs = "[VInt 7, VStr [104, 105], VBytes (replicate 5000 0)]"
  have len: "v1_encoded_len (row_layout_new sample_schema) ?vs = 5025" by (simp add: sample_v1_len)
  have cands: "spill_candidates (row_layout_new sample_schema) 0 ?vs = Some [(1, 2), (2, 5000)]"
    using spill_candidates_eq [of 0 sample_schema ?vs] sample_conforms(1)
    by (simp add: sample_schema_def is_var_def upt_rec)
  have plan: "plan_spill (row_layout_new sample_schema) ?vs 5025 [False, False, True] = Some [1, 2]"
    unfolding plan_spill_def cands
    by (simp add: layout_simps layout_simps_new(3-6) sample_layout overflow_bitmap_size_def
        spill_key_def is_indexed_at_def usize_sub_def div_ceil8_def)
  have ok: "spills_ok (columns sample_schema) ?vs [x, Some s]" for x
    by (auto simp: spills_ok_def sample_schema_def var_count_def is_var_def less_Suc_eq)
  have cells: "cells_len (var_cells (columns sample_schema) ?vs [None, Some s]) = 26"
    "cells_len (var_cells (columns sample_schema) ?vs [Some t, Some s]) = 48"
    by (simp_all add: sample_schema_def is_var_def cells_len_def var_cell_def)
  show ?thesis
    using plan length_row_v2 [OF sample_conforms(1) ok [of None]] length_row_v2 [OF sample_conforms(1) ok [of "Some t"]]
    by (auto simp: Let_def len sample_layout sample_column div_ceil8_def layout_simps cells)
qed

end
