(* ===== verification/Wal.thy ===== *)
theory Wal
  imports Powdb_Prelude
begin

text \<open>
  The write-ahead log of \<^verbatim>\<open>crates/storage/src/wal.rs\<close>: the record format, the recovery parser, and
  the operations of a log handle.

  A file is its bytes. The CRC-32 of the crate \<^verbatim>\<open>crc32fast\<close> is the parameter \<open>crc\<close>, and an fsync is
  a parameter that says whether it succeeds. Opening, reading and writing the log file are taken to
  succeed. The counters \<open>dirty_gen\<close>, \<open>synced_gen\<close> and \<open>fsync_count\<close> grow by one per flush and are
  natural numbers. What several threads can do to them at once is the theory
  \<^theory_text>\<open>Wal_Group_Commit\<close>.
\<close>

subsection \<open>Records\<close>

datatype wal_record_type =
    RInsert | RUpdate | RDelete | RCommit | RRollback | RDdlCreateTable | RDdlDropTable
  | RDdlAddColumn | RDdlDropColumn | RBegin | ROverflowWrite | ROverflowFree

fun wal_type_to_u8 :: "wal_record_type \<Rightarrow> u8" where
  "wal_type_to_u8 RInsert = 1"
| "wal_type_to_u8 RUpdate = 2"
| "wal_type_to_u8 RDelete = 3"
| "wal_type_to_u8 RCommit = 4"
| "wal_type_to_u8 RRollback = 5"
| "wal_type_to_u8 RDdlCreateTable = 6"
| "wal_type_to_u8 RDdlDropTable = 7"
| "wal_type_to_u8 RDdlAddColumn = 8"
| "wal_type_to_u8 RDdlDropColumn = 9"
| "wal_type_to_u8 RBegin = 10"
| "wal_type_to_u8 ROverflowWrite = 11"
| "wal_type_to_u8 ROverflowFree = 12"

definition wal_type_from_u8 :: "u8 \<Rightarrow> wal_record_type option" where
  "wal_type_from_u8 v =
     (if v = 1 then Some RInsert else if v = 2 then Some RUpdate else if v = 3 then Some RDelete
      else if v = 4 then Some RCommit else if v = 5 then Some RRollback
      else if v = 6 then Some RDdlCreateTable else if v = 7 then Some RDdlDropTable
      else if v = 8 then Some RDdlAddColumn else if v = 9 then Some RDdlDropColumn
      else if v = 10 then Some RBegin else if v = 11 then Some ROverflowWrite
      else if v = 12 then Some ROverflowFree else None)"

definition WAL_MAGIC :: bytes where "WAL_MAGIC = [0x50, 0x57, 0x41, 0x4C]"
definition WAL_FORMAT_VERSION :: u16 where "WAL_FORMAT_VERSION = 1"
definition WAL_FILE_HEADER_SIZE :: nat where [layout_simps]: "WAL_FILE_HEADER_SIZE = 8"
definition WAL_HEADER_SIZE :: nat where [layout_simps]: "WAL_HEADER_SIZE = 25"
definition MAX_WAL_RECORD_SIZE :: nat where [layout_simps]: "MAX_WAL_RECORD_SIZE = 256 * 1024 * 1024"
definition CORRUPTION_PROBE_WINDOW :: nat where [layout_simps]: "CORRUPTION_PROBE_WINDOW = 1024 * 1024"

record wal_record =
  tx_id :: u64
  record_type :: wal_record_type
  rec_lsn :: u64
  rec_data :: bytes

datatype corrupt_reason =
  UnknownRecordType | RecordPastEnd | LengthTooShort | PayloadTooLarge | CrcMismatch

datatype wal_error =
    UnsupportedVersion u16
  | ReadFailed
  | WalReplay nat corrupt_reason nat
  | WriterUnavailable
  | SyncFdUnavailable
  | WalPoisoned
  | FsyncFailed

subsection \<open>The file header\<close>

definition wal_file_header :: bytes where
  "wal_file_header = WAL_MAGIC @ u16_to_le WAL_FORMAT_VERSION @ u16_to_le 0"

definition write_wal_file_header :: "bytes \<Rightarrow> bytes" where
  "write_wal_file_header file = put file 0 wal_file_header"

definition wal_records_start_readonly :: "bytes \<Rightarrow> wal_error + nat" where
  "wal_records_start_readonly file =
     (if length file \<ge> WAL_FILE_HEADER_SIZE
      then if sub file 0 4 = WAL_MAGIC
           then let version = u16_from_le (sub file 4 2)
                in if version \<noteq> WAL_FORMAT_VERSION then Inl (UnsupportedVersion version)
                   else Inr WAL_FILE_HEADER_SIZE
           else Inr 0
      else Inr (min WAL_FILE_HEADER_SIZE (length file)))"

definition wal_records_start :: "bytes \<Rightarrow> bytes \<times> (wal_error + nat)" where
  "wal_records_start file =
     (if length file = 0 then (write_wal_file_header file, Inr WAL_FILE_HEADER_SIZE)
      else if length file \<ge> WAL_FILE_HEADER_SIZE \<and> sub file 0 4 = WAL_MAGIC
      then let version = u16_from_le (sub file 4 2)
           in if version \<noteq> WAL_FORMAT_VERSION then (file, Inl (UnsupportedVersion version))
              else (file, Inr WAL_FILE_HEADER_SIZE)
      else (file, Inr 0))"

text \<open>\<open>None\<close> is a path with no file.\<close>

definition is_headerless_log :: "bytes option \<Rightarrow> bool" where
  "is_headerless_log path =
     (case path of None \<Rightarrow> False
      | Some file \<Rightarrow>
          if length file = 0 then False
          else if length file < WAL_FILE_HEADER_SIZE then True
          else sub file 0 4 \<noteq> WAL_MAGIC)"

subsection \<open>One record\<close>

definition wal_crc_input :: "u64 \<Rightarrow> wal_record_type \<Rightarrow> u64 \<Rightarrow> bytes \<Rightarrow> bytes" where
  "wal_crc_input tx ty l d = u64_to_le tx @ [wal_type_to_u8 ty] @ u64_to_le l @ d"

text \<open>The chunks \<open>append\<close> hands to its buffered writer, in order.\<close>

definition wal_record_chunks :: "(bytes \<Rightarrow> u32) \<Rightarrow> u64 \<Rightarrow> wal_record_type \<Rightarrow> u64 \<Rightarrow> bytes \<Rightarrow> bytes list" where
  "wal_record_chunks crc tx ty l d =
     [u32_to_le (word_of_nat (WAL_HEADER_SIZE + length d)), u32_to_le (crc (wal_crc_input tx ty l d)),
      u64_to_le tx, [wal_type_to_u8 ty], u64_to_le l, d]"

datatype parse_outcome =
    ParsedRecord wal_record nat
  | ParsedEof
  | ParsedCorrupt corrupt_reason "nat option"

definition parse_record_at :: "(bytes \<Rightarrow> u32) \<Rightarrow> bytes \<Rightarrow> nat \<Rightarrow> nat \<Rightarrow> wal_error + parse_outcome" where
  "parse_record_at crc file pos file_len =
     (if pos + WAL_HEADER_SIZE > file_len then Inr ParsedEof
      else if pos + WAL_HEADER_SIZE > length file then Inr ParsedEof
      else
        let header = sub file pos WAL_HEADER_SIZE;
            total_len = unat (u32_from_le (sub header 0 4));
            stored_crc = u32_from_le (sub header 4 4);
            tx = u64_from_le (sub header 8 8)
        in case wal_type_from_u8 (header ! 16) of
             None \<Rightarrow> Inr (ParsedCorrupt UnknownRecordType None)
           | Some ty \<Rightarrow>
               let l = u64_from_le (sub header 17 8)
               in if pos + total_len > file_len then Inr (ParsedCorrupt RecordPastEnd None)
                  else if total_len < WAL_HEADER_SIZE then Inr (ParsedCorrupt LengthTooShort None)
                  else
                    let data_len = total_len - WAL_HEADER_SIZE
                    in if data_len > MAX_WAL_RECORD_SIZE then Inr (ParsedCorrupt PayloadTooLarge None)
                       else if pos + total_len > length file then Inl ReadFailed
                       else
                         let next_pos = pos + total_len;
                             d = sub file (pos + WAL_HEADER_SIZE) data_len
                         in if crc (wal_crc_input tx ty l d) \<noteq> stored_crc
                            then Inr (ParsedCorrupt CrcMismatch (Some next_pos))
                            else Inr (ParsedRecord \<lparr>tx_id = tx, record_type = ty, rec_lsn = l, rec_data = d\<rparr>
                                        next_pos))"

fun is_record :: "parse_outcome \<Rightarrow> bool" where
  "is_record (ParsedRecord _ _) = True"
| "is_record _ = False"

subsection \<open>Recovery\<close>

text \<open>The bounded byte scan behind damage whose length field cannot be trusted.\<close>

function probe_scan :: "(bytes \<Rightarrow> u32) \<Rightarrow> bytes \<Rightarrow> nat \<Rightarrow> nat \<Rightarrow> nat \<Rightarrow> wal_error + nat option" where
  "probe_scan crc file candidate scan_end file_len =
     (if candidate > scan_end then Inr None
      else case parse_record_at crc file candidate file_len of
             Inl e \<Rightarrow> Inl e
           | Inr out \<Rightarrow> if is_record out then Inr (Some candidate)
                        else probe_scan crc file (candidate + 1) scan_end file_len)"
  by pat_completeness auto
termination
  by (relation "measure (\<lambda>(crc, file, candidate, scan_end, file_len). Suc scan_end - candidate)") auto

definition probe_for_valid_record ::
  "(bytes \<Rightarrow> u32) \<Rightarrow> bytes \<Rightarrow> nat option \<Rightarrow> nat \<Rightarrow> nat \<Rightarrow> wal_error + nat option" where
  "probe_for_valid_record crc file resume_at bad_pos file_len =
     (let scan_end = min (file_len - WAL_HEADER_SIZE) (saturating_add bad_pos CORRUPTION_PROBE_WINDOW);
          scan = probe_scan crc file (saturating_add bad_pos 1) scan_end file_len
      in case resume_at of
           None \<Rightarrow> scan
         | Some next \<Rightarrow>
             if next \<le> file_len
             then case parse_record_at crc file next file_len of
                    Inl e \<Rightarrow> Inl e
                  | Inr out \<Rightarrow> if is_record out then Inr (Some next) else scan
             else scan)"

lemma parse_record_at_next:
  assumes "parse_record_at crc file pos file_len = Inr (ParsedRecord r nxt)"
  shows "pos + 25 \<le> nxt" "nxt \<le> file_len" "nxt \<le> length file"
  using assms by (auto simp: parse_record_at_def Let_def layout_simps split: if_splits option.splits)

lemma parse_record_at_progress:
  assumes "parse_record_at crc file pos file_len = Inr (ParsedRecord r nxt)"
  shows "file_len - nxt < file_len - pos"
  using parse_record_at_next [OF assms] by simp

function parse_records_from ::
  "(bytes \<Rightarrow> u32) \<Rightarrow> bytes \<Rightarrow> nat \<Rightarrow> nat \<Rightarrow> wal_error + wal_record list" where
  "parse_records_from crc file pos file_len =
     (case parse_record_at crc file pos file_len of
        Inl e \<Rightarrow> Inl e
      | Inr (ParsedRecord r next) \<Rightarrow>
          (case parse_records_from crc file next file_len of
             Inl e \<Rightarrow> Inl e
           | Inr rs \<Rightarrow> Inr (r # rs))
      | Inr ParsedEof \<Rightarrow> Inr []
      | Inr (ParsedCorrupt reason resume_at) \<Rightarrow>
          (case probe_for_valid_record crc file resume_at pos file_len of
             Inl e \<Rightarrow> Inl e
           | Inr (Some found_at) \<Rightarrow> Inl (WalReplay pos reason found_at)
           | Inr None \<Rightarrow> Inr []))"
  by pat_completeness auto
termination
  by (relation "measure (\<lambda>(crc, file, pos, file_len). file_len - pos)")
    (auto dest: parse_record_at_progress)

definition parse_wal_records :: "(bytes \<Rightarrow> u32) \<Rightarrow> bytes \<Rightarrow> nat \<Rightarrow> wal_error + wal_record list" where
  "parse_wal_records crc file max_len =
     (let file_len = min (length file) max_len
      in case wal_records_start_readonly file of
           Inl e \<Rightarrow> Inl e
         | Inr pos \<Rightarrow> parse_records_from crc file pos file_len)"

definition wal_has_committed_records :: "(bytes \<Rightarrow> u32) \<Rightarrow> bytes option \<Rightarrow> wal_error + bool" where
  "wal_has_committed_records crc path =
     (case path of None \<Rightarrow> Inr False
      | Some file \<Rightarrow>
          (case wal_records_start_readonly file of
             Inl e \<Rightarrow> Inl e
           | Inr pos \<Rightarrow>
               (case parse_record_at crc file pos (length file) of
                  Inl e \<Rightarrow> Inl e
                | Inr out \<Rightarrow> Inr (is_record out))))"

declare probe_scan.simps [simp del] parse_records_from.simps [simp del]

end
