(* ===== verification/Wal_Handle.thy ===== *)
theory Wal_Handle
  imports Wal
begin

text \<open>
  The log handle \<^verbatim>\<open>Wal\<close> of \<^verbatim>\<open>crates/storage/src/wal.rs\<close>: its buffered writer, the operations the
  catalog calls, and the sequential meaning of the group-commit state. An operation that may fsync
  takes a flag saying whether that fsync succeeds.
\<close>

subsection \<open>Buffered writes\<close>

text \<open>
  The \<^verbatim>\<open>BufWriter\<close> of the standard library over the log's file descriptor: a buffer of 8192 bytes,
  written through when a chunk does not fit. A descriptor opened for appending writes at the end of
  the file, any other one at its own position, filling a gap with zeros.
\<close>

record wal_writer =
  w_buf :: bytes
  w_append :: bool
  w_pos :: nat

definition BUF_CAPACITY :: nat where [layout_simps]: "BUF_CAPACITY = 8192"

definition fd_write :: "wal_writer \<Rightarrow> bytes \<Rightarrow> bytes \<Rightarrow> wal_writer \<times> bytes" where
  "fd_write w file bs =
     (if bs = [] then (w, file)
      else if w_append w then (w\<lparr>w_pos := length file + length bs\<rparr>, file @ bs)
      else (w\<lparr>w_pos := w_pos w + length bs\<rparr>,
            put (file @ replicate (w_pos w - length file) 0) (w_pos w) bs))"

definition bufw_flush :: "wal_writer \<Rightarrow> bytes \<Rightarrow> wal_writer \<times> bytes" where
  "bufw_flush w file = (let (w', file') = fd_write w file (w_buf w) in (w'\<lparr>w_buf := []\<rparr>, file'))"

definition bufw_write_all :: "bytes \<Rightarrow> wal_writer \<times> bytes \<Rightarrow> wal_writer \<times> bytes" where
  "bufw_write_all bs = (\<lambda>(w, file).
     let spare = BUF_CAPACITY - length (w_buf w)
     in if length bs < spare then (w\<lparr>w_buf := w_buf w @ bs\<rparr>, file)
        else let (w1, file1) = (if length bs > spare then bufw_flush w file else (w, file))
             in if length bs \<ge> BUF_CAPACITY then fd_write w1 file1 bs
                else (w1\<lparr>w_buf := w_buf w1 @ bs\<rparr>, file1))"

definition bufw_new :: "bool \<Rightarrow> nat \<Rightarrow> wal_writer" where
  "bufw_new app pos = \<lparr>w_buf = [], w_append = app, w_pos = pos\<rparr>"

subsection \<open>The shared sync state\<close>

datatype wal_sync_mode = SyncFull | SyncNormal | SyncOff

record wal_shared =
  dirty_gen :: nat
  synced_gen :: nat
  fsync_count :: nat
  sync_file :: bool
  sync_poisoned :: bool

definition shared_new :: "bool \<Rightarrow> wal_shared" where
  "shared_new f = \<lparr>dirty_gen = 0, synced_gen = 0, fsync_count = 0, sync_file = f, sync_poisoned = False\<rparr>"

definition sync_until :: "nat \<Rightarrow> bool \<Rightarrow> wal_shared \<Rightarrow> wal_shared \<times> (wal_error + unit)" where
  "sync_until gen fsync_ok s =
     (if synced_gen s \<ge> gen then (s, Inr ())
      else if sync_poisoned s then (s, Inl WalPoisoned)
      else if \<not> sync_file s then (s, Inl SyncFdUnavailable)
      else let cover = dirty_gen s
           in if \<not> fsync_ok then (s\<lparr>sync_poisoned := True\<rparr>, Inl FsyncFailed)
              else (s\<lparr>fsync_count := fsync_count s + 1, synced_gen := max (synced_gen s) cover\<rparr>, Inr ()))"

definition replace_file :: "bool \<Rightarrow> wal_shared \<Rightarrow> wal_shared" where
  "replace_file f s = s\<lparr>synced_gen := max (synced_gen s) (dirty_gen s), sync_file := f\<rparr>"

text \<open>One round of the background flusher's loop.\<close>

definition flusher_tick :: "bool \<Rightarrow> wal_shared \<Rightarrow> wal_shared" where
  "flusher_tick fsync_ok s =
     (if sync_poisoned s then s
      else let d = dirty_gen s
           in if d > synced_gen s
              then if fsync_ok then s\<lparr>fsync_count := fsync_count s + 1, synced_gen := max (synced_gen s) d\<rparr>
                   else s\<lparr>sync_poisoned := True\<rparr>
              else s)"

subsection \<open>The handle\<close>

record wal =
  wal_file :: bytes
  writer :: "wal_writer option"
  batch_size :: nat
  pending :: nat
  sync_mode :: wal_sync_mode
  next_lsn :: u64
  records_start :: nat
  synced_len :: nat
  shared :: wal_shared
  defer_sync :: bool
  deferred_gen :: "nat option"
  flusher :: bool

definition wal_create :: "nat \<Rightarrow> wal" where
  "wal_create bsize =
     \<lparr>wal_file = write_wal_file_header [], writer = Some (bufw_new False WAL_FILE_HEADER_SIZE),
      batch_size = bsize, pending = 0, sync_mode = SyncFull, next_lsn = 1,
      records_start = WAL_FILE_HEADER_SIZE, synced_len = WAL_FILE_HEADER_SIZE,
      shared = shared_new True, defer_sync = False, deferred_gen = None, flusher = False\<rparr>"

definition wal_open :: "bytes option \<Rightarrow> nat \<Rightarrow> wal_error + wal" where
  "wal_open path bsize =
     (let (file, start) = wal_records_start (case path of None \<Rightarrow> [] | Some f \<Rightarrow> f)
      in case start of
           Inl e \<Rightarrow> Inl e
         | Inr rstart \<Rightarrow>
             Inr \<lparr>wal_file = file, writer = Some (bufw_new True (length file)), batch_size = bsize,
                  pending = 0, sync_mode = SyncFull, next_lsn = 1, records_start = rstart,
                  synced_len = length file, shared = shared_new True, defer_sync = False,
                  deferred_gen = None, flusher = False\<rparr>)"

definition wal_open_read_only :: "bytes option \<Rightarrow> nat \<Rightarrow> wal_error + wal" where
  "wal_open_read_only path bsize =
     (case (case path of None \<Rightarrow> Inr WAL_FILE_HEADER_SIZE | Some f \<Rightarrow> wal_records_start_readonly f) of
        Inl e \<Rightarrow> Inl e
      | Inr rstart \<Rightarrow>
          Inr \<lparr>wal_file = (case path of None \<Rightarrow> [] | Some f \<Rightarrow> f), writer = None, batch_size = bsize,
               pending = 0, sync_mode = SyncOff, next_lsn = 1, records_start = rstart,
               synced_len = rstart, shared = shared_new False, defer_sync = False,
               deferred_gen = None, flusher = False\<rparr>)"

definition start_flusher :: "wal \<Rightarrow> wal" where
  "start_flusher w = (if flusher w \<or> writer w = None then w else w\<lparr>flusher := True\<rparr>)"

definition stop_flusher :: "bool \<Rightarrow> wal \<Rightarrow> wal" where
  "stop_flusher fsync_ok w =
     (if flusher w then w\<lparr>shared := flusher_tick fsync_ok (shared w), flusher := False\<rparr> else w)"

definition set_sync_mode :: "bool \<Rightarrow> wal_sync_mode \<Rightarrow> wal \<Rightarrow> wal" where
  "set_sync_mode fsync_ok m w =
     (if m = sync_mode w then w
      else let w1 = w\<lparr>sync_mode := m\<rparr>
           in case m of SyncNormal \<Rightarrow> start_flusher w1 | _ \<Rightarrow> stop_flusher fsync_ok w1)"

definition set_defer_sync :: "bool \<Rightarrow> wal \<Rightarrow> wal" where
  "set_defer_sync d w = w\<lparr>defer_sync := d\<rparr>"

definition take_durability_ticket :: "wal \<Rightarrow> wal \<times> nat option" where
  "take_durability_ticket w = (w\<lparr>deferred_gen := None\<rparr>, deferred_gen w)"

definition wal_is_off :: "wal \<Rightarrow> bool" where
  "wal_is_off w \<longleftrightarrow> sync_mode w = SyncOff"

definition last_appended_lsn :: "wal \<Rightarrow> u64" where
  "last_appended_lsn w =
     (if sync_mode w = SyncOff then 0 else if next_lsn w = 0 then 0 else next_lsn w - 1)"

definition set_next_lsn_at_least :: "u64 \<Rightarrow> wal \<Rightarrow> wal" where
  "set_next_lsn_at_least l w = (if l > next_lsn w then w\<lparr>next_lsn := l\<rparr> else w)"

definition has_pending :: "wal \<Rightarrow> bool" where
  "has_pending w \<longleftrightarrow> pending w > 0"

definition flush_to_os :: "wal \<Rightarrow> wal \<times> (wal_error + nat option)" where
  "flush_to_os w =
     (if pending w = 0 then (w, Inr None)
      else if sync_mode w \<noteq> SyncOff \<and> sync_poisoned (shared w) then (w, Inl WalPoisoned)
      else case writer w of
             None \<Rightarrow> (w, Inl WriterUnavailable)
           | Some wr \<Rightarrow>
               let (wr', file') = bufw_flush wr (wal_file w);
                   w1 = w\<lparr>writer := Some wr', wal_file := file', synced_len := length file', pending := 0\<rparr>
               in if sync_mode w = SyncOff then (w1, Inr None)
                  else let gen = dirty_gen (shared w1) + 1
                       in (w1\<lparr>shared := (shared w1)\<lparr>dirty_gen := gen\<rparr>\<rparr>, Inr (Some gen)))"

definition wal_flush :: "bool \<Rightarrow> wal \<Rightarrow> wal \<times> (wal_error + unit)" where
  "wal_flush fsync_ok w =
     (case flush_to_os w of
        (w1, Inl e) \<Rightarrow> (w1, Inl e)
      | (w1, Inr None) \<Rightarrow> (w1, Inr ())
      | (w1, Inr (Some gen)) \<Rightarrow>
          if sync_mode w1 = SyncFull
          then if defer_sync w1 then (w1\<lparr>deferred_gen := Some gen\<rparr>, Inr ())
               else let (s, r) = sync_until gen fsync_ok (shared w1) in (w1\<lparr>shared := s\<rparr>, r)
          else (w1, Inr ()))"

definition sync_before_heap_flush :: "bool \<Rightarrow> wal \<Rightarrow> wal \<times> (wal_error + unit)" where
  "sync_before_heap_flush fsync_ok w =
     (case flush_to_os w of
        (w1, Inl e) \<Rightarrow> (w1, Inl e)
      | (w1, Inr _) \<Rightarrow>
          if sync_mode w1 \<noteq> SyncOff
          then let (s, r) = sync_until (dirty_gen (shared w1)) fsync_ok (shared w1) in (w1\<lparr>shared := s\<rparr>, r)
          else (w1, Inr ()))"

definition wal_append :: "(bytes \<Rightarrow> u32) \<Rightarrow> bool \<Rightarrow> u64 \<Rightarrow> wal_record_type \<Rightarrow> bytes \<Rightarrow> wal \<Rightarrow>
    wal \<times> (wal_error + unit)" where
  "wal_append crc fsync_ok tx ty d w =
     (if sync_mode w = SyncOff then (w, Inr ())
      else let l = next_lsn w; w1 = w\<lparr>next_lsn := l + 1\<rparr>
           in case writer w1 of
                None \<Rightarrow> (w1, Inl WriterUnavailable)
              | Some wr \<Rightarrow>
                  let (wr', file') = fold bufw_write_all (wal_record_chunks crc tx ty l d) (wr, wal_file w1);
                      w2 = w1\<lparr>writer := Some wr', wal_file := file', pending := pending w1 + 1\<rparr>
                  in if pending w2 \<ge> batch_size w2 then wal_flush fsync_ok w2 else (w2, Inr ()))"

definition wal_synced_len :: "bool \<Rightarrow> wal \<Rightarrow> wal \<times> (wal_error + nat)" where
  "wal_synced_len fsync_ok w =
     (case wal_flush fsync_ok w of (w1, Inl e) \<Rightarrow> (w1, Inl e) | (w1, Inr _) \<Rightarrow> (w1, Inr (synced_len w1)))"

text \<open>\<open>File::set_len\<close> truncates or extends with zeros.\<close>

definition file_set_len :: "nat \<Rightarrow> bytes \<Rightarrow> bytes" where
  "file_set_len n file = take n file @ replicate (n - length file) 0"

definition discard_and_truncate_to :: "bool \<Rightarrow> nat \<Rightarrow> wal \<Rightarrow> wal \<times> (wal_error + unit)" where
  "discard_and_truncate_to fsync_ok len w =
     (if sync_mode w = SyncOff then (w\<lparr>pending := 0, synced_len := len\<rparr>, Inr ())
      else let w1 = w\<lparr>writer := None, wal_file := file_set_len len (wal_file w)\<rparr>
           in if \<not> fsync_ok then (w1, Inl FsyncFailed)
              else (w1\<lparr>writer := Some (bufw_new True len), deferred_gen := None,
                      shared := replace_file True (shared w1), pending := 0, synced_len := len\<rparr>, Inr ()))"

definition discard_pending :: "bool \<Rightarrow> wal \<Rightarrow> wal \<times> (wal_error + unit)" where
  "discard_pending fsync_ok w =
     (if sync_mode w = SyncOff then (w\<lparr>pending := 0\<rparr>, Inr ())
      else let w1 = w\<lparr>writer := None, wal_file := file_set_len (synced_len w) (wal_file w)\<rparr>
           in if \<not> fsync_ok then (w1, Inl FsyncFailed)
              else (w1\<lparr>writer := Some (bufw_new True (length (wal_file w1))), deferred_gen := None,
                      shared := replace_file True (shared w1), pending := 0,
                      synced_len := records_start w1\<rparr>, Inr ()))"

text \<open>
  \<open>truncate\<close> replaces the writer by assignment, so the old writer is dropped and pushes what it still
  buffers through its own descriptor, behind the new header.
\<close>

definition wal_truncate :: "bool \<Rightarrow> wal \<Rightarrow> wal \<times> (wal_error + unit)" where
  "wal_truncate fsync_ok w =
     (let (w1, r) = (case deferred_gen w of
             None \<Rightarrow> (w, Inr ())
           | Some gen \<Rightarrow> let (s, r) = sync_until gen fsync_ok (shared w)
                         in (w\<lparr>deferred_gen := None, shared := s\<rparr>, r))
      in case r of
           Inl e \<Rightarrow> (w1, Inl e)
         | Inr _ \<Rightarrow>
             let fresh = write_wal_file_header [];
                 file' = (case writer w1 of None \<Rightarrow> fresh | Some old \<Rightarrow> snd (bufw_flush old fresh))
             in (w1\<lparr>wal_file := file', writer := Some (bufw_new False WAL_FILE_HEADER_SIZE),
                    shared := replace_file True (shared w1), records_start := WAL_FILE_HEADER_SIZE,
                    pending := 0, synced_len := WAL_FILE_HEADER_SIZE\<rparr>, Inr ()))"

definition wal_read_through_len :: "(bytes \<Rightarrow> u32) \<Rightarrow> nat \<Rightarrow> wal \<Rightarrow> wal_error + wal_record list" where
  "wal_read_through_len crc max_len w = parse_wal_records crc (wal_file w) max_len"

definition wal_read_all :: "(bytes \<Rightarrow> u32) \<Rightarrow> wal \<Rightarrow> wal_error + wal_record list" where
  "wal_read_all crc w = wal_read_through_len crc (2 ^ 64 - 1) w"

text \<open>
  The file a dropped handle leaves behind: in every mode the buffered bytes are written, by the
  explicit flush or by the drop of the writer itself. The fsync of the drop is ignored by the code.
\<close>

definition wal_drop :: "wal \<Rightarrow> bytes" where
  "wal_drop w =
     (case writer w of
        Some wr \<Rightarrow> snd (bufw_flush wr (wal_file w))
      | None \<Rightarrow> wal_file w)"

end
