(* ===== verification/Wal_Recovery.thy ===== *)
theory Wal_Recovery
  imports Wal_Handle
begin

text \<open>
  Recovery reads back what was appended: the record codec, runs of records, torn tails, and damage in
  the middle of the log.
\<close>

subsection \<open>The record codec\<close>

definition enc_record :: "(bytes \<Rightarrow> u32) \<Rightarrow> wal_record \<Rightarrow> bytes" where
  "enc_record crc r = concat (wal_record_chunks crc (tx_id r) (record_type r) (rec_lsn r) (rec_data r))"

definition record_ok :: "wal_record \<Rightarrow> bool" where
  "record_ok r \<longleftrightarrow> length (rec_data r) \<le> MAX_WAL_RECORD_SIZE"

lemma wal_type_roundtrip [simp]: "wal_type_from_u8 (wal_type_to_u8 t) = Some t"
  by (cases t) (simp_all add: wal_type_from_u8_def)

lemma wal_type_from_u8_eq: "wal_type_from_u8 v = Some t \<longleftrightarrow> v = wal_type_to_u8 t"
  by (cases t) (auto simp: wal_type_from_u8_def split: if_splits)

lemma length_enc_record [simp]: "length (enc_record crc r) = 25 + length (rec_data r)"
  by (simp add: enc_record_def wal_record_chunks_def)

lemma length_wal_file_header [simp]: "length wal_file_header = 8"
  by (simp add: wal_file_header_def WAL_MAGIC_def)

text \<open>The header fields of an encoded record.\<close>

lemma enc_record_fields:
  assumes "header = sub (enc_record crc r @ rest) 0 25"
  shows "sub header 0 4 = u32_to_le (word_of_nat (25 + length (rec_data r)))"
    and "sub header 4 4 = u32_to_le (crc (wal_crc_input (tx_id r) (record_type r) (rec_lsn r) (rec_data r)))"
    and "sub header 8 8 = u64_to_le (tx_id r)" "header ! 16 = wal_type_to_u8 (record_type r)"
    and "sub header 17 8 = u64_to_le (rec_lsn r)"
    and "sub (enc_record crc r @ rest) 25 (length (rec_data r)) = rec_data r"
  unfolding assms
  by (simp_all add: enc_record_def wal_record_chunks_def sub_def layout_simps nth_append take_Cons' drop_Cons')

lemma parse_enc_record:
  assumes fl: "file = pre @ enc_record crc r @ post" and ok: "record_ok r"
    and len: "length pre + length (enc_record crc r) \<le> file_len" "file_len \<le> length file"
  shows "parse_record_at crc file (length pre) file_len =
    Inr (ParsedRecord r (length pre + length (enc_record crc r)))"
proof -
  let ?header = "sub file (length pre) 25"
  have h: "?header = sub (enc_record crc r @ post) 0 25" unfolding fl by (simp add: sub_def)
  note f = enc_record_fields [OF h]
  have d: "sub file (length pre + 25) (length (rec_data r)) = rec_data r"
    using f(6) unfolding fl by (simp add: sub_def add.commute)
  have "length (rec_data r) \<le> 268435456" using ok by (simp add: record_ok_def layout_simps)
  moreover from this have "unat (25 + word_of_nat (length (rec_data r)) :: u32) = 25 + length (rec_data r)"
    using unat_u32_of_nat [of "25 + length (rec_data r)"] by simp
  ultimately show ?thesis
    using len f(1-5) d by (simp add: parse_record_at_def layout_simps Let_def)
qed

text \<open>Conversely, a record that parses is the encoding of what it parsed to.\<close>

lemma split_header:
  assumes "length h = 25"
  shows "h = sub h 0 4 @ sub h 4 4 @ sub h 8 8 @ [h ! 16] @ sub h 17 8"
proof -
  have "drop 16 h = h ! 16 # drop 17 h" using assms Cons_nth_drop_Suc [of 16 h] by simp
  moreover have "h = take 4 h @ drop 4 h" "drop 4 h = take 4 (drop 4 h) @ drop 8 h"
    "drop 8 h = take 8 (drop 8 h) @ drop 16 h"
    using append_take_drop_id [of 4 "drop 4 h"] append_take_drop_id [of 8 "drop 8 h"] by simp_all
  ultimately have "h = take 4 h @ take 4 (drop 4 h) @ take 8 (drop 8 h) @ h ! 16 # drop 17 h" by metis
  then show ?thesis using assms by (simp add: sub_def)
qed

lemma parse_record_at_enc:
  assumes p: "parse_record_at crc file pos file_len = Inr (ParsedRecord r nxt)"
  shows "sub file pos (nxt - pos) = enc_record crc r" "record_ok r" "nxt = pos + length (enc_record crc r)"
proof -
  let ?h = "sub file pos 25"
  define n where "n = unat (u32_from_le (sub ?h 0 4))"
  have le: "pos + n \<le> length file" "25 \<le> n" "n - 25 \<le> MAX_WAL_RECORD_SIZE" "nxt = pos + n"
    and ty: "wal_type_from_u8 (?h ! 16) = Some (record_type r)"
    and fields: "tx_id r = u64_from_le (sub ?h 8 8)" "rec_lsn r = u64_from_le (sub ?h 17 8)"
      "rec_data r = sub file (pos + 25) (n - 25)"
    and crc: "crc (wal_crc_input (tx_id r) (record_type r) (rec_lsn r) (rec_data r)) = u32_from_le (sub ?h 4 4)"
    using p unfolding n_def
    by (auto simp: parse_record_at_def Let_def WAL_HEADER_SIZE_def split: if_splits option.splits)
  have lh: "length ?h = 25" using le by simp
  have ld: "length (rec_data r) = n - 25" using le fields(3) by simp
  have "sub ?h 0 4 = u32_to_le (word_of_nat (25 + length (rec_data r)))"
    using u32_to_from_le [of "sub ?h 0 4"] lh le ld by (simp add: n_def)
  moreover have "sub ?h 4 4 = u32_to_le (crc (wal_crc_input (tx_id r) (record_type r) (rec_lsn r) (rec_data r)))"
    using u32_to_from_le [of "sub ?h 4 4"] lh crc by simp
  moreover have "sub ?h 8 8 = u64_to_le (tx_id r)" "sub ?h 17 8 = u64_to_le (rec_lsn r)"
    using u64_to_from_le [of "sub ?h 8 8"] u64_to_from_le [of "sub ?h 17 8"] lh fields by simp_all
  moreover have "?h ! 16 = wal_type_to_u8 (record_type r)" using ty by (simp add: wal_type_from_u8_eq)
  ultimately have "?h @ rec_data r = enc_record crc r"
    using split_header [OF lh] by (simp add: enc_record_def wal_record_chunks_def layout_simps)
  moreover have "sub file pos n = ?h @ rec_data r"
    using le(1,2) fields(3) take_add [of 25 "n - 25" "drop pos file"] by (simp add: sub_def add.commute)
  ultimately show "sub file pos (nxt - pos) = enc_record crc r" using le(4) by simp
  show "record_ok r" using le(3) ld by (simp add: record_ok_def)
  show "nxt = pos + length (enc_record crc r)" using le ld by simp
qed

lemma parse_record_at_read: "file_len \<le> length file \<Longrightarrow> parse_record_at crc file pos file_len \<noteq> Inl e"
  by (auto simp: parse_record_at_def Let_def split: option.splits)

lemma parse_record_at_bounds:
  "parse_record_at crc file pos file_len = Inr (ParsedRecord r nxt) \<Longrightarrow> pos + 25 \<le> nxt \<and> nxt \<le> file_len \<and> nxt \<le> length file"
  using parse_record_at_next by blast

subsection \<open>The damage probe\<close>

definition valid_at :: "(bytes \<Rightarrow> u32) \<Rightarrow> bytes \<Rightarrow> nat \<Rightarrow> nat \<Rightarrow> bool" where
  "valid_at crc file file_len q \<longleftrightarrow> (\<exists>r nxt. parse_record_at crc file q file_len = Inr (ParsedRecord r nxt))"

lemma is_record_iff: "is_record out \<longleftrightarrow> (\<exists>r nxt. out = ParsedRecord r nxt)"
  by (cases out) auto

lemma probe_scan_cases:
  assumes "file_len \<le> length file"
  shows "(probe_scan crc file c scan_end file_len = Inr None \<and> (\<forall>q. c \<le> q \<and> q \<le> scan_end \<longrightarrow> \<not> valid_at crc file file_len q)) \<or>
    (\<exists>q. probe_scan crc file c scan_end file_len = Inr (Some q) \<and> c \<le> q \<and> q \<le> scan_end \<and> valid_at crc file file_len q)"
  using assms
proof (induction crc "file" c scan_end file_len rule: probe_scan.induct)
  case (1 crc f c scan_end file_len)
  show ?case
  proof (cases "c > scan_end")
    case True
    then show ?thesis by (auto simp: probe_scan.simps)
  next
    case False
    obtain out where out: "parse_record_at crc f c file_len = Inr out"
      using parse_record_at_read [OF 1(2)] by (cases "parse_record_at crc f c file_len") auto
    show ?thesis
    proof (cases "is_record out")
      case True
      with False out show ?thesis
        by (auto simp: probe_scan.simps [of crc f c] is_record_iff valid_at_def)
    next
      case rec: False
      have step: "probe_scan crc f c scan_end file_len = probe_scan crc f (c + 1) scan_end file_len"
        using False out rec by (simp add: probe_scan.simps [of crc f c])
      have "\<not> valid_at crc f file_len c" using out rec by (auto simp: valid_at_def)
      moreover note 1(1) [OF False out rec 1(2)]
      moreover have "c \<le> q \<longleftrightarrow> q = c \<or> c + 1 \<le> q" for q by auto
      ultimately show ?thesis unfolding step by auto
    qed
  qed
qed

lemma probe_cases:
  assumes "file_len \<le> length file" "bad_pos + CORRUPTION_PROBE_WINDOW < 2 ^ 64"
  shows "(probe_for_valid_record crc file resume bad_pos file_len = Inr None \<and>
      (\<forall>q. bad_pos < q \<and> q \<le> bad_pos + CORRUPTION_PROBE_WINDOW \<longrightarrow> \<not> valid_at crc file file_len q)) \<or>
    (\<exists>q. probe_for_valid_record crc file resume bad_pos file_len = Inr (Some q) \<and> valid_at crc file file_len q)"
proof -
  let ?stop = "min (file_len - 25) (bad_pos + CORRUPTION_PROBE_WINDOW)"
  have far: "\<not> valid_at crc file file_len q" if "file_len - 25 < q" for q
  proof
    assume "valid_at crc file file_len q"
    then obtain r nxt where "parse_record_at crc file q file_len = Inr (ParsedRecord r nxt)"
      by (auto simp: valid_at_def)
    from parse_record_at_bounds [OF this] \<open>file_len - 25 < q\<close> show False by auto
  qed
  have sat: "saturating_add bad_pos (Suc 0) = bad_pos + 1"
    "saturating_add bad_pos CORRUPTION_PROBE_WINDOW = bad_pos + CORRUPTION_PROBE_WINDOW"
    using assms(2) by (simp_all add: saturating_add_def layout_simps)
  have scan: "(probe_scan crc file (bad_pos + 1) ?stop file_len = Inr None \<and>
      (\<forall>q. bad_pos < q \<and> q \<le> bad_pos + CORRUPTION_PROBE_WINDOW \<longrightarrow> \<not> valid_at crc file file_len q)) \<or>
    (\<exists>q. probe_scan crc file (bad_pos + 1) ?stop file_len = Inr (Some q) \<and> valid_at crc file file_len q)"
    using probe_scan_cases [OF assms(1), of crc "bad_pos + 1" ?stop]
  proof (elim disjE conjE)
    assume none: "probe_scan crc file (bad_pos + 1) ?stop file_len = Inr None"
      and no: "\<forall>q. bad_pos + 1 \<le> q \<and> q \<le> ?stop \<longrightarrow> \<not> valid_at crc file file_len q"
    have "\<not> valid_at crc file file_len q" if "bad_pos < q \<and> q \<le> bad_pos + CORRUPTION_PROBE_WINDOW" for q
      using no far [of q] that by (cases "q \<le> file_len - 25") auto
    with none show ?thesis by blast
  qed blast
  show ?thesis
  proof (cases resume)
    case None
    with scan show ?thesis by (simp add: probe_for_valid_record_def sat WAL_HEADER_SIZE_def)
  next
    case (Some n)
    obtain out where "parse_record_at crc file n file_len = Inr out"
      using parse_record_at_read [OF assms(1)] by (cases "parse_record_at crc file n file_len") auto
    with Some scan show ?thesis
      by (auto simp: probe_for_valid_record_def sat WAL_HEADER_SIZE_def Let_def is_record_iff valid_at_def)
  qed
qed

subsection \<open>Runs of records\<close>

lemma parse_records_run:
  assumes "\<forall>r \<in> set rs. record_ok r" "file_len \<le> length file"
    and "file = pre @ concat (map (enc_record crc) rs) @ tail"
    and "length pre + length (concat (map (enc_record crc) rs)) \<le> file_len"
  shows "parse_records_from crc file (length pre) file_len =
    (case parse_records_from crc file (length pre + length (concat (map (enc_record crc) rs))) file_len of
       Inl e \<Rightarrow> Inl e | Inr xs \<Rightarrow> Inr (rs @ xs))"
  using assms
proof (induction rs arbitrary: pre)
  case Nil
  then show ?case by (simp split: sum.splits)
next
  case (Cons r rs)
  let ?e = "enc_record crc r"
  have p: "parse_record_at crc file (length pre) file_len = Inr (ParsedRecord r (length pre + length ?e))"
    by (rule parse_enc_record [of _ _ _ _ "concat (map (enc_record crc) rs) @ tail"]) (use Cons.prems in simp_all)
  have "parse_records_from crc file (length (pre @ ?e)) file_len =
    (case parse_records_from crc file (length (pre @ ?e) + length (concat (map (enc_record crc) rs))) file_len of
       Inl e \<Rightarrow> Inl e | Inr xs \<Rightarrow> Inr (rs @ xs))"
    by (rule Cons.IH) (use Cons.prems in simp_all)
  with p show ?case
    by (simp add: parse_records_from.simps [of crc _ "length pre"] add.assoc split: sum.splits)
qed

lemma parse_records_sound:
  assumes "parse_records_from crc file pos file_len = Inr rs" "file_len \<le> length file" "pos \<le> file_len"
    and "file_len + CORRUPTION_PROBE_WINDOW < 2 ^ 64"
  shows "\<exists>p. pos \<le> p \<and> p \<le> file_len \<and> sub file pos (p - pos) = concat (map (enc_record crc) rs) \<and>
    (\<forall>r \<in> set rs. record_ok r) \<and>
    (p + WAL_HEADER_SIZE > file_len \<or>
     (\<forall>q. p \<le> q \<and> q \<le> p + CORRUPTION_PROBE_WINDOW \<longrightarrow> \<not> valid_at crc file file_len q))"
  using assms
proof (induction crc "file" pos file_len arbitrary: rs rule: parse_records_from.induct)
  case (1 crc f pos file_len)
  obtain out where out: "parse_record_at crc f pos file_len = Inr out"
    using parse_record_at_read [OF 1(3)] by (cases "parse_record_at crc f pos file_len") auto
  show ?case
  proof (cases out)
    case (ParsedRecord r nxt)
    note rec = out [unfolded ParsedRecord]
    obtain rs' where rs: "rs = r # rs'" "parse_records_from crc f nxt file_len = Inr rs'"
      using 1(2) by (auto simp: parse_records_from.simps [of crc f pos] rec split: sum.splits)
    have b: "pos + 25 \<le> nxt" "nxt \<le> file_len" using parse_record_at_bounds [OF rec] by auto
    from 1(1) [OF out ParsedRecord rs(2) 1(3) b(2) 1(5)] obtain p where
      p: "nxt \<le> p" "p \<le> file_len" "sub f nxt (p - nxt) = concat (map (enc_record crc) rs')"
      "\<forall>r \<in> set rs'. record_ok r"
      "p + WAL_HEADER_SIZE > file_len \<or>
       (\<forall>q. p \<le> q \<and> q \<le> p + CORRUPTION_PROBE_WINDOW \<longrightarrow> \<not> valid_at crc f file_len q)" by blast
    note e = parse_record_at_enc [OF rec]
    have "sub f pos (p - pos) = sub f pos (nxt - pos) @ sub f nxt (p - nxt)"
      using take_add [of "nxt - pos" "p - nxt" "drop pos f"] b p(1) by (simp add: sub_def)
    with p e b rs show ?thesis by (intro exI [of _ p]) auto
  next
    case ParsedEof
    then have "rs = []" using 1(2) out by (simp add: parse_records_from.simps [of crc f pos])
    moreover have "pos + WAL_HEADER_SIZE > file_len"
      using out ParsedEof 1(3) by (auto simp: parse_record_at_def Let_def split: if_splits option.splits)
    ultimately show ?thesis using 1(4) by (intro exI [of _ pos]) auto
  next
    case (ParsedCorrupt reason resume)
    have "probe_for_valid_record crc f resume pos file_len = Inr None" "rs = []"
      using 1(2) out ParsedCorrupt
      by (auto simp: parse_records_from.simps [of crc f pos] split: sum.splits option.splits)
    moreover have "pos + CORRUPTION_PROBE_WINDOW < 2 ^ 64" using 1(4,5) by linarith
    moreover have "\<not> valid_at crc f file_len pos" using out ParsedCorrupt by (auto simp: valid_at_def)
    ultimately show ?thesis
      using probe_cases [OF 1(3), of pos crc resume] 1(4)
      by (intro exI [of _ pos]) (auto simp: order_le_less)
  qed
qed

lemma header_magic: "sub (wal_file_header @ xs) 0 4 = WAL_MAGIC" "sub (wal_file_header @ xs) 4 2 = u16_to_le 1"
  by (simp_all add: wal_file_header_def WAL_MAGIC_def WAL_FORMAT_VERSION_def sub_def)

lemma records_start_header:
  "wal_records_start_readonly (wal_file_header @ xs) = Inr 8"
  by (simp add: wal_records_start_readonly_def header_magic layout_simps WAL_FORMAT_VERSION_def)

subsection \<open>Torn tails\<close>

text \<open>The bytes of a record whose write was cut short.\<close>

lemma parse_torn_record:
  assumes "file = pre @ take k (enc_record crc r)" "k < length (enc_record crc r)" "record_ok r"
  shows "parse_record_at crc file (length pre) (length file) =
    Inr (if k < WAL_HEADER_SIZE then ParsedEof else ParsedCorrupt RecordPastEnd None)"
proof (cases "k < 25")
  case True
  then show ?thesis using assms by (simp add: parse_record_at_def layout_simps)
next
  case False
  let ?h = "sub file (length pre) 25"
  have h: "?h = sub (enc_record crc r @ []) 0 25" using False by (simp add: assms(1) sub_def)
  note f = enc_record_fields [OF h]
  have "length (rec_data r) \<le> 268435456" using assms(3) by (simp add: record_ok_def layout_simps)
  then have "unat (25 + word_of_nat (length (rec_data r)) :: u32) = 25 + length (rec_data r)"
    using unat_u32_of_nat [of "25 + length (rec_data r)"] by simp
  then show ?thesis
    using False f(1,4) assms(2) by (simp add: assms(1) parse_record_at_def layout_simps Let_def)
qed

end
