(* ===== verification/Wal_Log.thy ===== *)
theory Wal_Log
  imports Wal_Recovery
begin

text \<open>
  The log handle as an append-only list of records: which records a handle has flushed and which it
  still buffers, and how each operation changes the two lists. The interface the catalog relies on is
  the locale \<open>redo_log\<close>; the handle is its instance.
\<close>

subsection \<open>The interface\<close>

text \<open>
  \<open>rep w fl pd\<close>: the log \<open>w\<close> holds the flushed records \<open>fl\<close>, followed by the pending records \<open>pd\<close>.
\<close>

locale redo_log =
  fixes rep :: "'w \<Rightarrow> 'r list \<Rightarrow> 'r list \<Rightarrow> bool"
    and entry_ok :: "'e \<Rightarrow> bool"
    and stamp :: "'w \<Rightarrow> 'e \<Rightarrow> 'r"
    and append_to :: "'e \<Rightarrow> 'w \<Rightarrow> 'w"
    and flush_log :: "'w \<Rightarrow> 'w"
    and mark :: "'w \<Rightarrow> nat"
    and discard_to :: "nat \<Rightarrow> 'w \<Rightarrow> 'w"
    and contents :: "'w \<Rightarrow> 'r list option"
  assumes append_rep: "rep w fl pd \<Longrightarrow> entry_ok e \<Longrightarrow>
      \<exists>fl' pd'. rep (append_to e w) (fl @ fl') pd' \<and> fl' @ pd' = pd @ [stamp w e]"
    and flush_rep: "rep w fl pd \<Longrightarrow> rep (flush_log w) (fl @ pd) []"
    and discard_rep: "rep w fl pd \<Longrightarrow> rep v (fl @ fl') pd' \<Longrightarrow> rep (discard_to (mark w) v) fl []"
    and contents_rep: "rep w fl [] \<Longrightarrow> contents w = Some fl"
begin

fun stamps :: "'e list \<Rightarrow> 'w \<Rightarrow> 'r list" where
  "stamps [] w = []"
| "stamps (e # es) w = stamp w e # stamps es (append_to e w)"

lemma appends_rep:
  "rep w fl pd \<Longrightarrow> \<forall>e \<in> set es. entry_ok e \<Longrightarrow>
   \<exists>fl' pd'. rep (fold append_to es w) (fl @ fl') pd' \<and> fl' @ pd' = pd @ stamps es w"
proof (induction es arbitrary: w fl pd)
  case Nil
  then show ?case by (intro exI [of _ "[]"] exI [of _ pd]) simp
next
  case (Cons e es)
  obtain f1 p1 where 1: "rep (append_to e w) (fl @ f1) p1" "f1 @ p1 = pd @ [stamp w e]"
    using append_rep [OF Cons.prems(1), of e] Cons.prems(2) by auto
  obtain f2 p2 where "rep (fold append_to es (append_to e w)) ((fl @ f1) @ f2) p2"
    "f2 @ p2 = p1 @ stamps es (append_to e w)"
    using Cons.IH [OF 1(1)] Cons.prems(2) by auto
  with 1(2) show ?case by (intro exI [of _ "f1 @ f2"] exI [of _ p2]) simp
qed

text \<open>A transaction's records are all there after it commits, and none of them after it rolls back.\<close>

lemma commit_contents:
  assumes "rep w fl []" "\<forall>e \<in> set es. entry_ok e"
  shows "contents (flush_log (fold append_to es w)) = Some (fl @ stamps es w)"
proof -
  obtain fl' pd' where r: "rep (fold append_to es w) (fl @ fl') pd'" "fl' @ pd' = stamps es w"
    using appends_rep [OF assms] by auto
  from flush_rep [OF r(1)] r(2) have "rep (flush_log (fold append_to es w)) (fl @ stamps es w) []" by simp
  then show ?thesis by (rule contents_rep)
qed

lemma rollback_contents:
  assumes "rep w fl []" "\<forall>e \<in> set es. entry_ok e"
  shows "contents (discard_to (mark w) (fold append_to es w)) = Some fl"
proof -
  obtain fl' pd' where "rep (fold append_to es w) (fl @ fl') pd'" using appends_rep [OF assms] by auto
  from discard_rep [OF assms(1) this] show ?thesis by (rule contents_rep)
qed

end

subsection \<open>The buffered writer\<close>

definition writer_ok :: "wal_writer \<Rightarrow> bytes \<Rightarrow> bool" where
  "writer_ok wr file \<longleftrightarrow> w_append wr \<or> w_pos wr = length file"

lemma fd_write_ok:
  assumes "writer_ok wr file" "fd_write wr file bs = (wr', file')"
  shows "writer_ok wr' file'" "file' = file @ bs" "w_buf wr' = w_buf wr"
  using assms by (auto simp: fd_write_def writer_ok_def put_def split: if_splits)

lemma bufw_flush_ok:
  assumes "writer_ok wr file" "bufw_flush wr file = (wr', file')"
  shows "writer_ok wr' file'" "file' = file @ w_buf wr" "w_buf wr' = []"
proof -
  obtain w1 f1 where f: "fd_write wr file (w_buf wr) = (w1, f1)" by (cases "fd_write wr file (w_buf wr)")
  with assms(2) have eq: "wr' = w1\<lparr>w_buf := []\<rparr>" "file' = f1" by (simp_all add: bufw_flush_def)
  show "writer_ok wr' file'" "file' = file @ w_buf wr" "w_buf wr' = []"
    using fd_write_ok [OF assms(1) f] eq by (simp_all add: writer_ok_def)
qed

lemma bufw_write_all_ok:
  assumes "writer_ok wr file" "bufw_write_all bs (wr, file) = (wr', file')"
  shows "writer_ok wr' file' \<and> file' @ w_buf wr' = file @ w_buf wr @ bs \<and> (\<exists>ys. file' = file @ ys)"
proof -
  obtain w1 f1 where f: "bufw_flush wr file = (w1, f1)" by (cases "bufw_flush wr file")
  note fo = bufw_flush_ok [OF assms(1) f]
  obtain w2 f2 where g: "fd_write w1 f1 bs = (w2, f2)" by (cases "fd_write w1 f1 bs")
  note go = fd_write_ok [OF fo(1) g]
  obtain w3 f3 where h: "fd_write wr file bs = (w3, f3)" by (cases "fd_write wr file bs")
  note ho = fd_write_ok [OF assms(1) h]
  let ?spare = "8192 - length (w_buf wr)"
  have eq: "(wr', file') = (if length bs < ?spare then (wr\<lparr>w_buf := w_buf wr @ bs\<rparr>, file)
      else if length bs = ?spare then if length bs \<ge> 8192 then (w3, f3) else (wr\<lparr>w_buf := w_buf wr @ bs\<rparr>, file)
      else if length bs \<ge> 8192 then (w2, f2) else (w1\<lparr>w_buf := bs\<rparr>, f1))"
  proof -
    consider "length bs < ?spare" | "length bs = ?spare" | "?spare < length bs" by linarith
    then show ?thesis
      using assms(2) f g h fo(3)
      by cases (simp_all add: bufw_write_all_def Let_def BUF_CAPACITY_def split: if_splits)
  qed
  have empty: "length bs = ?spare \<Longrightarrow> 8192 \<le> length bs \<Longrightarrow> w_buf wr = []" by (cases "w_buf wr") auto
  have buffered: "writer_ok (x\<lparr>w_buf := y\<rparr>) z = writer_ok x z" for x y z by (simp add: writer_ok_def)
  show ?thesis
    using eq assms(1) fo go ho empty by (simp add: buffered split: if_splits)
qed

lemma fold_write_all_ok:
  assumes "writer_ok wr file" "fold bufw_write_all chunks (wr, file) = (wr', file')"
  shows "writer_ok wr' file' \<and> file' @ w_buf wr' = file @ w_buf wr @ concat chunks \<and> (\<exists>ys. file' = file @ ys)"
  using assms
proof (induction chunks arbitrary: wr "file")
  case (Cons c cs)
  obtain w1 f1 where w1: "bufw_write_all c (wr, file) = (w1, f1)" by (cases "bufw_write_all c (wr, file)")
  note ok = bufw_write_all_ok [OF Cons.prems(1) w1]
  with Cons.IH [of w1 f1] Cons.prems w1 show ?case by auto
qed simp

subsection \<open>The handle as a list of records\<close>

definition wal_rep :: "(bytes \<Rightarrow> u32) \<Rightarrow> wal \<Rightarrow> wal_record list \<Rightarrow> wal_record list \<Rightarrow> bool" where
  "wal_rep crc w fl pd \<longleftrightarrow> sync_mode w \<noteq> SyncOff \<and> pending w = length pd \<and> records_start w = 8 \<and>
     synced_len w = 8 + length (concat (map (enc_record crc) fl)) \<and> synced_len w \<le> length (wal_file w) \<and>
     (\<forall>r \<in> set (fl @ pd). record_ok r) \<and>
     (\<exists>wr. writer w = Some wr \<and> writer_ok wr (wal_file w) \<and>
        wal_file w @ w_buf wr = wal_file_header @ concat (map (enc_record crc) (fl @ pd)))"

definition wal_healthy :: "wal \<Rightarrow> bool" where
  "wal_healthy w \<longleftrightarrow> \<not> sync_poisoned (shared w) \<and> sync_file (shared w)"

lemma wal_create_rep: "wal_rep crc (wal_create n) [] []" "wal_healthy (wal_create n)"
  by (simp_all add: wal_rep_def wal_create_def wal_healthy_def bufw_new_def writer_ok_def shared_new_def
      write_wal_file_header_def put_def layout_simps)

lemma flush_to_os_rep:
  assumes "wal_rep crc w fl pd" "flush_to_os w = (w', r)"
  shows "if pd \<noteq> [] \<and> sync_poisoned (shared w) then w' = w \<and> r = Inl WalPoisoned
    else wal_rep crc w' (fl @ pd) [] \<and> next_lsn w' = next_lsn w \<and> (wal_healthy w \<longrightarrow> wal_healthy w') \<and>
      r = Inr (if pd = [] then None else Some (dirty_gen (shared w'))) \<and>
      sync_poisoned (shared w') = sync_poisoned (shared w) \<and> sync_file (shared w') = sync_file (shared w) \<and>
      sync_mode w' = sync_mode w \<and> synced_gen (shared w') = synced_gen (shared w) \<and>
      dirty_gen (shared w') = dirty_gen (shared w) + (if pd = [] then 0 else 1)"
proof -
  obtain wr where wr: "writer w = Some wr" "writer_ok wr (wal_file w)"
    "wal_file w @ w_buf wr = wal_file_header @ concat (map (enc_record crc) (fl @ pd))"
    using assms(1) by (auto simp: wal_rep_def)
  obtain wr' f' where f: "bufw_flush wr (wal_file w) = (wr', f')" by (cases "bufw_flush wr (wal_file w)")
  note ok = bufw_flush_ok [OF wr(2) f]
  show ?thesis
  proof (cases "pd = []")
    case True
    then show ?thesis using assms by (auto simp: flush_to_os_def wal_rep_def)
  next
    case False
    then show ?thesis
      using assms wr f ok by (auto simp: flush_to_os_def wal_rep_def wal_healthy_def Let_def)
  qed
qed

lemma sync_until_healthy:
  "sync_until g True s = (s', r) \<Longrightarrow> \<not> sync_poisoned s \<Longrightarrow> sync_file s \<Longrightarrow>
   \<not> sync_poisoned s' \<and> sync_file s' \<and> r = Inr ()"
  by (auto simp: sync_until_def Let_def split: if_splits)

lemma wal_rep_shared: "wal_rep crc (w\<lparr>shared := s\<rparr>) fl pd = wal_rep crc w fl pd"
  "wal_rep crc (w\<lparr>deferred_gen := g\<rparr>) fl pd = wal_rep crc w fl pd"
  by (simp_all add: wal_rep_def)

text \<open>
  A flush either moves every pending record to the flushed ones, or, on a poisoned log, changes
  nothing and fails.
\<close>

lemma wal_flush_rep:
  assumes "wal_rep crc w fl pd" "wal_flush fsync_ok w = (w', r)"
  shows "(wal_rep crc w' (fl @ pd) [] \<or> w' = w \<and> pd \<noteq> [] \<and> sync_poisoned (shared w) \<and> r = Inl WalPoisoned) \<and>
    next_lsn w' = next_lsn w"
    and "wal_healthy w \<Longrightarrow> fsync_ok \<Longrightarrow> wal_rep crc w' (fl @ pd) [] \<and> wal_healthy w' \<and> r = Inr ()"
proof -
  obtain w1 r1 where f: "flush_to_os w = (w1, r1)" by (cases "flush_to_os w")
  note fr = flush_to_os_rep [OF assms(1) f]
  obtain s2 r2 where s: "sync_until (dirty_gen (shared w1)) fsync_ok (shared w1) = (s2, r2)"
    by (cases "sync_until (dirty_gen (shared w1)) fsync_ok (shared w1)")
  show "(wal_rep crc w' (fl @ pd) [] \<or> w' = w \<and> pd \<noteq> [] \<and> sync_poisoned (shared w) \<and> r = Inl WalPoisoned) \<and>
    next_lsn w' = next_lsn w"
    using fr assms(2) f s by (auto simp: wal_flush_def wal_rep_shared split: if_splits)
  assume h: "wal_healthy w" "fsync_ok"
  then show "wal_rep crc w' (fl @ pd) [] \<and> wal_healthy w' \<and> r = Inr ()"
    using fr assms(2) f s sync_until_healthy [of "dirty_gen (shared w1)" "shared w1" s2 r2]
    by (auto simp: wal_flush_def wal_rep_shared wal_healthy_def split: if_splits)
qed

type_synonym wal_entry = "u64 \<times> wal_record_type \<times> bytes"

definition entry_record :: "u64 \<Rightarrow> wal_entry \<Rightarrow> wal_record" where
  "entry_record l = (\<lambda>(tx, ty, d). \<lparr>tx_id = tx, record_type = ty, rec_lsn = l, rec_data = d\<rparr>)"

definition entry_fits :: "wal_entry \<Rightarrow> bool" where
  "entry_fits = (\<lambda>(tx, ty, d). length d \<le> MAX_WAL_RECORD_SIZE)"

definition append_entry :: "(bytes \<Rightarrow> u32) \<Rightarrow> wal_entry \<Rightarrow> wal \<Rightarrow> wal" where
  "append_entry crc = (\<lambda>(tx, ty, d) w. fst (wal_append crc True tx ty d w))"

lemma wal_append_rep:
  assumes rep: "wal_rep crc w fl pd" and d: "length d \<le> MAX_WAL_RECORD_SIZE"
    and app: "wal_append crc fsync_ok tx ty d w = (w', r)"
  defines "e \<equiv> entry_record (next_lsn w) (tx, ty, d)"
  shows "\<exists>fl' pd'. wal_rep crc w' (fl @ fl') pd' \<and> fl' @ pd' = pd @ [e]" "next_lsn w' = next_lsn w + 1"
    and "wal_healthy w \<Longrightarrow> fsync_ok \<Longrightarrow> wal_healthy w' \<and> r = Inr ()"
proof -
  obtain wr where wr: "writer w = Some wr" "writer_ok wr (wal_file w)"
    "wal_file w @ w_buf wr = wal_file_header @ concat (map (enc_record crc) (fl @ pd))"
    using rep by (auto simp: wal_rep_def)
  let ?chunks = "wal_record_chunks crc tx ty (next_lsn w) d"
  have chunks: "concat ?chunks = enc_record crc e" by (simp add: enc_record_def e_def entry_record_def)
  have e_ok: "record_ok e" using d by (simp add: record_ok_def e_def entry_record_def)
  obtain wr' f' where f: "fold bufw_write_all ?chunks (wr, wal_file w) = (wr', f')"
    by (cases "fold bufw_write_all ?chunks (wr, wal_file w)")
  note ok = fold_write_all_ok [OF wr(2) f]
  define w2 where "w2 = w\<lparr>next_lsn := next_lsn w + 1, writer := Some wr', wal_file := f', pending := pending w + 1\<rparr>"
  have w2: "wal_rep crc w2 fl (pd @ [e])"
    using rep ok wr(1,3) chunks e_ok by (auto simp: w2_def wal_rep_def)
  have h2: "wal_healthy w2 = wal_healthy w" "next_lsn w2 = next_lsn w + 1"
    by (simp_all add: w2_def wal_healthy_def)
  have app2: "(if pending w2 \<ge> batch_size w2 then wal_flush fsync_ok w2 else (w2, Inr ())) = (w', r)"
    using app rep wr(1) f by (simp add: wal_append_def wal_rep_def w2_def Let_def split: if_splits)
  obtain w3 r3 where w3: "wal_flush fsync_ok w2 = (w3, r3)" by (cases "wal_flush fsync_ok w2")
  note fl3 = wal_flush_rep [OF w2 w3]
  show "\<exists>fl' pd'. wal_rep crc w' (fl @ fl') pd' \<and> fl' @ pd' = pd @ [e]"
  proof (cases "w' = w2")
    case True
    with w2 show ?thesis by (intro exI [of _ "[]"] exI [of _ "pd @ [e]"]) simp
  next
    case False
    with app2 w3 fl3(1) have "wal_rep crc w' (fl @ pd @ [e]) []" by (auto split: if_splits)
    then show ?thesis by (intro exI [of _ "pd @ [e]"] exI [of _ "[]"]) simp
  qed
  show "next_lsn w' = next_lsn w + 1" using app2 w3 fl3(1) h2 by (auto split: if_splits)
  assume "wal_healthy w" "fsync_ok"
  then show "wal_healthy w' \<and> r = Inr ()" using app2 w3 fl3(2) h2 by (auto split: if_splits)
qed

lemma discard_to_rep:
  assumes w: "wal_rep crc w fl pd" and v: "wal_rep crc v (fl @ fl') pd'"
    and d: "discard_and_truncate_to True (synced_len w) v = (v', r)"
  shows "wal_rep crc v' fl [] \<and> r = Inr () \<and> next_lsn v' = next_lsn v \<and> (wal_healthy v \<longrightarrow> wal_healthy v')"
proof -
  let ?n = "8 + length (concat (map (enc_record crc) fl))"
  have n: "synced_len w = ?n" using w by (simp add: wal_rep_def)
  obtain wr where "writer v = Some wr"
    and wr: "wal_file v @ w_buf wr = wal_file_header @ concat (map (enc_record crc) ((fl @ fl') @ pd'))"
    "synced_len v \<le> length (wal_file v)" "synced_len v = 8 + length (concat (map (enc_record crc) (fl @ fl')))"
    using v by (auto simp: wal_rep_def)
  then have len: "?n \<le> length (wal_file v)" by simp
  have "take ?n (wal_file v) = take ?n (wal_file v @ w_buf wr)" using len by simp
  also have "\<dots> = wal_file_header @ concat (map (enc_record crc) fl)" unfolding wr(1) by simp
  finally have "file_set_len ?n (wal_file v) = wal_file_header @ concat (map (enc_record crc) fl)"
    using len by (simp add: file_set_len_def)
  with d n v w show ?thesis
    by (auto simp: discard_and_truncate_to_def wal_rep_def Let_def bufw_new_def writer_ok_def wal_healthy_def
        replace_file_def)
qed

lemma wal_rep_flushed:
  assumes "wal_rep crc w fl []"
  shows "wal_file w = wal_file_header @ concat (map (enc_record crc) fl)" "\<forall>r \<in> set fl. record_ok r"
proof -
  obtain wr where "writer w = Some wr" and wr: "wal_file w @ w_buf wr = wal_file_header @ concat (map (enc_record crc) fl)"
    "length (wal_file_header @ concat (map (enc_record crc) fl)) \<le> length (wal_file w)" "\<forall>r \<in> set fl. record_ok r"
    using assms by (auto simp: wal_rep_def)
  have "length (wal_file w) + length (w_buf wr) = length (wal_file_header @ concat (map (enc_record crc) fl))"
    unfolding length_append [symmetric] wr(1) ..
  with wr(2) have "length (w_buf wr) = 0" by linarith
  with wr show "wal_file w = wal_file_header @ concat (map (enc_record crc) fl)" "\<forall>r \<in> set fl. record_ok r"
    by simp_all
qed

lemma parse_at_end: "file_len \<le> pos \<Longrightarrow> parse_records_from crc file pos file_len = Inr []"
  by (simp add: parse_records_from.simps [of crc _ pos] parse_record_at_def layout_simps)

lemma parse_log:
  assumes "\<forall>r \<in> set rs. record_ok r" "length (wal_file_header @ concat (map (enc_record crc) rs)) \<le> n"
  shows "parse_wal_records crc (wal_file_header @ concat (map (enc_record crc) rs)) n = Inr rs"
proof -
  let ?f = "wal_file_header @ concat (map (enc_record crc) rs)"
  have "parse_records_from crc ?f (length wal_file_header) (length ?f) =
    (case parse_records_from crc ?f (length wal_file_header + length (concat (map (enc_record crc) rs))) (length ?f) of
       Inl e \<Rightarrow> Inl e | Inr xs \<Rightarrow> Inr (rs @ xs))"
    by (rule parse_records_run [of rs _ _ _ crc "[]"]) (use assms in simp_all)
  moreover have "parse_records_from crc ?f (length ?f) (length ?f) = Inr []"
    by (simp add: parse_at_end)
  ultimately show ?thesis
    using assms(2) by (simp add: parse_wal_records_def records_start_header min_absorb1)
qed

lemma wal_read_rep:
  assumes "wal_rep crc w fl []" "length (wal_file w) \<le> n"
  shows "wal_read_through_len crc n w = Inr fl"
  using parse_log [OF wal_rep_flushed(2) [OF assms(1)], of crc n] assms(2)
  unfolding wal_rep_flushed(1) [OF assms(1)] wal_read_through_len_def by simp

definition wal_contents :: "(bytes \<Rightarrow> u32) \<Rightarrow> wal \<Rightarrow> wal_record list option" where
  "wal_contents crc w =
     (case wal_read_through_len crc (length (wal_file w)) w of Inl e \<Rightarrow> None | Inr rs \<Rightarrow> Some rs)"

interpretation wlog: redo_log "\<lambda>w fl pd. wal_rep crc w fl pd \<and> wal_healthy w" entry_fits
  "\<lambda>w. entry_record (next_lsn w)" "append_entry crc" "\<lambda>w. fst (wal_flush True w)" synced_len
  "\<lambda>n w. fst (discard_and_truncate_to True n w)" "wal_contents crc"
  for crc
proof (unfold_locales, goal_cases)
  case (1 w fl pd e)
  obtain tx ty d where e: "e = (tx, ty, d)" by (cases e)
  obtain w' r where a: "wal_append crc True tx ty d w = (w', r)" by (cases "wal_append crc True tx ty d w")
  from 1 e have d: "length d \<le> MAX_WAL_RECORD_SIZE" by (simp add: entry_fits_def)
  from wal_append_rep [OF _ d a] 1 a show ?case unfolding e by (auto simp: append_entry_def)
next
  case (2 w fl pd)
  obtain w' r where "wal_flush True w = (w', r)" by (cases "wal_flush True w")
  with wal_flush_rep(2) [of crc w fl pd True w' r] 2 show ?case by auto
next
  case (3 w fl pd v fl' pd')
  obtain v' r where "discard_and_truncate_to True (synced_len w) v = (v', r)"
    by (cases "discard_and_truncate_to True (synced_len w) v")
  with discard_to_rep [of crc w fl pd v fl' pd' v' r] 3 show ?case by auto
next
  case (4 w fl)
  then show ?case using wal_read_rep [of crc w fl] by (simp add: wal_contents_def)
qed

end
