(* ===== verification/Wal_Correct.thy ===== *)
theory Wal_Correct
  imports Wal_Log
begin

text \<open>The properties of the write-ahead log as a file: recovery, transactions and rollback.\<close>

text \<open>A record and a stand-in for the checksum, on which the properties are instantiated.\<close>

definition sample_record :: wal_record where
  "sample_record = \<lparr>tx_id = 7, record_type = RInsert, rec_lsn = 1, rec_data = [1, 2]\<rparr>"

definition len_crc :: "bytes \<Rightarrow> u32" where
  "len_crc bs = word_of_nat (length bs)"

lemma sample_log:
  "parse_wal_records len_crc (wal_file_header @ enc_record len_crc sample_record) 35 = Inr [sample_record]"
  using parse_log [of "[sample_record]" len_crc 35]
  by (simp add: record_ok_def sample_record_def layout_simps)

text \<open>
  C17. Recovery is sound: when \<open>parse_wal_records\<close> returns records, they are exactly what the bytes of the log
  encode, from the first record up to some position \<open>p\<close>, and what is discarded behind \<open>p\<close> is a tail
  shorter than a record header or a damaged tail with no valid record at \<open>p\<close> or within one megabyte
  after it. Damage in the middle of the log is therefore never mistaken for a torn tail there.
\<close>

theorem wal_recovery_sound:
  assumes "parse_wal_records crc log max_len = Inr rs" "wal_records_start_readonly log = Inr start"
    and "length log + CORRUPTION_PROBE_WINDOW < 2 ^ 64" "start \<le> max_len"
  shows "\<exists>p. start \<le> p \<and> p \<le> min (length log) max_len \<and>
    sub log start (p - start) = concat (map (enc_record crc) rs) \<and>
    (p + WAL_HEADER_SIZE > min (length log) max_len \<or>
     (\<forall>q. p \<le> q \<and> q \<le> p + CORRUPTION_PROBE_WINDOW \<longrightarrow> \<not> valid_at crc log (min (length log) max_len) q))"
proof -
  have "start \<le> length log"
    using assms(2) by (auto simp: wal_records_start_readonly_def layout_simps Let_def split: if_splits)
  moreover have "parse_records_from crc log start (min (length log) max_len) = Inr rs"
    using assms(1,2) by (simp add: parse_wal_records_def)
  moreover have "min (length log) max_len + CORRUPTION_PROBE_WINDOW < 2 ^ 64" using assms(3) by linarith
  ultimately obtain p where "start \<le> p" "p \<le> min (length log) max_len"
    "sub log start (p - start) = concat (map (enc_record crc) rs)"
    "p + WAL_HEADER_SIZE > min (length log) max_len \<or>
     (\<forall>q. p \<le> q \<and> q \<le> p + CORRUPTION_PROBE_WINDOW \<longrightarrow> \<not> valid_at crc log (min (length log) max_len) q)"
    using parse_records_sound [of crc log start "min (length log) max_len" rs] assms(4) by auto
  then show ?thesis by blast
qed

theorem wal_recovery_sound_witness:
  "\<exists>p. 8 \<le> p \<and> p \<le> 35 \<and>
    sub (wal_file_header @ enc_record len_crc sample_record) 8 (p - 8) =
      enc_record len_crc sample_record"
  using wal_recovery_sound [OF sample_log records_start_header]
  by (auto simp: layout_simps sample_record_def)

text \<open>
  C18. Crash in the middle of a write: a log that ends in an incomplete record recovers to exactly the complete
  records before it, or, only when the torn bytes happen to contain a complete valid record
  themselves, is reported as damaged. A tail shorter than a record header always recovers.
\<close>

theorem wal_torn_tail:
  assumes "\<forall>r \<in> set (rs @ [r']). record_ok r" "k < length (enc_record crc r')"
    and "log = wal_file_header @ concat (map (enc_record crc) rs) @ take k (enc_record crc r')"
    and "length log + CORRUPTION_PROBE_WINDOW < 2 ^ 64" "length log \<le> max_len"
  shows "parse_wal_records crc log max_len = Inr rs \<or>
    WAL_HEADER_SIZE \<le> k \<and> (\<exists>p q. parse_wal_records crc log max_len = Inl (WalReplay p RecordPastEnd q) \<and>
      valid_at crc log (length log) q)"
proof -
  let ?pre = "wal_file_header @ concat (map (enc_record crc) rs)"
  define p where "p = length ?pre"
  have ok: "\<forall>r \<in> set rs. record_ok r" "record_ok r'" using assms(1) by auto
  have torn: "parse_record_at crc log (p) (length log) =
      Inr (if k < WAL_HEADER_SIZE then ParsedEof else ParsedCorrupt RecordPastEnd None)"
    unfolding p_def by (rule parse_torn_record [OF _ assms(2) ok(2)]) (simp add: assms(3))
  have run: "parse_records_from crc log (length wal_file_header) (length log) =
    (case parse_records_from crc log (length wal_file_header + length (concat (map (enc_record crc) rs))) (length log) of
       Inl e \<Rightarrow> Inl e | Inr xs \<Rightarrow> Inr (rs @ xs))"
    by (rule parse_records_run [of rs _ log _ crc "take k (enc_record crc r')"]) (use ok assms in simp_all)
  have w: "p + CORRUPTION_PROBE_WINDOW < 2 ^ 64" using assms(3,4) by (simp add: p_def)
  have start: "wal_records_start_readonly log = Inr 8" unfolding assms(3) by (rule records_start_header)
  have parse: "parse_wal_records crc log max_len = (case parse_records_from crc log (p) (length log) of
      Inl e \<Rightarrow> Inl e | Inr xs \<Rightarrow> Inr (rs @ xs))"
    using run start assms(5) by (simp add: parse_wal_records_def min_absorb1 p_def)
  show ?thesis
  proof (cases "k < WAL_HEADER_SIZE")
    case True
    with torn have "parse_records_from crc log (p) (length log) = Inr []"
      by (simp add: parse_records_from.simps [of crc log "p"])
    then show ?thesis using parse by simp
  next
    case False
    then have t: "parse_record_at crc log (p) (length log) = Inr (ParsedCorrupt RecordPastEnd None)"
      using torn by simp
    from probe_cases [of "length log" log p crc None, OF order_refl w]
    show ?thesis
    proof (elim disjE exE conjE)
      assume "probe_for_valid_record crc log None (p) (length log) = Inr None"
      with t have "parse_records_from crc log (p) (length log) = Inr []"
        by (simp add: parse_records_from.simps [of crc log "p"])
      then show ?thesis using parse by simp
    next
      fix q
      assume "probe_for_valid_record crc log None (p) (length log) = Inr (Some q)"
        and v: "valid_at crc log (length log) q"
      with t have "parse_records_from crc log (p) (length log) = Inl (WalReplay (p) RecordPastEnd q)"
        by (simp add: parse_records_from.simps [of crc log "p"])
      then show ?thesis using parse v False by auto
    qed
  qed
qed

theorem wal_torn_tail_witness:
  "parse_wal_records len_crc (wal_file_header @ enc_record len_crc sample_record @
     take 20 (enc_record len_crc sample_record)) 55 = Inr [sample_record]"
  using wal_torn_tail [of "[sample_record]" sample_record 20 len_crc _ 55, OF _ _ refl]
  by (simp add: sample_record_def record_ok_def layout_simps)

text \<open>
  C19. Transactions on the log: from a handle whose records are all flushed, appending entries and
  flushing makes them readable after the earlier records, with consecutive LSNs; appending the same
  entries and truncating back to the mark taken before them leaves exactly the earlier records. The
  batching, the write-through of large records and the sync mode make no difference.
\<close>

fun stamp_from :: "u64 \<Rightarrow> wal_entry list \<Rightarrow> wal_record list" where
  "stamp_from l [] = []"
| "stamp_from l (e # es) = entry_record l e # stamp_from (l + 1) es"

lemma wlog_stamps:
  "wal_rep crc w fl pd \<Longrightarrow> \<forall>e \<in> set es. entry_fits e \<Longrightarrow> wlog.stamps crc es w = stamp_from (next_lsn w) es"
proof (induction es arbitrary: w fl pd)
  case (Cons e es)
  obtain tx ty d where e: "e = (tx, ty, d)" by (cases e)
  obtain w' r where a: "wal_append crc True tx ty d w = (w', r)" by (cases "wal_append crc True tx ty d w")
  have d: "length d \<le> MAX_WAL_RECORD_SIZE" using Cons.prems(2) by (simp add: e entry_fits_def)
  note app = wal_append_rep [OF Cons.prems(1) d a]
  from app(1) obtain fl' pd' where "wal_rep crc w' (fl @ fl') pd'" by blast
  moreover have "append_entry crc e w = w'" using a by (simp add: e append_entry_def)
  ultimately show ?case using Cons.IH Cons.prems(2) app(2) by (simp add: wlog.stamps.simps)
qed (simp add: wlog.stamps.simps)

lemma wal_contents_Some:
  "wal_contents crc w = Some rs \<longleftrightarrow> wal_read_through_len crc (length (wal_file w)) w = Inr rs"
  by (auto simp: wal_contents_def split: sum.splits)

theorem wal_commit_rollback:
  assumes "wal_rep crc w fl []" "wal_healthy w" "\<forall>e \<in> set es. entry_fits e"
  shows "let w' = fold (append_entry crc) es w; committed = fst (wal_flush True w');
       rolled_back = fst (discard_and_truncate_to True (synced_len w) w')
     in wal_read_through_len crc (length (wal_file committed)) committed = Inr (fl @ stamp_from (next_lsn w) es) \<and>
        wal_read_through_len crc (length (wal_file rolled_back)) rolled_back = Inr fl"
  using wlog.commit_contents [of crc w fl es] wlog.rollback_contents [of crc w fl es] wlog_stamps [of crc w fl "[]" es] assms
  by (simp add: wal_contents_Some Let_def)

theorem wal_commit_rollback_witness:
  "let w' = append_entry len_crc (7, RInsert, [1, 2]) (wal_create 64); committed = fst (wal_flush True w')
   in wal_read_through_len len_crc (length (wal_file committed)) committed = Inr [sample_record]"
  using wal_commit_rollback [OF wal_create_rep, of "[(7, RInsert, [1, 2])]" len_crc 64]
  by (simp add: Let_def entry_fits_def layout_simps entry_record_def sample_record_def wal_create_def)

text \<open>
  C20. \<open>discard_pending\<close> removes exactly the records that were not flushed, but it leaves the flushed
  length of the handle at the start of the log instead of at its end: a second call, with nothing
  pending, erases every flushed record.
\<close>

theorem wal_discard_pending_twice:
  assumes "wal_rep crc w fl pd"
  shows "let once = fst (discard_pending True w); twice = fst (discard_pending True once)
     in wal_read_through_len crc (length (wal_file once)) once = Inr fl \<and>
        wal_read_through_len crc (length (wal_file twice)) twice = Inr []"
proof -
  let ?n = "8 + length (concat (map (enc_record crc) fl))"
  obtain wr where "writer w = Some wr"
    and wr: "wal_file w @ w_buf wr = wal_file_header @ concat (map (enc_record crc) (fl @ pd))"
    "?n \<le> length (wal_file w)" "synced_len w = ?n" "sync_mode w \<noteq> SyncOff" "\<forall>r \<in> set fl. record_ok r"
    and start: "records_start w = 8"
    using assms by (auto simp: wal_rep_def)
  have "take ?n (wal_file w) = take ?n (wal_file w @ w_buf wr)" using wr(2) by simp
  also have "\<dots> = wal_file_header @ concat (map (enc_record crc) fl)" unfolding wr(1) by simp
  finally have once: "file_set_len ?n (wal_file w) = wal_file_header @ concat (map (enc_record crc) fl)"
    using wr(2) by (simp add: file_set_len_def)
  have twice: "file_set_len 8 (wal_file_header @ xs) = wal_file_header @ concat (map (enc_record crc) [])" for xs
    by (simp add: file_set_len_def)
  show ?thesis
    using wr(3,4) start once twice parse_log [OF wr(5), of crc] parse_log [of "[]" crc]
    by (simp add: discard_pending_def wal_read_through_len_def Let_def)
qed

theorem wal_discard_pending_twice_witness:
  "let w = fst (wal_flush True (append_entry len_crc (7, RInsert, [1, 2]) (wal_create 64)));
       once = fst (discard_pending True w); twice = fst (discard_pending True once)
   in wal_read_through_len len_crc (length (wal_file once)) once = Inr [sample_record] \<and>
      wal_read_through_len len_crc (length (wal_file twice)) twice = Inr []"
proof -
  let ?w1 = "append_entry len_crc (7, RInsert, [1, 2]) (wal_create 64)"
  have e: "entry_fits (7, RInsert, [1, 2])" by (simp add: entry_fits_def layout_simps)
  have w0: "wal_rep len_crc (wal_create 64) [] [] \<and> wal_healthy (wal_create 64)" using wal_create_rep by blast
  obtain fl pd where w1: "wal_rep len_crc ?w1 fl pd \<and> wal_healthy ?w1"
    "fl @ pd = [entry_record (next_lsn (wal_create 64)) (7, RInsert, [1, 2])]"
    using wlog.append_rep [OF w0 e] by auto
  have "wal_rep len_crc (fst (wal_flush True ?w1)) (fl @ pd) []" using wlog.flush_rep [OF w1(1)] by simp
  moreover have "fl @ pd = [sample_record]"
    unfolding w1(2) by (simp add: wal_create_def entry_record_def sample_record_def)
  ultimately show ?thesis using wal_discard_pending_twice [of len_crc _ "[sample_record]" "[]"] by (simp add: Let_def)
qed

end
