(* ===== verification/Wal_Group_Commit.thy ===== *)
theory Wal_Group_Commit
  imports Wal_Handle
begin

text \<open>
  Group commit as a transition system. Committers wait on durability tickets concurrently; each step
  below is one atomic access of \<open>WalSyncShared::sync_until\<close>, of the background flusher's loop, of
  \<open>replace_file\<close>, or the registration of a new generation at the end of \<open>flush_to_os\<close>.

  The environment is the operating system: an fsync that succeeds makes every generation written
  before it started durable, except the ones an earlier failed fsync has dropped; an fsync that fails
  may drop any generations that are not durable yet.
\<close>

subsection \<open>States and steps\<close>

datatype waiter =
    Idle
  | Waiting nat
  | Leading nat
  | Syncing nat nat
  | Advancing nat nat
  | Failing nat
  | Finished nat bool

datatype flusher_pc = FSleeping | FChecked | FSyncing nat | FAdvancing nat | FFailing | FStopped

record gc =
  gc_dirty :: nat
  gc_synced :: nat
  gc_poisoned :: bool
  gc_lock :: "nat option"
  gc_waiter :: "nat \<Rightarrow> waiter"
  gc_flusher :: flusher_pc
  gc_durable :: "nat set"
  gc_settled :: "nat set"
  gc_lost :: "nat set"

inductive gc_step :: "gc \<Rightarrow> gc \<Rightarrow> bool" where
  register: "gc_step s (s\<lparr>gc_dirty := gc_dirty s + 1\<rparr>)"
| wait_covered: "gc_waiter s t = Idle \<Longrightarrow> gen \<le> gc_dirty s \<Longrightarrow> gc_synced s \<ge> gen \<Longrightarrow>
    gc_step s (s\<lparr>gc_waiter := (gc_waiter s)(t := Finished gen True)\<rparr>)"
| wait_queue: "gc_waiter s t = Idle \<Longrightarrow> gen \<le> gc_dirty s \<Longrightarrow> gc_synced s < gen \<Longrightarrow>
    gc_step s (s\<lparr>gc_waiter := (gc_waiter s)(t := Waiting gen)\<rparr>)"
| take_lock: "gc_waiter s t = Waiting gen \<Longrightarrow> gc_lock s = None \<Longrightarrow>
    gc_step s (s\<lparr>gc_lock := Some t, gc_waiter := (gc_waiter s)(t := Leading gen)\<rparr>)"
| lead_covered: "gc_waiter s t = Leading gen \<Longrightarrow> gc_synced s \<ge> gen \<Longrightarrow>
    gc_step s (s\<lparr>gc_lock := None, gc_waiter := (gc_waiter s)(t := Finished gen True)\<rparr>)"
| lead_poisoned: "gc_waiter s t = Leading gen \<Longrightarrow> gc_synced s < gen \<Longrightarrow> gc_poisoned s \<Longrightarrow>
    gc_step s (s\<lparr>gc_lock := None, gc_waiter := (gc_waiter s)(t := Finished gen False)\<rparr>)"
| lead_sync: "gc_waiter s t = Leading gen \<Longrightarrow> gc_synced s < gen \<Longrightarrow> \<not> gc_poisoned s \<Longrightarrow>
    gc_step s (s\<lparr>gc_waiter := (gc_waiter s)(t := Syncing gen (gc_dirty s))\<rparr>)"
| fsync_ok: "gc_waiter s t = Syncing gen cover \<Longrightarrow>
    gc_step s (s\<lparr>gc_durable := gc_durable s \<union> ({1..cover} - gc_lost s),
                gc_waiter := (gc_waiter s)(t := Advancing gen cover)\<rparr>)"
| fsync_err: "gc_waiter s t = Syncing gen cover \<Longrightarrow> dropped \<subseteq> {1..gc_dirty s} - gc_durable s \<Longrightarrow>
    gc_step s (s\<lparr>gc_lost := gc_lost s \<union> dropped, gc_waiter := (gc_waiter s)(t := Failing gen)\<rparr>)"
| advance: "gc_waiter s t = Advancing gen cover \<Longrightarrow>
    gc_step s (s\<lparr>gc_synced := max (gc_synced s) cover, gc_lock := None,
                gc_waiter := (gc_waiter s)(t := Finished gen True)\<rparr>)"
| poison: "gc_waiter s t = Failing gen \<Longrightarrow>
    gc_step s (s\<lparr>gc_poisoned := True, gc_lock := None, gc_waiter := (gc_waiter s)(t := Finished gen False)\<rparr>)"
| settle: "gc_lock s = None \<Longrightarrow>
    gc_step s (s\<lparr>gc_synced := max (gc_synced s) (gc_dirty s), gc_settled := gc_settled s \<union> {1..gc_dirty s}\<rparr>)"
| flusher_check: "gc_flusher s = FSleeping \<Longrightarrow> \<not> gc_poisoned s \<Longrightarrow> gc_step s (s\<lparr>gc_flusher := FChecked\<rparr>)"
| flusher_stop: "gc_flusher s = FSleeping \<Longrightarrow> gc_poisoned s \<Longrightarrow> gc_step s (s\<lparr>gc_flusher := FStopped\<rparr>)"
| flusher_clean: "gc_flusher s = FChecked \<Longrightarrow> gc_dirty s \<le> gc_synced s \<Longrightarrow> gc_step s (s\<lparr>gc_flusher := FSleeping\<rparr>)"
| flusher_sync: "gc_flusher s = FChecked \<Longrightarrow> gc_dirty s > gc_synced s \<Longrightarrow>
    gc_step s (s\<lparr>gc_flusher := FSyncing (gc_dirty s)\<rparr>)"
| flusher_fsync_ok: "gc_flusher s = FSyncing d \<Longrightarrow>
    gc_step s (s\<lparr>gc_durable := gc_durable s \<union> ({1..d} - gc_lost s), gc_flusher := FAdvancing d\<rparr>)"
| flusher_fsync_err: "gc_flusher s = FSyncing d \<Longrightarrow> dropped \<subseteq> {1..gc_dirty s} - gc_durable s \<Longrightarrow>
    gc_step s (s\<lparr>gc_lost := gc_lost s \<union> dropped, gc_flusher := FFailing\<rparr>)"
| flusher_advance: "gc_flusher s = FAdvancing d \<Longrightarrow>
    gc_step s (s\<lparr>gc_synced := max (gc_synced s) d, gc_flusher := FSleeping\<rparr>)"
| flusher_poison: "gc_flusher s = FFailing \<Longrightarrow> gc_step s (s\<lparr>gc_poisoned := True, gc_flusher := FStopped\<rparr>)"

definition gc_start :: "flusher_pc \<Rightarrow> gc" where
  "gc_start f = \<lparr>gc_dirty = 0, gc_synced = 0, gc_poisoned = False, gc_lock = None, gc_waiter = (\<lambda>_. Idle),
     gc_flusher = f, gc_durable = {}, gc_settled = {}, gc_lost = {}\<rparr>"

text \<open>\<open>FStopped\<close> is Full mode, which runs no flusher; \<open>FSleeping\<close> is Normal mode.\<close>

inductive gc_reachable :: "flusher_pc \<Rightarrow> gc \<Rightarrow> bool" for f where
  start: "gc_reachable f (gc_start f)"
| step: "gc_reachable f s \<Longrightarrow> gc_step s s' \<Longrightarrow> gc_reachable f s'"

subsection \<open>The invariant of Full mode\<close>

definition holds_lock :: "waiter \<Rightarrow> bool" where
  "holds_lock w \<longleftrightarrow> (case w of Leading _ \<Rightarrow> True | Syncing _ _ \<Rightarrow> True | Advancing _ _ \<Rightarrow> True
     | Failing _ \<Rightarrow> True | _ \<Rightarrow> False)"

definition gc_safe :: "gc \<Rightarrow> nat \<Rightarrow> bool" where
  "gc_safe s n \<longleftrightarrow> (\<forall>g. 0 < g \<and> g \<le> n \<longrightarrow> g \<in> gc_durable s \<union> gc_settled s)"

definition waiter_ok :: "gc \<Rightarrow> waiter \<Rightarrow> bool" where
  "waiter_ok s w \<longleftrightarrow> (case w of
       Idle \<Rightarrow> True
     | Waiting gen \<Rightarrow> gen \<le> gc_dirty s
     | Leading gen \<Rightarrow> gen \<le> gc_dirty s
     | Syncing gen cover \<Rightarrow> gen \<le> cover \<and> cover \<le> gc_dirty s \<and> gc_lost s = {} \<and> \<not> gc_poisoned s
     | Advancing gen cover \<Rightarrow> gen \<le> cover \<and> cover \<le> gc_dirty s \<and> gc_safe s cover
     | Failing gen \<Rightarrow> True
     | Finished gen ok \<Rightarrow> ok \<longrightarrow> gc_safe s gen)"

definition gc_inv :: "gc \<Rightarrow> bool" where
  "gc_inv s \<longleftrightarrow> gc_flusher s = FStopped \<and> gc_synced s \<le> gc_dirty s \<and> gc_safe s (gc_synced s) \<and>
     (\<forall>t. holds_lock (gc_waiter s t) \<longleftrightarrow> gc_lock s = Some t) \<and> (\<forall>t. waiter_ok s (gc_waiter s t)) \<and>
     (gc_lost s \<noteq> {} \<longrightarrow> gc_poisoned s \<or> (\<exists>t gen. gc_waiter s t = Failing gen))"

lemma gc_safe_mono: "gc_safe s n \<Longrightarrow> m \<le> n \<Longrightarrow> gc_safe s m"
  by (auto simp: gc_safe_def)

lemma waiter_ok_frame:
  assumes "waiter_ok s w" "gc_dirty s \<le> gc_dirty s'" "gc_durable s \<subseteq> gc_durable s'" "gc_settled s \<subseteq> gc_settled s'"
    and "holds_lock w \<Longrightarrow> gc_lost s' = gc_lost s \<and> gc_poisoned s' = gc_poisoned s"
  shows "waiter_ok s' w"
  using assms by (cases w) (auto simp: waiter_ok_def gc_safe_def holds_lock_def)

text \<open>One waiter moves; the rest of the state only grows.\<close>

lemma gc_inv_move:
  assumes inv: "gc_inv s" and w: "gc_waiter s' = (gc_waiter s)(t := w')"
    and fl: "gc_flusher s' = gc_flusher s" and syn: "gc_synced s' \<le> gc_dirty s'" "gc_safe s' (gc_synced s')"
    and grow: "gc_dirty s \<le> gc_dirty s'" "gc_durable s \<subseteq> gc_durable s'" "gc_settled s \<subseteq> gc_settled s'"
    and lock: "gc_lock s = None \<or> gc_lock s = Some t \<or> \<not> holds_lock w' \<and> gc_lock s' = gc_lock s \<and> gc_lock s \<noteq> Some t"
      "gc_lock s = None \<or> gc_lock s = Some t \<Longrightarrow> gc_lock s' = (if holds_lock w' then Some t else None)"
    and same: "gc_lock s' = gc_lock s \<and> gc_lock s \<noteq> Some t \<Longrightarrow> gc_lost s' = gc_lost s \<and> gc_poisoned s' = gc_poisoned s"
    and ok: "waiter_ok s' w'"
    and lost: "gc_lost s' \<noteq> {} \<Longrightarrow> gc_poisoned s' \<or> (\<exists>u gen. gc_waiter s' u = Failing gen)"
  shows "gc_inv s'"
proof -
  have holds: "holds_lock (gc_waiter s u) \<longleftrightarrow> gc_lock s = Some u" for u using inv by (simp add: gc_inv_def)
  have "holds_lock (gc_waiter s' u) \<longleftrightarrow> gc_lock s' = Some u" for u
    using holds [of u] lock w by (auto split: if_splits)
  moreover have "waiter_ok s' (gc_waiter s' u)" for u
  proof (cases "u = t")
    case False
    have "gc_lost s' = gc_lost s \<and> gc_poisoned s' = gc_poisoned s" if "holds_lock (gc_waiter s u)"
      using that holds [of u] False lock same by auto
    with inv False show ?thesis
      using waiter_ok_frame [OF _ grow] w by (auto simp: gc_inv_def)
  qed (use ok w in simp)
  ultimately show ?thesis using inv fl syn lost by (simp add: gc_inv_def)
qed

lemma gc_inv_lock: "gc_inv s \<Longrightarrow> gc_lock s = Some t \<longleftrightarrow> holds_lock (gc_waiter s t)"
  by (simp add: gc_inv_def)

lemma gc_inv_waiter: "gc_inv s \<Longrightarrow> waiter_ok s (gc_waiter s t)"
  by (simp add: gc_inv_def)

lemma gc_inv_synced: "gc_inv s \<Longrightarrow> gc_synced s \<le> gc_dirty s \<and> gc_safe s (gc_synced s)"
  by (simp add: gc_inv_def)

text \<open>What the last conjunct of the invariant asks when the moving waiter was not failing.\<close>

lemma gc_inv_lost:
  assumes "gc_inv s" "\<And>gen. gc_waiter s t \<noteq> Failing gen" "gc_lost s \<noteq> {}"
  shows "gc_poisoned s \<or> (\<exists>u gen. ((gc_waiter s)(t := w)) u = Failing gen)"
proof -
  have "gc_poisoned s \<or> (\<exists>u gen. gc_waiter s u = Failing gen)" using assms(1,3) by (simp add: gc_inv_def)
  then show ?thesis using assms(2) by (metis fun_upd_other)
qed

lemma gc_inv_step:
  assumes "gc_step s s'" "gc_inv s"
  shows "gc_inv s'"
  using assms
proof (induction rule: gc_step.induct)
  case (register s)
  note frame = waiter_ok_frame [OF gc_inv_waiter [OF register]]
  show ?case
    using register by (auto simp: gc_inv_def gc_safe_def intro!: frame)
next
  case (wait_covered s t gen)
  note facts = gc_inv_lock [OF wait_covered(4), of t] gc_inv_synced [OF wait_covered(4)] gc_inv_lost [OF wait_covered(4), of t]
  show ?case
    by (rule gc_inv_move [OF wait_covered(4), of _ t "Finished gen True"])
      (use wait_covered facts gc_safe_mono in \<open>auto simp: holds_lock_def waiter_ok_def gc_safe_def\<close>)
next
  case (wait_queue s t gen)
  note facts = gc_inv_lock [OF wait_queue(4), of t] gc_inv_synced [OF wait_queue(4)] gc_inv_lost [OF wait_queue(4), of t]
  show ?case
    by (rule gc_inv_move [OF wait_queue(4), of _ t "Waiting gen"])
      (use wait_queue facts in \<open>auto simp: holds_lock_def waiter_ok_def gc_safe_def\<close>)
next
  case (take_lock s t gen)
  note facts = gc_inv_lock [OF take_lock(3), of t] gc_inv_synced [OF take_lock(3)] gc_inv_lost [OF take_lock(3), of t]
    gc_inv_waiter [OF take_lock(3), of t]
  show ?case
    by (rule gc_inv_move [OF take_lock(3), of _ t "Leading gen"])
      (use take_lock facts in \<open>auto simp: holds_lock_def waiter_ok_def gc_safe_def\<close>)
next
  case (lead_covered s t gen)
  note facts = gc_inv_lock [OF lead_covered(3), of t] gc_inv_synced [OF lead_covered(3)] gc_inv_lost [OF lead_covered(3), of t]
    gc_inv_waiter [OF lead_covered(3), of t]
  show ?case
    by (rule gc_inv_move [OF lead_covered(3), of _ t "Finished gen True"])
      (use lead_covered facts in \<open>auto simp: holds_lock_def waiter_ok_def gc_safe_def\<close>)
next
  case (lead_poisoned s t gen)
  note facts = gc_inv_lock [OF lead_poisoned(4), of t] gc_inv_synced [OF lead_poisoned(4)]
  show ?case
    by (rule gc_inv_move [OF lead_poisoned(4), of _ t "Finished gen False"])
      (use lead_poisoned facts in \<open>auto simp: holds_lock_def waiter_ok_def gc_safe_def\<close>)
next
  case (lead_sync s t gen)
  note facts = gc_inv_lock [OF lead_sync(4), of t] gc_inv_synced [OF lead_sync(4)] gc_inv_waiter [OF lead_sync(4), of t]
  have "gc_lost s = {}"
  proof (rule ccontr)
    assume "gc_lost s \<noteq> {}"
    then obtain u g where "gc_waiter s u = Failing g" using lead_sync(3,4) by (auto simp: gc_inv_def)
    then have "gc_lock s = Some u" using gc_inv_lock [OF lead_sync(4), of u] by (simp add: holds_lock_def)
    with facts(1) lead_sync(1) \<open>gc_waiter s u = Failing g\<close> show False by (simp add: holds_lock_def)
  qed
  then show ?case
    by (intro gc_inv_move [OF lead_sync(4), of _ t "Syncing gen (gc_dirty s)"])
      (use lead_sync facts in \<open>auto simp: holds_lock_def waiter_ok_def gc_safe_def\<close>)
next
  case (fsync_ok s t gen cover)
  note facts = gc_inv_lock [OF fsync_ok(2), of t] gc_inv_synced [OF fsync_ok(2)] gc_inv_waiter [OF fsync_ok(2), of t]
  show ?case
    by (rule gc_inv_move [OF fsync_ok(2), of _ t "Advancing gen cover"])
      (use fsync_ok facts in \<open>auto simp: holds_lock_def waiter_ok_def gc_safe_def\<close>)
next
  case (fsync_err s t gen cover dropped)
  note facts = gc_inv_lock [OF fsync_err(3), of t] gc_inv_synced [OF fsync_err(3)] gc_inv_waiter [OF fsync_err(3), of t]
  show ?case
    by (rule gc_inv_move [OF fsync_err(3), of _ t "Failing gen"])
      (use fsync_err facts in \<open>auto simp: holds_lock_def waiter_ok_def gc_safe_def\<close>)
next
  case (advance s t gen cover)
  note facts = gc_inv_lock [OF advance(2), of t] gc_inv_synced [OF advance(2)] gc_inv_waiter [OF advance(2), of t]
    gc_inv_lost [OF advance(2), of t]
  show ?case
    by (rule gc_inv_move [OF advance(2), of _ t "Finished gen True"])
      (use advance facts in \<open>auto simp: holds_lock_def waiter_ok_def gc_safe_def max_def\<close>)
next
  case (poison s t gen)
  note facts = gc_inv_lock [OF poison(2), of t] gc_inv_synced [OF poison(2)]
  show ?case
    by (rule gc_inv_move [OF poison(2), of _ t "Finished gen False"])
      (use poison facts in \<open>auto simp: holds_lock_def waiter_ok_def gc_safe_def\<close>)
next
  case (settle s)
  note frame = waiter_ok_frame [OF gc_inv_waiter [OF settle(2)]]
  show ?case
    using settle by (auto simp: gc_inv_def gc_safe_def max_def intro!: frame)
qed (simp_all add: gc_inv_def)

lemma gc_inv_reachable: "gc_reachable FStopped s \<Longrightarrow> gc_inv s"
proof (induction rule: gc_reachable.induct)
  case start
  show ?case by (auto simp: gc_inv_def gc_start_def gc_safe_def waiter_ok_def holds_lock_def)
qed (rule gc_inv_step)

subsection \<open>Progress\<close>




subsection \<open>Two committers\<close>

text \<open>The states of the executions below, with the waiters 1 and 2.\<close>

definition two_waiters :: "nat \<Rightarrow> nat \<Rightarrow> bool \<Rightarrow> nat option \<Rightarrow> waiter \<Rightarrow> waiter \<Rightarrow> flusher_pc \<Rightarrow> nat set \<Rightarrow> nat set \<Rightarrow> gc" where
  "two_waiters d sy p l w1 w2 f du lo = \<lparr>gc_dirty = d, gc_synced = sy, gc_poisoned = p, gc_lock = l,
     gc_waiter = (\<lambda>t. if t = 1 then w1 else if t = 2 then w2 else Idle), gc_flusher = f, gc_durable = du,
     gc_settled = {}, gc_lost = lo\<rparr>"

lemma two_waiters_step:
  assumes "gc_step (two_waiters d sy p l w1 w2 f du lo) s'"
    and "s' = two_waiters d' sy' p' l' w1' w2' f' du' lo'"
  shows "gc_step (two_waiters d sy p l w1 w2 f du lo) (two_waiters d' sy' p' l' w1' w2' f' du' lo')"
  using assms by simp

lemma two_waiters_start: "gc_start f = two_waiters 0 0 False None Idle Idle f {} {}"
  by (simp add: gc_start_def two_waiters_def fun_eq_iff)

lemma two_waiters_register:
  "gc_reachable f (two_waiters 1 0 False None Idle Idle f {} {})"
  using gc_reachable.step [OF gc_reachable.start gc_step.register, of f]
  unfolding two_waiters_start by (simp add: two_waiters_def)

lemma two_waiters_steps:
  "gc_step (two_waiters 1 0 False None Idle Idle f {} {}) (two_waiters 1 0 False None (Waiting 1) Idle f {} {})"
  "gc_step (two_waiters 1 0 False None (Waiting 1) Idle f {} {}) (two_waiters 1 0 False (Some 1) (Leading 1) Idle f {} {})"
  "gc_step (two_waiters 1 0 False (Some 1) (Leading 1) Idle f {} {}) (two_waiters 1 0 False (Some 1) (Syncing 1 1) Idle f {} {})"
  "gc_step (two_waiters 1 0 False (Some 1) (Syncing 1 1) Idle f {} {}) (two_waiters 1 0 False (Some 1) (Advancing 1 1) Idle f {1} {})"
  "gc_step (two_waiters 1 0 False (Some 1) (Advancing 1 1) Idle f {1} {}) (two_waiters 1 1 False None (Finished 1 True) Idle f {1} {})"
proof -
  show "gc_step (two_waiters 1 0 False None Idle Idle f {} {}) (two_waiters 1 0 False None (Waiting 1) Idle f {} {})"
    by (rule two_waiters_step, rule wait_queue [of _ 1 1]) (simp_all add: two_waiters_def fun_eq_iff)
  show "gc_step (two_waiters 1 0 False None (Waiting 1) Idle f {} {}) (two_waiters 1 0 False (Some 1) (Leading 1) Idle f {} {})"
    by (rule two_waiters_step, rule take_lock [of _ 1 1]) (simp_all add: two_waiters_def fun_eq_iff)
  show "gc_step (two_waiters 1 0 False (Some 1) (Leading 1) Idle f {} {}) (two_waiters 1 0 False (Some 1) (Syncing 1 1) Idle f {} {})"
    by (rule two_waiters_step, rule lead_sync [of _ 1 1]) (simp_all add: two_waiters_def fun_eq_iff)
  show "gc_step (two_waiters 1 0 False (Some 1) (Syncing 1 1) Idle f {} {}) (two_waiters 1 0 False (Some 1) (Advancing 1 1) Idle f {1} {})"
    by (rule two_waiters_step, rule fsync_ok [of _ 1 1 1]) (simp_all add: two_waiters_def fun_eq_iff)
  show "gc_step (two_waiters 1 0 False (Some 1) (Advancing 1 1) Idle f {1} {}) (two_waiters 1 1 False None (Finished 1 True) Idle f {1} {})"
    by (rule two_waiters_step, rule advance [of _ 1 1 1]) (simp_all add: two_waiters_def fun_eq_iff)
qed

text \<open>
  C21. Group commit in Full mode: in every interleaving of committers, flushes, fsyncs that succeed
  or fail, and log truncations, a committer whose wait returns \<open>Ok\<close> has its generation, and every
  earlier one, on stable storage or settled by a truncation. A failed fsync never lets a later wait
  report pages the operating system has dropped.
\<close>

theorem group_commit_safe:
  assumes "gc_reachable FStopped s" "gc_waiter s t = Finished gen True" "0 < g" "g \<le> gen"
  shows "g \<in> gc_durable s \<union> gc_settled s"
  using gc_inv_waiter [OF gc_inv_reachable [OF assms(1)], of t] assms(2-4)
  by (simp add: waiter_ok_def gc_safe_def)

theorem group_commit_safe_witness:
  "\<exists>s. gc_reachable FStopped s \<and> gc_waiter s 1 = Finished 1 True \<and> 1 \<in> gc_durable s \<union> gc_settled s"
proof -
  let ?s6 = "two_waiters 1 1 False None (Finished 1 True) Idle FStopped {1} {}"
  have "gc_reachable FStopped (two_waiters 1 0 False None Idle Idle FStopped {} {})"
    by (rule two_waiters_register)
  then have "gc_reachable FStopped (two_waiters 1 0 False None (Waiting 1) Idle FStopped {} {})"
    by (rule gc_reachable.step) (rule two_waiters_steps)
  then have "gc_reachable FStopped (two_waiters 1 0 False (Some 1) (Leading 1) Idle FStopped {} {})"
    by (rule gc_reachable.step) (rule two_waiters_steps)
  then have "gc_reachable FStopped (two_waiters 1 0 False (Some 1) (Syncing 1 1) Idle FStopped {} {})"
    by (rule gc_reachable.step) (rule two_waiters_steps)
  then have "gc_reachable FStopped (two_waiters 1 0 False (Some 1) (Advancing 1 1) Idle FStopped {1} {})"
    by (rule gc_reachable.step) (rule two_waiters_steps)
  then have r: "gc_reachable FStopped ?s6"
    by (rule gc_reachable.step) (rule two_waiters_steps)
  have f: "gc_waiter ?s6 1 = Finished 1 True" by (simp add: two_waiters_def)
  have "(1 :: nat) \<in> gc_durable ?s6 \<union> gc_settled ?s6" by (rule group_commit_safe [OF r f]) simp_all
  with r f show ?thesis by (intro exI conjI)
qed



lemma two_waiters_race:
  "gc_step (two_waiters 1 0 False None Idle Idle FSleeping {} {}) (two_waiters 1 0 False None Idle Idle FChecked {} {})"
  "gc_step (two_waiters 1 0 False None Idle Idle FChecked {} {}) (two_waiters 1 0 False None Idle Idle (FSyncing 1) {} {})"
  "gc_step (two_waiters 1 0 False (Some 1) (Syncing 1 1) Idle f {} {}) (two_waiters 1 0 False (Some 1) (Failing 1) Idle f {} {1})"
  "gc_step (two_waiters 1 0 False (Some 1) (Failing 1) Idle f {} {1}) (two_waiters 1 0 True None (Finished 1 False) Idle f {} {1})"
  "gc_step (two_waiters 1 0 True None (Finished 1 False) Idle (FSyncing 1) {} {1})
    (two_waiters 1 0 True None (Finished 1 False) Idle (FAdvancing 1) {} {1})"
  "gc_step (two_waiters 1 0 True None (Finished 1 False) Idle (FAdvancing 1) {} {1})
    (two_waiters 1 1 True None (Finished 1 False) Idle FSleeping {} {1})"
  "gc_step (two_waiters 1 1 True None (Finished 1 False) Idle FSleeping {} {1})
    (two_waiters 1 1 True None (Finished 1 False) (Finished 1 True) FSleeping {} {1})"
proof -
  show "gc_step (two_waiters 1 0 False None Idle Idle FSleeping {} {}) (two_waiters 1 0 False None Idle Idle FChecked {} {})"
    by (rule two_waiters_step, rule flusher_check) (simp_all add: two_waiters_def fun_eq_iff)
  show "gc_step (two_waiters 1 0 False None Idle Idle FChecked {} {}) (two_waiters 1 0 False None Idle Idle (FSyncing 1) {} {})"
    by (rule two_waiters_step, rule flusher_sync) (simp_all add: two_waiters_def fun_eq_iff)
  show "gc_step (two_waiters 1 0 False (Some 1) (Syncing 1 1) Idle f {} {}) (two_waiters 1 0 False (Some 1) (Failing 1) Idle f {} {1})"
    by (rule two_waiters_step, rule fsync_err [of _ 1 1 1 "{1}"]) (simp_all add: two_waiters_def fun_eq_iff)
  show "gc_step (two_waiters 1 0 False (Some 1) (Failing 1) Idle f {} {1}) (two_waiters 1 0 True None (Finished 1 False) Idle f {} {1})"
    by (rule two_waiters_step, rule poison [of _ 1 1]) (simp_all add: two_waiters_def fun_eq_iff)
  show "gc_step (two_waiters 1 0 True None (Finished 1 False) Idle (FSyncing 1) {} {1})
    (two_waiters 1 0 True None (Finished 1 False) Idle (FAdvancing 1) {} {1})"
    by (rule two_waiters_step, rule flusher_fsync_ok [of _ 1]) (simp_all add: two_waiters_def fun_eq_iff)
  show "gc_step (two_waiters 1 0 True None (Finished 1 False) Idle (FAdvancing 1) {} {1})
    (two_waiters 1 1 True None (Finished 1 False) Idle FSleeping {} {1})"
    by (rule two_waiters_step, rule flusher_advance [of _ 1]) (simp_all add: two_waiters_def fun_eq_iff)
  show "gc_step (two_waiters 1 1 True None (Finished 1 False) Idle FSleeping {} {1})
    (two_waiters 1 1 True None (Finished 1 False) (Finished 1 True) FSleeping {} {1})"
    by (rule two_waiters_step, rule wait_covered [of _ 2 1]) (simp_all add: two_waiters_def fun_eq_iff)
qed

text \<open>
  C23. In Normal mode the guarantee has a hole. The flusher reads the poison flag before its fsync and
  outside the leader lock. If a leader's fsync fails in between and the operating system drops the
  page, the flusher's own fsync reports success and advances \<open>synced_gen\<close>; a later wait on the lost
  generation, such as the one before a heap flush, then returns \<open>Ok\<close> on a poisoned log.
\<close>

theorem flusher_poison_race:
  "\<exists>s. gc_reachable FSleeping s \<and> gc_poisoned s \<and> gc_waiter s 2 = Finished 1 True \<and>
     1 \<in> gc_lost s \<and> 1 \<notin> gc_durable s \<union> gc_settled s"
proof -
  note steps = two_waiters_register [of FSleeping] two_waiters_race(1,2) two_waiters_steps(1-3) two_waiters_race(3-7)
  have "gc_reachable FSleeping (two_waiters 1 1 True None (Finished 1 False) (Finished 1 True) FSleeping {} {1})"
    by (rule gc_reachable.step, rule gc_reachable.step, rule gc_reachable.step, rule gc_reachable.step,
        rule gc_reachable.step, rule gc_reachable.step, rule gc_reachable.step, rule gc_reachable.step,
        rule gc_reachable.step, rule gc_reachable.step) (rule steps)+
  then show ?thesis by (intro exI conjI, assumption) (simp_all add: two_waiters_def)
qed

end
