(* ===== verification/Cursor.thy ===== *)
theory Cursor
  imports Utf8
begin

text \<open>
  What the decoders of the catalog share. A decoder reads a byte buffer at a position and returns the
  decoded value with the position behind it. Its outcome is a \<open>run\<close>, so a slice outside the buffer is
  a panic (\<open>None\<close>), around either an \<open>Option\<close> or a \<open>Result\<close>; \<open>try_opt\<close> and \<open>try_res\<close> are the \<open>?\<close>
  operator for the two (\<open>and_then\<close> where nothing can panic), and \<open>read_many\<close> is the loop that pushes a fixed number of decoded items.

  \<open>holds_at data pos bs\<close> says that the bytes \<open>bs\<close> stand at \<open>pos\<close>. The locale \<open>cursor_codec\<close> is the
  contract between an encoder and a fallible decoder; its lemmas lift the contract to sequences.
\<close>

definition try_opt :: "'a option run \<Rightarrow> ('a \<Rightarrow> 'b option run) \<Rightarrow> 'b option run" where
  "try_opt m f = (case m of None \<Rightarrow> None | Some None \<Rightarrow> Some None | Some (Some x) \<Rightarrow> f x)"

definition try_res :: "('e + 'a) run \<Rightarrow> ('a \<Rightarrow> ('e + 'b) run) \<Rightarrow> ('e + 'b) run" where
  "try_res m f = (case m of None \<Rightarrow> None | Some (Inl e) \<Rightarrow> Some (Inl e) | Some (Inr x) \<Rightarrow> f x)"

definition and_then :: "'e + 'a \<Rightarrow> ('a \<Rightarrow> 'e + 'b) \<Rightarrow> 'e + 'b" where
  "and_then m f = (case m of Inl e \<Rightarrow> Inl e | Inr x \<Rightarrow> f x)"

text \<open>\<open>for x in xs { write(&mut out, x)?; }\<close>, where \<open>write\<close> appends to the output.\<close>

fun write_many :: "('a \<Rightarrow> 'e + bytes) \<Rightarrow> 'a list \<Rightarrow> 'e + bytes" where
  "write_many f [] = Inr []"
| "write_many f (x # xs) = and_then (f x) (\<lambda>a. and_then (write_many f xs) (\<lambda>b. Inr (a @ b)))"

text \<open>\<open>opt.ok_or_else(|| e)\<close> under a possible panic.\<close>

definition ok_or :: "'e \<Rightarrow> 'a option run \<Rightarrow> ('e + 'a) run" where
  "ok_or e m = (case m of None \<Rightarrow> None | Some None \<Rightarrow> Some (Inl e) | Some (Some x) \<Rightarrow> Some (Inr x))"

text \<open>\<open>let mut v = Vec::new(); for _ in 0..n { v.push(read(data, pos)?) }\<close>\<close>

fun read_many :: "(bytes \<Rightarrow> nat \<Rightarrow> ('e + 'a \<times> nat) run) \<Rightarrow> nat \<Rightarrow> bytes \<Rightarrow> nat \<Rightarrow> ('e + 'a list \<times> nat) run" where
  "read_many dec 0 data pos = Some (Inr ([], pos))"
| "read_many dec (Suc n) data pos =
     try_res (dec data pos) (\<lambda>(x, pos).
     try_res (read_many dec n data pos) (\<lambda>(xs, pos).
     Some (Inr (x # xs, pos))))"

text \<open>\<open>out.extend_from_slice(&(s.len() as u32).to_le_bytes()); out.extend_from_slice(s)\<close>\<close>

definition prefix32 :: "bytes \<Rightarrow> bytes" where
  "prefix32 s = u32_to_le (word_of_nat (length s)) @ s"

definition prefix16 :: "bytes \<Rightarrow> bytes" where
  "prefix16 s = u16_to_le (word_of_nat (length s)) @ s"

subsection \<open>Bytes at a position\<close>

definition holds_at :: "bytes \<Rightarrow> nat \<Rightarrow> bytes \<Rightarrow> bool" where
  "holds_at data pos bs \<longleftrightarrow> pos + length bs \<le> length data \<and> sub data pos (length bs) = bs"

lemma holds_at_Nil [simp]: "holds_at data pos [] \<longleftrightarrow> pos \<le> length data"
  by (simp add: holds_at_def)

lemma holds_at_append [simp]:
  "holds_at data pos (xs @ ys) \<longleftrightarrow> holds_at data pos xs \<and> holds_at data (pos + length xs) ys"
proof -
  have *: "sub data pos (length xs + length ys) = sub data pos (length xs) @ sub data (pos + length xs) (length ys)"
    by (simp add: sub_def take_add add.commute)
  have "pos + length xs + length ys \<le> length data \<Longrightarrow> length (sub data pos (length xs)) = length xs"
    by simp
  then show ?thesis
    by (auto simp: holds_at_def *)
qed

lemma holds_at_Cons [simp]:
  "holds_at data pos (b # bs) \<longleftrightarrow> pos < length data \<and> data ! pos = b \<and> holds_at data (Suc pos) bs"
proof -
  have "holds_at data pos [b] \<longleftrightarrow> pos < length data \<and> data ! pos = b"
    by (auto simp: holds_at_def sub_def take_Suc_conv_app_nth Suc_le_eq take_Suc hd_drop_conv_nth)
  then show ?thesis
    using holds_at_append [of data pos "[b]" bs] by auto
qed

lemma holds_at_start: "holds_at (pre @ bs @ post) (length pre) bs"
  by (simp add: holds_at_def sub_def)

lemma holds_at_self [simp]: "holds_at bs 0 bs"
  by (simp add: holds_at_def)

lemma holds_at_bound: "holds_at data pos bs \<Longrightarrow> pos + length bs \<le> length data"
  by (simp add: holds_at_def)

lemma slice_run_holds: "holds_at data pos bs \<Longrightarrow> n = pos + length bs \<Longrightarrow> slice_run data pos n = Some bs"
  by (simp add: holds_at_def slice_run_def)

lemma length_prefix32 [simp]: "length (prefix32 s) = 4 + length s"
  by (simp add: prefix32_def)

lemma length_prefix16 [simp]: "length (prefix16 s) = 2 + length s"
  by (simp add: prefix16_def)

lemma try_simps [simp]:
  "try_opt None f = None" "try_opt (Some None) f = Some None" "try_opt (Some (Some x)) f = f x"
  "try_res None g = None" "try_res (Some (Inl e)) g = Some (Inl e)" "try_res (Some (Inr y)) g = g y"
  "ok_or e None = None" "ok_or e (Some None) = Some (Inl e)" "ok_or e (Some (Some x)) = Some (Inr x)"
  "and_then (Inl e) h = Inl e" "and_then (Inr z) h = h z"
  by (simp_all add: try_opt_def try_res_def ok_or_def and_then_def)

lemma write_many_Inr:
  "\<forall>x \<in> set xs. f x = Inr (g x) \<Longrightarrow> write_many f xs = Inr (concat (map g xs))"
  by (induction xs) simp_all

text \<open>Outcomes that are not a panic compose.\<close>

definition no_panic :: "'a run \<Rightarrow> bool" where
  "no_panic m \<longleftrightarrow> m \<noteq> None"

named_theorems no_panic_intros \<open>composing computations that do not panic\<close>

lemma no_panic_simps [simp]:
  "no_panic (Some x)" "\<not> no_panic None"
  "no_panic (slice_run xs a b) \<longleftrightarrow> a \<le> b \<and> b \<le> length xs"
  "no_panic (index_run xs i) \<longleftrightarrow> i < length xs"
  by (simp_all add: no_panic_def slice_run_def index_run_def)

lemma no_panic_bind [no_panic_intros]:
  "no_panic m \<Longrightarrow> (\<And>x. m = Some x \<Longrightarrow> no_panic (f x)) \<Longrightarrow> no_panic (Option.bind m f)"
  by (cases m) simp_all

lemma no_panic_try_opt [no_panic_intros]:
  "no_panic m \<Longrightarrow> (\<And>x. no_panic (f x)) \<Longrightarrow> no_panic (try_opt m f)"
  by (simp add: try_opt_def no_panic_def split: option.splits)

lemma no_panic_try_res [no_panic_intros]:
  "no_panic m \<Longrightarrow> (\<And>x. no_panic (f x)) \<Longrightarrow> no_panic (try_res m f)"
  by (simp add: try_res_def no_panic_def split: option.splits sum.splits)

lemma no_panic_ok_or [no_panic_intros]: "no_panic m \<Longrightarrow> no_panic (ok_or e m)"
  by (simp add: ok_or_def no_panic_def split: option.splits)

lemma no_panic_case_prod [no_panic_intros]: "(\<And>a b. no_panic (f a b)) \<Longrightarrow> no_panic (case_prod f p)"
  by (cases p) simp

lemma no_panic_if [no_panic_intros]:
  "(b \<Longrightarrow> no_panic x) \<Longrightarrow> (\<not> b \<Longrightarrow> no_panic y) \<Longrightarrow> no_panic (if b then x else y)"
  by simp

lemma no_panic_case_option [no_panic_intros]:
  "no_panic x \<Longrightarrow> (\<And>a. no_panic (f a)) \<Longrightarrow> no_panic (case_option x f m)"
  by (cases m) simp_all

lemma no_panic_read_many [no_panic_intros]:
  "(\<And>pos. no_panic (dec data pos)) \<Longrightarrow> no_panic (read_many dec n data pos)"
  by (induction n arbitrary: pos) (auto intro!: no_panic_intros)

subsection \<open>Encoders and decoders\<close>

text \<open>A value is read back as its normal form; for most encoders that is the value itself.\<close>

locale cursor_codec =
  fixes enc :: "'a \<Rightarrow> bytes"
    and dec :: "bytes \<Rightarrow> nat \<Rightarrow> ('e + 'b \<times> nat) run"
    and valid :: "'a \<Rightarrow> bool"
    and norm :: "'a \<Rightarrow> 'b"
  assumes dec_enc: "valid x \<Longrightarrow> holds_at data pos (enc x) \<Longrightarrow>
      dec data pos = Some (Inr (norm x, pos + length (enc x)))"
    and dec_total: "no_panic (dec data pos)"
begin

lemma read_many_enc:
  "\<forall>x \<in> set xs. valid x \<Longrightarrow> holds_at data pos (concat (map enc xs)) \<Longrightarrow>
   read_many dec (length xs) data pos = Some (Inr (map norm xs, pos + length (concat (map enc xs))))"
proof (induction xs arbitrary: pos)
  case (Cons x xs)
  then have "dec data pos = Some (Inr (norm x, pos + length (enc x)))"
    by (intro dec_enc) simp_all
  with Cons show ?case by (simp add: add.assoc)
qed simp

lemma read_many_total: "no_panic (read_many dec n data pos)"
  by (rule no_panic_read_many) (rule dec_total)

lemma dec_injective:
  assumes "valid x" and "valid y" and "enc x = enc y"
  shows "norm x = norm y"
proof -
  have "dec (enc x) 0 = Some (Inr (norm x, 0 + length (enc x)))"
    by (rule dec_enc [OF assms(1) holds_at_self])
  moreover have "dec (enc x) 0 = Some (Inr (norm y, 0 + length (enc y)))"
    unfolding assms(3) by (rule dec_enc [OF assms(2) holds_at_self])
  ultimately show ?thesis by (simp only: option.inject sum.inject prod.inject)
qed

end

end
