(* ===== verification/Catalog_Payload.thy ===== *)
theory Catalog_Payload
  imports Cursor Value_Types
begin

text \<open>
  The payloads the catalog logs, from \<^verbatim>\<open>crates/storage/src/catalog/wal_payload.rs\<close> (rows and overflow
  pages) and \<^verbatim>\<open>ddl_payload.rs\<close> (schema changes, and the value, defaults and auto-column sections that
  the catalog file shares). The guards stand where the code has them; the slices behind them are
  checked, so the theorem that no decoder panics is a fact about those guards.
\<close>

subsection \<open>Rows and overflow pages\<close>

definition encode_wal_payload :: "bytes \<Rightarrow> row_id \<Rightarrow> bytes \<Rightarrow> bytes" where
  "encode_wal_payload table rid row_bytes =
     prefix32 table @ u32_to_le (rid_page rid) @ u16_to_le (rid_slot rid) @ prefix32 row_bytes"

definition decode_wal_payload :: "bytes \<Rightarrow> (bytes \<times> row_id \<times> bytes) option run" where
  "decode_wal_payload data =
     (if length data < 4 then Some None
      else do {
        nl \<leftarrow> slice_run data 0 4;
        let name_len = unat (u32_from_le nl);
        let pos = 4;
        if pos + name_len > length data then Some None
        else do {
          name \<leftarrow> slice_run data pos (pos + name_len);
          if \<not> utf8_valid name then Some None
          else do {
            let pos = pos + name_len;
            if pos + 4 + 2 + 4 > length data then Some None
            else do {
              pg \<leftarrow> slice_run data pos (pos + 4);
              let pos = pos + 4;
              sl \<leftarrow> slice_run data pos (pos + 2);
              let pos = pos + 2;
              rl \<leftarrow> slice_run data pos (pos + 4);
              let row_len = unat (u32_from_le rl);
              let pos = pos + 4;
              if pos + row_len > length data then Some None
              else do {
                row_bytes \<leftarrow> slice_run data pos (pos + row_len);
                Some (Some (name, \<lparr>rid_page = u32_from_le pg, rid_slot = u16_from_le sl\<rparr>, row_bytes))
              }
            }
          }
        }
      })"

definition encode_overflow_write_payload :: "bytes \<Rightarrow> u32 \<Rightarrow> u32 \<Rightarrow> bytes \<Rightarrow> bytes" where
  "encode_overflow_write_payload table page_id next_page chunk =
     prefix16 table @ u32_to_le page_id @ u32_to_le next_page @ prefix16 chunk"

definition decode_overflow_write_payload :: "bytes \<Rightarrow> (bytes \<times> u32 \<times> u32 \<times> bytes) option run" where
  "decode_overflow_write_payload data =
     (if length data < 2 then Some None
      else do {
        nl \<leftarrow> slice_run data 0 2;
        let name_len = unat (u16_from_le nl);
        let pos = 2;
        if pos + name_len + 4 + 4 + 2 > length data then Some None
        else do {
          name \<leftarrow> slice_run data pos (pos + name_len);
          if \<not> utf8_valid name then Some None
          else do {
            let pos = pos + name_len;
            pg \<leftarrow> slice_run data pos (pos + 4);
            let pos = pos + 4;
            nx \<leftarrow> slice_run data pos (pos + 4);
            let pos = pos + 4;
            cl \<leftarrow> slice_run data pos (pos + 2);
            let chunk_len = unat (u16_from_le cl);
            let pos = pos + 2;
            if pos + chunk_len > length data then Some None
            else do {
              chunk \<leftarrow> slice_run data pos (pos + chunk_len);
              Some (Some (name, u32_from_le pg, u32_from_le nx, chunk))
            }
          }
        }
      })"

definition encode_overflow_free_payload :: "bytes \<Rightarrow> u32 list \<Rightarrow> bytes" where
  "encode_overflow_free_payload table pages =
     prefix16 table @ u32_to_le (word_of_nat (length pages)) @ concat (map u32_to_le pages)"

fun read_pages :: "nat \<Rightarrow> bytes \<Rightarrow> nat \<Rightarrow> u32 list run" where
  "read_pages 0 data pos = Some []"
| "read_pages (Suc n) data pos = do {
     p \<leftarrow> slice_run data pos (pos + 4);
     ps \<leftarrow> read_pages n data (pos + 4);
     Some (u32_from_le p # ps)
   }"

definition decode_overflow_free_payload :: "bytes \<Rightarrow> (bytes \<times> u32 list) option run" where
  "decode_overflow_free_payload data =
     (if length data < 2 then Some None
      else do {
        nl \<leftarrow> slice_run data 0 2;
        let name_len = unat (u16_from_le nl);
        let pos = 2;
        if pos + name_len + 4 > length data then Some None
        else do {
          name \<leftarrow> slice_run data pos (pos + name_len);
          if \<not> utf8_valid name then Some None
          else do {
            let pos = pos + name_len;
            ct \<leftarrow> slice_run data pos (pos + 4);
            let count = unat (u32_from_le ct);
            let pos = pos + 4;
            if pos + count * 4 > length data then Some None
            else do {
              pages \<leftarrow> read_pages count data pos;
              Some (Some (name, pages))
            }
          }
        }
      })"

subsection \<open>Values\<close>

fun encode_value_blob :: "val \<Rightarrow> bytes" where
  "encode_value_blob (VInt n) = type_id_to_u8 TInt # u64_to_le n"
| "encode_value_blob (VFloat f) = type_id_to_u8 TFloat # u64_to_le f"
| "encode_value_blob (VBool b) = [type_id_to_u8 TBool, of_bool b]"
| "encode_value_blob (VStr s) = type_id_to_u8 TStr # prefix32 s"
| "encode_value_blob (VDateTime n) = type_id_to_u8 TDateTime # u64_to_le n"
| "encode_value_blob (VUuid u) = type_id_to_u8 TUuid # u"
| "encode_value_blob (VBytes b) = type_id_to_u8 TBytes # prefix32 b"
| "encode_value_blob (VJson b) = type_id_to_u8 TJson # prefix32 b"
| "encode_value_blob VEmpty = [type_id_to_u8 TEmpty]"

definition take_fixed :: "bytes \<Rightarrow> nat \<Rightarrow> nat \<Rightarrow> (bytes \<times> nat) option run" where
  "take_fixed data pos n =
     (if pos + n > length data then Some None
      else do {
        s \<leftarrow> slice_run data pos (pos + n);
        Some (Some (s, pos + n))
      })"

definition decode_value_blob :: "bytes \<Rightarrow> nat \<Rightarrow> (val \<times> nat) option run" where
  "decode_value_blob data pos =
     (if pos \<ge> length data then Some None
      else let tag = data ! pos; pos = pos + 1 in
        case type_id_from_u8 tag of
          None \<Rightarrow> Some None
        | Some TEmpty \<Rightarrow> Some (Some (VEmpty, pos))
        | Some TInt \<Rightarrow> try_opt (take_fixed data pos 8) (\<lambda>(s, pos). Some (Some (VInt (u64_from_le s), pos)))
        | Some TFloat \<Rightarrow> try_opt (take_fixed data pos 8) (\<lambda>(s, pos). Some (Some (VFloat (u64_from_le s), pos)))
        | Some TBool \<Rightarrow> try_opt (take_fixed data pos 1) (\<lambda>(s, pos). do {
            b \<leftarrow> index_run s 0;
            Some (Some (VBool (b \<noteq> 0), pos))
          })
        | Some TDateTime \<Rightarrow> try_opt (take_fixed data pos 8) (\<lambda>(s, pos). Some (Some (VDateTime (u64_from_le s), pos)))
        | Some TUuid \<Rightarrow> try_opt (take_fixed data pos 16) (\<lambda>(s, pos). Some (Some (VUuid s, pos)))
        | Some TStr \<Rightarrow>
            try_opt (take_fixed data pos 4) (\<lambda>(l, pos).
            try_opt (take_fixed data pos (unat (u32_from_le l))) (\<lambda>(s, pos).
              if utf8_valid s then Some (Some (VStr s, pos)) else Some None))
        | Some TBytes \<Rightarrow>
            try_opt (take_fixed data pos 4) (\<lambda>(l, pos).
            try_opt (take_fixed data pos (unat (u32_from_le l))) (\<lambda>(s, pos). Some (Some (VBytes s, pos))))
        | Some TJson \<Rightarrow>
            try_opt (take_fixed data pos 4) (\<lambda>(l, pos).
            try_opt (take_fixed data pos (unat (u32_from_le l))) (\<lambda>(s, pos). Some (Some (VJson s, pos)))))"

subsection \<open>Column defaults and auto columns\<close>

text \<open>\<open>iter().enumerate().filter_map(..)\<close>: the positions that carry an entry, with the entry.\<close>

fun present_from :: "nat \<Rightarrow> 'a option list \<Rightarrow> (u16 \<times> 'a) list" where
  "present_from i [] = []"
| "present_from i (None # ds) = present_from (Suc i) ds"
| "present_from i (Some v # ds) = (word_of_nat i, v) # present_from (Suc i) ds"

definition encode_defaults_section :: "val option list \<Rightarrow> bytes" where
  "encode_defaults_section defaults =
     (let present = present_from 0 defaults in
      u16_to_le (word_of_nat (length present)) @
      concat (map (\<lambda>(pos, v). u16_to_le pos @ encode_value_blob v) present))"

fun read_defaults :: "nat \<Rightarrow> bytes \<Rightarrow> nat \<Rightarrow> val option list \<Rightarrow> (val option list \<times> nat) option run" where
  "read_defaults 0 data pos out = Some (Some (out, pos))"
| "read_defaults (Suc n) data pos out =
     (if pos + 2 > length data then Some None
      else do {
        c \<leftarrow> slice_run data pos (pos + 2);
        let col = unat (u16_from_le c);
        try_opt (decode_value_blob data (pos + 2)) (\<lambda>(v, pos).
          read_defaults n data pos (if col < length out then out[col := Some v] else out))
      })"

definition decode_defaults_section :: "bytes \<Rightarrow> nat \<Rightarrow> nat \<Rightarrow> (val option list \<times> nat) option run" where
  "decode_defaults_section data pos n_cols =
     (if pos + 2 > length data then Some None
      else do {
        c \<leftarrow> slice_run data pos (pos + 2);
        read_defaults (unat (u16_from_le c)) data (pos + 2) (replicate n_cols None)
      })"

definition encode_auto_section :: "bool list \<Rightarrow> bytes" where
  "encode_auto_section auto_cols =
     (let present = map fst (present_from 0 (map (\<lambda>a. if a then Some () else None) auto_cols)) in
      u16_to_le (word_of_nat (length present)) @ concat (map u16_to_le present))"

fun read_auto :: "nat \<Rightarrow> bytes \<Rightarrow> nat \<Rightarrow> bool list \<Rightarrow> (bool list \<times> nat) option run" where
  "read_auto 0 data pos out = Some (Some (out, pos))"
| "read_auto (Suc n) data pos out =
     (if pos + 2 > length data then Some None
      else do {
        c \<leftarrow> slice_run data pos (pos + 2);
        let col = unat (u16_from_le c);
        read_auto n data (pos + 2) (if col < length out then out[col := True] else out)
      })"

definition decode_auto_section :: "bytes \<Rightarrow> nat \<Rightarrow> nat \<Rightarrow> (bool list \<times> nat) option run" where
  "decode_auto_section data pos n_cols =
     (if pos + 2 > length data then Some None
      else do {
        c \<leftarrow> slice_run data pos (pos + 2);
        read_auto (unat (u16_from_le c)) data (pos + 2) (replicate n_cols False)
      })"

subsection \<open>Schema changes\<close>

text \<open>One column, as the create, add-column and catalog-file encoders write it.\<close>

definition encode_column :: "column_def \<Rightarrow> bytes" where
  "encode_column col =
     prefix32 (col_name col) @ [type_id_to_u8 (col_type col), of_bool (required col)] @ u16_to_le (position col)"

definition encode_ddl_create_table :: "schema \<Rightarrow> val option list \<Rightarrow> bool list \<Rightarrow> bytes" where
  "encode_ddl_create_table sc defaults auto_cols =
     prefix32 (table_name sc) @ u16_to_le (word_of_nat (length (columns sc))) @
     concat (map encode_column (columns sc)) @
     encode_defaults_section defaults @ encode_auto_section auto_cols"

text \<open>The body of the column loop, shared by the create and add-column decoders.\<close>

definition decode_ddl_column :: "bytes \<Rightarrow> nat \<Rightarrow> (column_def \<times> nat) option run" where
  "decode_ddl_column data pos =
     (if pos + 4 > length data then Some None
      else do {
        cl \<leftarrow> slice_run data pos (pos + 4);
        let cn_len = unat (u32_from_le cl);
        let pos = pos + 4;
        if pos + cn_len + 4 > length data then Some None
        else do {
          name \<leftarrow> slice_run data pos (pos + cn_len);
          if \<not> utf8_valid name then Some None
          else do {
            let pos = pos + cn_len;
            t \<leftarrow> index_run data pos;
            case type_id_from_u8 t of
              None \<Rightarrow> Some None
            | Some type_id \<Rightarrow> do {
                let pos = pos + 1;
                r \<leftarrow> index_run data pos;
                let pos = pos + 1;
                if pos + 2 > length data then Some None
                else do {
                  p \<leftarrow> slice_run data pos (pos + 2);
                  Some (Some (\<lparr>col_name = name, col_type = type_id, required = (r \<noteq> 0),
                               position = u16_from_le p\<rparr>, pos + 2))
                }
              }
          }
        }
      })"

fun decode_ddl_columns :: "nat \<Rightarrow> bytes \<Rightarrow> nat \<Rightarrow> (column_def list \<times> nat) option run" where
  "decode_ddl_columns 0 data pos = Some (Some ([], pos))"
| "decode_ddl_columns (Suc n) data pos =
     try_opt (decode_ddl_column data pos) (\<lambda>(c, pos).
     try_opt (decode_ddl_columns n data pos) (\<lambda>(cs, pos). Some (Some (c # cs, pos))))"

definition decode_ddl_create_table :: "bytes \<Rightarrow> (schema \<times> val option list \<times> bool list) option run" where
  "decode_ddl_create_table data =
     (if length data < 4 then Some None
      else do {
        nl \<leftarrow> slice_run data 0 4;
        let name_len = unat (u32_from_le nl);
        let pos = 4;
        if pos + name_len > length data then Some None
        else do {
          name \<leftarrow> slice_run data pos (pos + name_len);
          if \<not> utf8_valid name then Some None
          else do {
            let pos = pos + name_len;
            if pos + 2 > length data then Some None
            else do {
              nc \<leftarrow> slice_run data pos (pos + 2);
              try_opt (decode_ddl_columns (unat (u16_from_le nc)) data (pos + 2)) (\<lambda>(cs, pos).
              try_opt (if pos < length data then decode_defaults_section data pos (length cs)
                       else Some (Some ([], pos))) (\<lambda>(defaults, pos).
              try_opt (if pos < length data then decode_auto_section data pos (length cs)
                       else Some (Some ([], pos))) (\<lambda>(auto_cols, pos).
              Some (Some (\<lparr>table_name = name, columns = cs\<rparr>, defaults, auto_cols)))))
            }
          }
        }
      })"

definition encode_ddl_drop_table :: "bytes \<Rightarrow> bytes" where
  "encode_ddl_drop_table table = prefix32 table"

definition encode_ddl_alter_add_column :: "bytes \<Rightarrow> column_def \<Rightarrow> bytes" where
  "encode_ddl_alter_add_column table col = prefix32 table @ encode_column col"

definition encode_ddl_alter_drop_column :: "bytes \<Rightarrow> bytes \<Rightarrow> bytes" where
  "encode_ddl_alter_drop_column table col = prefix32 table @ prefix32 col"

definition decode_ddl_table_name :: "bytes \<Rightarrow> (bytes \<times> nat) option run" where
  "decode_ddl_table_name data =
     (if length data < 4 then Some None
      else do {
        nl \<leftarrow> slice_run data 0 4;
        let name_len = unat (u32_from_le nl);
        if 4 + name_len > length data then Some None
        else do {
          name \<leftarrow> slice_run data 4 (4 + name_len);
          if \<not> utf8_valid name then Some None else Some (Some (name, 4 + name_len))
        }
      })"

definition decode_ddl_alter_add_column :: "bytes \<Rightarrow> (bytes \<times> column_def) option run" where
  "decode_ddl_alter_add_column data =
     try_opt (decode_ddl_table_name data) (\<lambda>(table, pos).
     try_opt (decode_ddl_column data pos) (\<lambda>(col, pos). Some (Some (table, col))))"

definition decode_ddl_alter_drop_column :: "bytes \<Rightarrow> (bytes \<times> bytes) option run" where
  "decode_ddl_alter_drop_column data =
     try_opt (decode_ddl_table_name data) (\<lambda>(table, pos).
       if pos + 4 > length data then Some None
       else do {
         cl \<leftarrow> slice_run data pos (pos + 4);
         let cn_len = unat (u32_from_le cl);
         if pos + 4 + cn_len > length data then Some None
         else do {
           name \<leftarrow> slice_run data (pos + 4) (pos + 4 + cn_len);
           if \<not> utf8_valid name then Some None else Some (Some (table, name))
         }
       })"

end
