(* ===== verification/Payload_Codec.thy ===== *)
theory Payload_Codec
  imports Catalog_Payload
begin

text \<open>
  The decoders of \<^theory_text>\<open>Catalog_Payload\<close> undo the encoders at any position of a buffer, and no decoder
  panics on any bytes.
\<close>

subsection \<open>No decoder panics\<close>

lemma slice_run_ok: "a \<le> b \<Longrightarrow> b \<le> length xs \<Longrightarrow> \<exists>ys. slice_run xs a b = Some ys \<and> length ys = b - a"
  by (simp add: slice_run_def)

lemma take_fixed_eq:
  "take_fixed data pos n = Some (if pos + n > length data then None else Some (sub data pos n, pos + n))"
  by (simp add: take_fixed_def slice_run_def)

lemma no_panic_take_fixed [simp]: "no_panic (take_fixed data pos n)"
  by (simp add: take_fixed_eq)

lemma decode_value_blob_total [simp]: "no_panic (decode_value_blob data pos)"
  by (auto simp: decode_value_blob_def Let_def take_fixed_eq intro!: no_panic_intros
      split: option.splits type_id.splits)

lemma read_defaults_total [simp]: "no_panic (read_defaults n data pos out)"
  by (induction n arbitrary: pos out) (auto simp: Let_def intro!: no_panic_intros)

lemma read_auto_total [simp]: "no_panic (read_auto n data pos out)"
  by (induction n arbitrary: pos out) (auto simp: Let_def intro!: no_panic_intros)

lemma decode_defaults_section_total [simp]: "no_panic (decode_defaults_section data pos n)"
  by (auto simp: decode_defaults_section_def intro!: no_panic_intros)

lemma decode_auto_section_total [simp]: "no_panic (decode_auto_section data pos n)"
  by (auto simp: decode_auto_section_def intro!: no_panic_intros)

lemma decode_ddl_column_total [simp]: "no_panic (decode_ddl_column data pos)"
  by (auto simp: decode_ddl_column_def Let_def intro!: no_panic_intros)

lemma decode_ddl_columns_total [simp]: "no_panic (decode_ddl_columns n data pos)"
  by (induction n arbitrary: pos) (auto intro!: no_panic_intros)

lemma read_pages_total: "pos + n * 4 \<le> length data \<Longrightarrow> no_panic (read_pages n data pos)"
  by (induction n arbitrary: pos) (auto intro!: no_panic_intros)

lemma decode_wal_payload_total: "no_panic (decode_wal_payload data)"
  by (auto simp: decode_wal_payload_def Let_def intro!: no_panic_intros)

lemma decode_overflow_write_payload_total: "no_panic (decode_overflow_write_payload data)"
  by (auto simp: decode_overflow_write_payload_def Let_def intro!: no_panic_intros)

lemma decode_overflow_free_payload_total: "no_panic (decode_overflow_free_payload data)"
  by (auto simp: decode_overflow_free_payload_def Let_def intro!: no_panic_intros read_pages_total)

lemma decode_ddl_table_name_total [simp]: "no_panic (decode_ddl_table_name data)"
  by (auto simp: decode_ddl_table_name_def Let_def intro!: no_panic_intros)

lemma decode_ddl_create_table_total: "no_panic (decode_ddl_create_table data)"
  by (auto simp: decode_ddl_create_table_def Let_def intro!: no_panic_intros)

lemma decode_ddl_alter_add_column_total: "no_panic (decode_ddl_alter_add_column data)"
  by (auto simp: decode_ddl_alter_add_column_def intro!: no_panic_intros)

lemma decode_ddl_alter_drop_column_total: "no_panic (decode_ddl_alter_drop_column data)"
  by (auto simp: decode_ddl_alter_drop_column_def Let_def intro!: no_panic_intros)

subsection \<open>Round trips\<close>

lemma slice_u16: "holds_at data pos (u16_to_le w) \<Longrightarrow> n = pos + 2 \<Longrightarrow> slice_run data pos n = Some (u16_to_le w)"
  by (rule slice_run_holds) simp_all

lemma slice_u32: "holds_at data pos (u32_to_le w) \<Longrightarrow> n = pos + 4 \<Longrightarrow> slice_run data pos n = Some (u32_to_le w)"
  by (rule slice_run_holds) simp_all

lemmas codec_simps = slice_u16 slice_u32 slice_run_holds prefix16_def prefix32_def Let_def

lemma decode_wal_payload_at:
  assumes "holds_at data 0 (encode_wal_payload table rid row)"
    and "utf8_valid table" and "length table < 2 ^ 32" and "length row < 2 ^ 32"
  shows "decode_wal_payload data = Some (Some (table, rid, row))"
  using assms holds_at_bound [OF assms(1)]
  by (clarsimp simp: encode_wal_payload_def decode_wal_payload_def codec_simps)

lemma decode_overflow_write_payload_at:
  assumes "holds_at data 0 (encode_overflow_write_payload table pg nx chunk)"
    and "utf8_valid table" and "length table < 2 ^ 16" and "length chunk < 2 ^ 16"
  shows "decode_overflow_write_payload data = Some (Some (table, pg, nx, chunk))"
  using assms holds_at_bound [OF assms(1)]
  by (clarsimp simp: encode_overflow_write_payload_def decode_overflow_write_payload_def codec_simps simp del: add_2_eq_Suc add_2_eq_Suc')

lemma length_concat_u32: "length (concat (map u32_to_le ps)) = length ps * 4"
  by (induction ps) simp_all

lemma length_concat_u16: "length (concat (map u16_to_le ps)) = length ps * 2"
  by (induction ps) simp_all

lemma read_pages_at:
  "holds_at data pos (concat (map u32_to_le ps)) \<Longrightarrow> read_pages (length ps) data pos = Some ps"
  by (induction ps arbitrary: pos) (auto simp: codec_simps)

lemma decode_overflow_free_payload_at:
  assumes "holds_at data 0 (encode_overflow_free_payload table pages)"
    and "utf8_valid table" and "length table < 2 ^ 16" and "length pages < 2 ^ 32"
  shows "decode_overflow_free_payload data = Some (Some (table, pages))"
  using assms holds_at_bound [OF assms(1)]
  by (clarsimp simp: encode_overflow_free_payload_def decode_overflow_free_payload_def codec_simps
      length_concat_u32 read_pages_at simp del: add_2_eq_Suc add_2_eq_Suc')

text \<open>The values a Rust program can hold: strings are UTF-8, a UUID has 16 bytes, and the lengths fit.\<close>

fun val_ok :: "val \<Rightarrow> bool" where
  "val_ok (VStr s) \<longleftrightarrow> utf8_valid s \<and> length s < 2 ^ 32"
| "val_ok (VUuid u) \<longleftrightarrow> length u = 16"
| "val_ok (VBytes b) \<longleftrightarrow> length b < 2 ^ 32"
| "val_ok (VJson b) \<longleftrightarrow> length b < 2 ^ 32"
| "val_ok _ \<longleftrightarrow> True"

lemma take_fixed_at: "holds_at data pos s \<Longrightarrow> n = length s \<Longrightarrow> take_fixed data pos n = Some (Some (s, pos + n))"
  by (auto simp: take_fixed_eq holds_at_def)

lemma take_fixed_u64: "holds_at data pos (u64_to_le w) \<Longrightarrow> take_fixed data pos 8 = Some (Some (u64_to_le w, pos + 8))"
  by (rule take_fixed_at) simp_all

lemma take_fixed_u32: "holds_at data pos (u32_to_le w) \<Longrightarrow> take_fixed data pos 4 = Some (Some (u32_to_le w, pos + 4))"
  by (rule take_fixed_at) simp_all

lemma type_id_from_u8_numerals:
  "type_id_from_u8 0 = Some TEmpty" "type_id_from_u8 1 = Some TInt" "type_id_from_u8 2 = Some TFloat"
  "type_id_from_u8 3 = Some TBool" "type_id_from_u8 4 = Some TStr" "type_id_from_u8 5 = Some TDateTime"
  "type_id_from_u8 6 = Some TUuid" "type_id_from_u8 7 = Some TBytes" "type_id_from_u8 8 = Some TJson"
  by (simp_all add: type_id_from_u8_def)

lemma take_fixed_1: "pos < length data \<Longrightarrow> take_fixed data pos (Suc 0) = Some (Some ([data ! pos], Suc pos))"
  by (simp add: take_fixed_eq sub_def take_Suc hd_drop_conv_nth)

lemma decode_value_blob_at:
  assumes "holds_at data pos (encode_value_blob v)" and "val_ok v"
  shows "decode_value_blob data pos = Some (Some (v, pos + length (encode_value_blob v)))"
  using assms
  by (cases v) (auto simp: decode_value_blob_def codec_simps take_fixed_at take_fixed_u64 take_fixed_u32
      type_id_from_u8_numerals take_fixed_1 index_run_def)


definition pad :: "nat \<Rightarrow> 'a \<Rightarrow> 'a list \<Rightarrow> 'a list" where
  "pad n x xs = xs @ replicate (n - length xs) x"

text \<open>The sparse sections fill in the positions they name and leave the rest at its default.\<close>

abbreviation default_entry :: "u16 \<times> val \<Rightarrow> bytes" where
  "default_entry e \<equiv> (case e of (pos, v) \<Rightarrow> u16_to_le pos @ encode_value_blob v)"

lemma update_at_length: "n = length pre \<Longrightarrow> (pre @ x # xs)[n := y] = pre @ y # xs"
  by simp

lemma replicate_diff: "i < n \<Longrightarrow> replicate (n - i) x = x # replicate (n - Suc i) x"
  by (simp flip: Suc_diff_Suc)

lemma read_defaults_at:
  assumes "holds_at data pos (concat (map default_entry (present_from (length pre) ds)))"
    and "length pre + length ds \<le> n" and "n < 2 ^ 16" and "\<forall>v. Some v \<in> set ds \<longrightarrow> val_ok v"
  shows "read_defaults (length (present_from (length pre) ds)) data pos (pre @ replicate (n - length pre) None)
         = Some (Some (pre @ ds @ replicate (n - length pre - length ds) None,
                       pos + length (concat (map default_entry (present_from (length pre) ds)))))"
  using assms
proof (induction ds arbitrary: pos pre)
  case (Cons d ds)
  have out: "pre @ replicate (n - length pre) None = pre @ None # replicate (n - Suc (length pre)) None"
    using Cons.prems(2) by (simp add: replicate_diff)
  show ?case
  proof (cases d)
    case None
    then show ?thesis
      using Cons.IH [of pos "pre @ [None]"] Cons.prems by (simp add: out)
  next
    case (Some v)
    have h: "holds_at data pos (u16_to_le (word_of_nat (length pre)))"
      "holds_at data (pos + 2) (encode_value_blob v)" "val_ok v"
      using Cons.prems Some by (auto simp del: add_2_eq_Suc add_2_eq_Suc')
    have b: "\<not> length data < pos + 2"
      using holds_at_bound [OF h(1)] by simp
    show ?thesis
      using Cons.IH [of "pos + 2 + length (encode_value_blob v)" "pre @ [Some v]"] Cons.prems Some b
      by (simp add: out slice_u16 [OF h(1)] Let_def decode_value_blob_at [OF h(2,3)] add.assoc del: add_2_eq_Suc add_2_eq_Suc')
  qed
qed simp

lemma length_present_from: "length (present_from i ds) \<le> length ds"
  by (induction i ds rule: present_from.induct) simp_all

lemma decode_defaults_section_at:
  assumes h: "holds_at data pos (encode_defaults_section ds)" and l: "length ds \<le> n" "n < 2 ^ 16"
    and v: "\<forall>v. Some v \<in> set ds \<longrightarrow> val_ok v"
  shows "decode_defaults_section data pos n
         = Some (Some (pad n None ds, pos + length (encode_defaults_section ds)))"
proof -
  let ?p = "present_from 0 ds"
  have h1: "holds_at data pos (u16_to_le (word_of_nat (length ?p)))"
    and h2: "holds_at data (pos + 2) (concat (map default_entry ?p))"
    using h by (simp_all add: encode_defaults_section_def Let_def)
  have "length ?p < 65536"
    using length_present_from [of 0 ds] l by simp
  moreover have "read_defaults (length ?p) data (pos + 2) (replicate n None)
    = Some (Some (pad n None ds, pos + 2 + length (concat (map default_entry ?p))))"
    using read_defaults_at [of data "pos + 2" "[]" ds n] h2 l v by (simp add: pad_def)
  ultimately show ?thesis
    using holds_at_bound [OF h1]
    by (simp add: decode_defaults_section_def slice_u16 [OF h1] encode_defaults_section_def Let_def)
qed

abbreviation auto_marks :: "bool list \<Rightarrow> unit option list" where
  "auto_marks bs \<equiv> map (\<lambda>a. if a then Some () else None) bs"

lemma read_auto_at:
  assumes "holds_at data pos (concat (map u16_to_le (map fst (present_from (length pre) (auto_marks bs)))))"
    and "length pre + length bs \<le> n" and "n < 2 ^ 16"
  shows "read_auto (length (present_from (length pre) (auto_marks bs))) data pos (pre @ replicate (n - length pre) False)
         = Some (Some (pre @ bs @ replicate (n - length pre - length bs) False,
                       pos + length (present_from (length pre) (auto_marks bs)) * 2))"
  using assms
proof (induction bs arbitrary: pos pre)
  case (Cons b bs)
  have out: "pre @ replicate (n - length pre) False = pre @ False # replicate (n - Suc (length pre)) False"
    using Cons.prems(2) by (simp add: replicate_diff)
  show ?case
  proof (cases b)
    case False
    then show ?thesis
      using Cons.IH [of pos "pre @ [False]"] Cons.prems by (simp add: out)
  next
    case True
    have h: "holds_at data pos (u16_to_le (word_of_nat (length pre)))"
      using Cons.prems True by auto
    have b: "\<not> length data < pos + 2"
      using holds_at_bound [OF h] by simp
    show ?thesis
      using Cons.IH [of "pos + 2" "pre @ [True]"] Cons.prems True b
      by (simp add: out slice_u16 [OF h] Let_def add.assoc del: add_2_eq_Suc add_2_eq_Suc')
  qed
qed simp

lemma decode_auto_section_at:
  assumes h: "holds_at data pos (encode_auto_section bs)" and l: "length bs \<le> n" "n < 2 ^ 16"
  shows "decode_auto_section data pos n
         = Some (Some (pad n False bs, pos + length (encode_auto_section bs)))"
proof -
  let ?p = "present_from 0 (auto_marks bs)"
  have h1: "holds_at data pos (u16_to_le (word_of_nat (length ?p)))"
    and h2: "holds_at data (pos + 2) (concat (map u16_to_le (map fst ?p)))"
    using h by (simp_all add: encode_auto_section_def Let_def)
  have "length ?p < 65536"
    using length_present_from [of 0 "auto_marks bs"] l by simp
  moreover have "read_auto (length ?p) data (pos + 2) (replicate n False)
    = Some (Some (pad n False bs, pos + 2 + length ?p * 2))"
    using read_auto_at [of data "pos + 2" "[]" bs n] h2 l by (simp add: pad_def)
  ultimately show ?thesis
    using holds_at_bound [OF h1]
    by (simp add: decode_auto_section_def slice_u16 [OF h1] encode_auto_section_def Let_def
        length_concat_u16 del: map_map)
qed

definition column_ok :: "column_def \<Rightarrow> bool" where
  "column_ok c \<longleftrightarrow> utf8_valid (col_name c) \<and> length (col_name c) < 2 ^ 32"

lemma decode_ddl_column_at:
  assumes "holds_at data pos (encode_column c)" and "column_ok c"
  shows "decode_ddl_column data pos = Some (Some (c, pos + length (encode_column c)))"
  using assms holds_at_bound [OF assms(1)]
  by (cases c) (clarsimp simp: encode_column_def decode_ddl_column_def column_ok_def codec_simps index_run_def)

lemma decode_ddl_columns_at:
  "holds_at data pos (concat (map encode_column cs)) \<Longrightarrow> \<forall>c \<in> set cs. column_ok c \<Longrightarrow>
   decode_ddl_columns (length cs) data pos = Some (Some (cs, pos + length (concat (map encode_column cs))))"
proof (induction cs arbitrary: pos)
  case (Cons c cs)
  have "decode_ddl_column data pos = Some (Some (c, pos + length (encode_column c)))"
    using Cons.prems by (intro decode_ddl_column_at) simp_all
  then show ?case
    using Cons by (simp add: add.assoc)
qed simp


definition ddl_table_ok :: "schema \<Rightarrow> val option list \<Rightarrow> bool list \<Rightarrow> bool" where
  "ddl_table_ok sc defaults auto_cols \<longleftrightarrow>
     utf8_valid (table_name sc) \<and> length (table_name sc) < 2 ^ 32 \<and>
     length (columns sc) < 2 ^ 16 \<and> (\<forall>c \<in> set (columns sc). column_ok c) \<and>
     length defaults \<le> length (columns sc) \<and> (\<forall>v. Some v \<in> set defaults \<longrightarrow> val_ok v) \<and>
     length auto_cols \<le> length (columns sc)"

lemma length_sections: "2 \<le> length (encode_defaults_section ds)" "2 \<le> length (encode_auto_section bs)"
  by (simp_all add: encode_defaults_section_def encode_auto_section_def Let_def)

lemma decode_ddl_create_table_at:
  assumes h: "holds_at data 0 (encode_ddl_create_table sc ds bs)" and ok: "ddl_table_ok sc ds bs"
  shows "decode_ddl_create_table data =
    Some (Some (sc, pad (length (columns sc)) None ds, pad (length (columns sc)) False bs))"
proof -
  let ?t = "table_name sc" and ?cs = "columns sc"
  let ?c = "4 + length ?t + 2"
  let ?d = "?c + length (concat (map encode_column ?cs))"
  let ?a = "?d + length (encode_defaults_section ds)"
  have h1: "holds_at data 0 (u32_to_le (word_of_nat (length ?t)))" "holds_at data 4 ?t"
    and h2: "holds_at data (4 + length ?t) (u16_to_le (word_of_nat (length ?cs)))"
    and hc: "holds_at data ?c (concat (map encode_column ?cs))"
    and hd: "holds_at data ?d (encode_defaults_section ds)"
    and ha: "holds_at data ?a (encode_auto_section bs)"
    using h by (simp_all add: encode_ddl_create_table_def prefix32_def add.assoc)
  note ok' = ok [unfolded ddl_table_ok_def]
  have n: "unat (word_of_nat (length ?t) :: u32) = length ?t" "unat (word_of_nat (length ?cs) :: u16) = length ?cs"
    using ok' by simp_all
  have cs: "decode_ddl_columns (length ?cs) data ?c = Some (Some (?cs, ?d))"
    using decode_ddl_columns_at [OF hc] ok' by simp
  have ds: "decode_defaults_section data ?d (length ?cs) = Some (Some (pad (length ?cs) None ds, ?a))"
    using decode_defaults_section_at [OF hd] ok' by simp
  have bs: "decode_auto_section data ?a (length ?cs)
    = Some (Some (pad (length ?cs) False bs, ?a + length (encode_auto_section bs)))"
    using decode_auto_section_at [OF ha] ok' by simp
  have b: "?a + 2 \<le> length data"
    using holds_at_bound [OF ha] length_sections(2) [of bs] by linarith
  have b': "\<not> length data < 4" "\<not> length data < 4 + length ?t" "\<not> length data < 4 + length ?t + 2"
    "?d < length data" "?a < length data"
    using b length_sections(1) [of ds] by linarith+
  have s: "slice_run data 0 4 = Some (u32_to_le (word_of_nat (length ?t)))"
    "slice_run data 4 (4 + length ?t) = Some ?t"
    "slice_run data (4 + length ?t) (4 + length ?t + 2) = Some (u16_to_le (word_of_nat (length ?cs)))"
    by (rule slice_run_holds [OF h1(1)] slice_run_holds [OF h1(2)] slice_run_holds [OF h2], simp)+
  show ?thesis
    unfolding decode_ddl_create_table_def Let_def
    by (simp only: b' s if_False if_True bind.simps(2) u32_from_to_le u16_from_to_le n ok' not_True_eq_False
        cs ds bs try_simps prod.case simp_thms) simp
qed

lemma decode_ddl_table_name_at:
  assumes "holds_at data 0 (prefix32 table)" and "utf8_valid table" and "length table < 2 ^ 32"
  shows "decode_ddl_table_name data = Some (Some (table, 4 + length table))"
  using assms holds_at_bound [OF assms(1)]
  by (clarsimp simp: decode_ddl_table_name_def codec_simps)

lemma decode_ddl_alter_add_column_at:
  assumes "holds_at data 0 (encode_ddl_alter_add_column table col)"
    and "utf8_valid table" and "length table < 2 ^ 32" and "column_ok col"
  shows "decode_ddl_alter_add_column data = Some (Some (table, col))"
proof -
  have "decode_ddl_table_name data = Some (Some (table, 4 + length table))"
    using assms by (intro decode_ddl_table_name_at) (simp_all add: encode_ddl_alter_add_column_def)
  moreover have "holds_at data (4 + length table) (encode_column col)"
    using assms(1) by (simp add: encode_ddl_alter_add_column_def)
  ultimately show ?thesis
    using assms(4) by (simp add: decode_ddl_alter_add_column_def decode_ddl_column_at)
qed

lemma decode_ddl_alter_drop_column_at:
  assumes "holds_at data 0 (encode_ddl_alter_drop_column table col)"
    and "utf8_valid table" and "length table < 2 ^ 32" and "utf8_valid col" and "length col < 2 ^ 32"
  shows "decode_ddl_alter_drop_column data = Some (Some (table, col))"
proof -
  have "decode_ddl_table_name data = Some (Some (table, 4 + length table))"
    using assms by (intro decode_ddl_table_name_at) (simp_all add: encode_ddl_alter_drop_column_def)
  then show ?thesis
    using assms holds_at_bound [OF assms(1)]
    by (clarsimp simp: decode_ddl_alter_drop_column_def encode_ddl_alter_drop_column_def codec_simps)
qed

end
