(* ===== verification/Catalog_File.thy ===== *)
theory Catalog_File
  imports Payload_Codec
begin

text \<open>
  The on-disk catalog, from \<^verbatim>\<open>crates/storage/src/catalog/file.rs\<close>, the stored JSON paths of
  \<^verbatim>\<open>stored_json_path.rs\<close> and the link and index metadata of \<^verbatim>\<open>catalog/mod.rs\<close>. The writer returns the
  bytes it hands to the file and the reader takes the bytes it read from it; \<open>crc\<close> is the checksum of
  the crate \<open>crc32fast\<close>.
\<close>

datatype cat_error =
    CatalogStringTooLarge | TooManyExpressionIndexes | TooManySegments | TooManyLinks
  | UnsupportedWriteVersion u16
  | BadCatalogMagic | CatalogCrcMismatch u32 u32 | UnsupportedCatalogVersion u16
  | NextIndexIdZero | ImplausibleTableCount nat | ImplausibleLinkCount nat
  | TruncatedCatalog | TruncatedCatalogString | NonUtf8InCatalog
  | UnknownTypeId u8 | TruncatedDefaults | TruncatedAutoColumns
  | IndexIdZero | UnknownSegmentTag u8 | UnknownLinkKind u8
  | InvalidCanonicalIdentity | CanonicalIdentityMismatch | JsonRootAbsent | JsonRootNotJson
  | DuplicateIndexId | NextIndexIdTooSmall

subsection \<open>Stored JSON paths\<close>

datatype segment = Key bytes | Index u32

record stored_json_path =
  path_column :: bytes
  segments :: "segment list"

fun segment_canonical_bytes :: "segment \<Rightarrow> bytes" where
  "segment_canonical_bytes (Key key) = 1 # prefix32 key"
| "segment_canonical_bytes (Index i) = 2 # u32_to_le i"

definition canonical_bytes :: "stored_json_path \<Rightarrow> bytes" where
  "canonical_bytes p =
     1 # prefix32 (path_column p) @ u32_to_le (word_of_nat (length (segments p))) @
     concat (map segment_canonical_bytes (segments p))"

text \<open>\<open>{:04x}\<close> of a control character, and \<open>u32::to_string\<close>.\<close>

definition hex_digit :: "nat \<Rightarrow> u8" where
  "hex_digit n = word_of_nat (if n < 10 then 48 + n else 87 + n)"

fun decimal :: "nat \<Rightarrow> bytes" where
  "decimal n = (if n < 10 then [word_of_nat (48 + n)] else decimal (n div 10) @ [word_of_nat (48 + n mod 10)])"

declare decimal.simps [simp del]

text \<open>
  The escapes are all of ASCII characters, and every byte of a longer UTF-8 sequence is copied, so the
  loop over characters is a loop over bytes.
\<close>

definition escape_byte :: "u8 \<Rightarrow> bytes" where
  "escape_byte b =
     (if b = 0x22 then [0x5C, 0x22] else if b = 0x5C then [0x5C, 0x5C]
      else if b = 0x0A then [0x5C, 0x6E] else if b = 0x0D then [0x5C, 0x72] else if b = 0x09 then [0x5C, 0x74]
      else if b \<le> 0x1F then [0x5C, 0x75, 0x30, 0x30, hex_digit (unat b div 16), hex_digit (unat b mod 16)]
      else [b])"

definition push_escaped :: "bytes \<Rightarrow> bytes" where
  "push_escaped s = concat (map escape_byte s)"

fun segment_text :: "segment \<Rightarrow> bytes" where
  "segment_text (Key key) = [0x2D, 0x3E, 0x22] @ push_escaped key @ [0x22]"
| "segment_text (Index i) = [0x2D, 0x3E] @ decimal (unat i)"

definition canonical_text :: "stored_json_path \<Rightarrow> bytes" where
  "canonical_text p = [0x76, 0x31, 0x3A, 0x2E] @ path_column p @ concat (map segment_text (segments p))"

subsection \<open>Entries\<close>

record expression_index_meta =
  index_id :: u64
  ex_unique :: bool
  ex_version :: u16
  ex_text :: bytes
  json_path :: stored_json_path

datatype link_kind = ToOne | ToMany

fun link_kind_to_u8 :: "link_kind \<Rightarrow> u8" where
  "link_kind_to_u8 ToOne = 0"
| "link_kind_to_u8 ToMany = 1"

definition link_kind_from_u8 :: "u8 \<Rightarrow> cat_error + link_kind" where
  "link_kind_from_u8 tag = (if tag = 0 then Inr ToOne else if tag = 1 then Inr ToMany else Inl (UnknownLinkKind tag))"

record link_def =
  owner_type :: bytes
  link_name :: bytes
  target_type :: bytes
  local_key :: bytes
  target_key :: bytes
  link_kind :: link_kind

record indexed_col_meta =
  idx_name :: bytes
  idx_unique :: bool

record catalog_entry =
  ent_schema :: schema
  indexed_cols :: "indexed_col_meta list"
  expression_indexes :: "expression_index_meta list"
  ent_defaults :: "val option list"
  ent_auto :: "bool list"

record catalog_file =
  cf_version :: u16
  cf_next_index_id :: u64
  cf_entries :: "catalog_entry list"
  cf_links :: "link_def list"

definition CATALOG_MAGIC :: bytes where
  "CATALOG_MAGIC = [0x42, 0x43, 0x41, 0x54]"

definition CATALOG_VERSION :: u16 where
  "CATALOG_VERSION = 7"

definition LEGACY_CATALOG_VERSION :: u16 where
  "LEGACY_CATALOG_VERSION = 5"

subsection \<open>The writer\<close>

definition push_catalog_string :: "bytes \<Rightarrow> cat_error + bytes" where
  "push_catalog_string s = (if length s < 2 ^ 32 then Inr (prefix32 s) else Inl CatalogStringTooLarge)"

fun encode_segment :: "segment \<Rightarrow> cat_error + bytes" where
  "encode_segment (Key key) = and_then (push_catalog_string key) (\<lambda>s. Inr (1 # s))"
| "encode_segment (Index i) = Inr (2 # u32_to_le i)"

definition encode_expression_index :: "expression_index_meta \<Rightarrow> cat_error + bytes" where
  "encode_expression_index ix =
     and_then (push_catalog_string (ex_text ix)) (\<lambda>text.
     and_then (push_catalog_string (path_column (json_path ix))) (\<lambda>col.
     if length (segments (json_path ix)) \<ge> 2 ^ 16 then Inl TooManySegments
     else and_then (write_many encode_segment (segments (json_path ix))) (\<lambda>segs.
       Inr (u64_to_le (index_id ix) @ [of_bool (ex_unique ix)] @ u16_to_le (ex_version ix) @ text @ col @
            u16_to_le (word_of_nat (length (segments (json_path ix)))) @ segs))))"

definition encode_expression_indexes :: "expression_index_meta list \<Rightarrow> cat_error + bytes" where
  "encode_expression_indexes indexes =
     (if length indexes \<ge> 2 ^ 16 then Inl TooManyExpressionIndexes
      else and_then (write_many encode_expression_index indexes) (\<lambda>b.
        Inr (u16_to_le (word_of_nat (length indexes)) @ b)))"

definition encode_link :: "link_def \<Rightarrow> cat_error + bytes" where
  "encode_link l =
     and_then (push_catalog_string (owner_type l)) (\<lambda>a.
     and_then (push_catalog_string (link_name l)) (\<lambda>b.
     and_then (push_catalog_string (target_type l)) (\<lambda>c.
     and_then (push_catalog_string (local_key l)) (\<lambda>d.
     and_then (push_catalog_string (target_key l)) (\<lambda>e.
     Inr (a @ b @ c @ d @ e @ [link_kind_to_u8 (link_kind l)]))))))"

definition encode_links_section :: "link_def list \<Rightarrow> cat_error + bytes" where
  "encode_links_section links =
     (if length links \<ge> 2 ^ 32 then Inl TooManyLinks
      else and_then (write_many encode_link links) (\<lambda>b. Inr (u32_to_le (word_of_nat (length links)) @ b)))"

definition encode_indexed_col :: "indexed_col_meta \<Rightarrow> bytes" where
  "encode_indexed_col m = prefix32 (idx_name m) @ [of_bool (idx_unique m)]"

text \<open>One turn of the writer's loop over the tables.\<close>

definition encode_entry :: "u16 \<Rightarrow> catalog_entry \<Rightarrow> cat_error + bytes" where
  "encode_entry version e =
     and_then (if version \<ge> 6 then encode_expression_indexes (expression_indexes e) else Inr []) (\<lambda>ex.
     Inr (prefix32 (table_name (ent_schema e)) @
          u16_to_le (word_of_nat (length (columns (ent_schema e)))) @
          concat (map encode_column (columns (ent_schema e))) @
          u16_to_le (word_of_nat (length (indexed_cols e))) @
          concat (map encode_indexed_col (indexed_cols e)) @
          encode_defaults_section (ent_defaults e) @
          encode_auto_section (ent_auto e) @ ex))"

definition write_catalog_file ::
  "(bytes \<Rightarrow> u32) \<Rightarrow> u16 \<Rightarrow> u64 \<Rightarrow> catalog_entry list \<Rightarrow> link_def list \<Rightarrow> cat_error + bytes" where
  "write_catalog_file crc version next_index_id entries links =
     (if \<not> (1 \<le> version \<and> version \<le> CATALOG_VERSION) then Inl (UnsupportedWriteVersion version)
      else
        and_then (write_many (encode_entry version) entries) (\<lambda>body.
        and_then (if version \<ge> 7 then encode_links_section links else Inr []) (\<lambda>ls.
        let buf = CATALOG_MAGIC @ u16_to_le version @ u32_to_le (word_of_nat (length entries)) @
                  (if version \<ge> 6 then u64_to_le next_index_id else []) @ body @ ls
        in Inr (buf @ u32_to_le (crc buf)))))"

subsection \<open>The reader\<close>

definition cat_read_u8 :: "bytes \<Rightarrow> nat \<Rightarrow> (cat_error + u8 \<times> nat) run" where
  "cat_read_u8 buf pos =
     (if pos \<ge> length buf then Some (Inl TruncatedCatalog)
      else do { v \<leftarrow> index_run buf pos; Some (Inr (v, pos + 1)) })"

definition cat_read_u16 :: "bytes \<Rightarrow> nat \<Rightarrow> (cat_error + u16 \<times> nat) run" where
  "cat_read_u16 buf pos =
     (if pos + 2 > length buf then Some (Inl TruncatedCatalog)
      else do { v \<leftarrow> slice_run buf pos (pos + 2); Some (Inr (u16_from_le v, pos + 2)) })"

definition cat_read_u32 :: "bytes \<Rightarrow> nat \<Rightarrow> (cat_error + u32 \<times> nat) run" where
  "cat_read_u32 buf pos =
     (if pos + 4 > length buf then Some (Inl TruncatedCatalog)
      else do { v \<leftarrow> slice_run buf pos (pos + 4); Some (Inr (u32_from_le v, pos + 4)) })"

definition cat_read_u64 :: "bytes \<Rightarrow> nat \<Rightarrow> (cat_error + u64 \<times> nat) run" where
  "cat_read_u64 buf pos =
     (if pos + 8 > length buf then Some (Inl TruncatedCatalog)
      else do { v \<leftarrow> slice_run buf pos (pos + 8); Some (Inr (u64_from_le v, pos + 8)) })"

definition read_string :: "bytes \<Rightarrow> nat \<Rightarrow> nat \<Rightarrow> (cat_error + bytes \<times> nat) run" where
  "read_string buf pos len =
     (if pos + len > length buf then Some (Inl TruncatedCatalogString)
      else do {
        s \<leftarrow> slice_run buf pos (pos + len);
        if utf8_valid s then Some (Inr (s, pos + len)) else Some (Inl NonUtf8InCatalog)
      })"

definition read_len_prefixed_string :: "bytes \<Rightarrow> nat \<Rightarrow> (cat_error + bytes \<times> nat) run" where
  "read_len_prefixed_string buf pos =
     try_res (cat_read_u32 buf pos) (\<lambda>(len, pos). read_string buf pos (unat len))"

definition catalog_type_id :: "u8 \<Rightarrow> cat_error + type_id" where
  "catalog_type_id v = (case type_id_from_u8 v of None \<Rightarrow> Inl (UnknownTypeId v) | Some t \<Rightarrow> Inr t)"

definition read_segment :: "bytes \<Rightarrow> nat \<Rightarrow> (cat_error + segment \<times> nat) run" where
  "read_segment data pos =
     try_res (cat_read_u8 data pos) (\<lambda>(tag, pos).
       if tag = 1 then try_res (read_len_prefixed_string data pos) (\<lambda>(s, pos). Some (Inr (Key s, pos)))
       else if tag = 2 then try_res (cat_read_u32 data pos) (\<lambda>(i, pos). Some (Inr (Index i, pos)))
       else Some (Inl (UnknownSegmentTag tag)))"

definition read_expression_index :: "bytes \<Rightarrow> nat \<Rightarrow> (cat_error + expression_index_meta \<times> nat) run" where
  "read_expression_index data pos =
     try_res (cat_read_u64 data pos) (\<lambda>(id, pos).
     if id = 0 then Some (Inl IndexIdZero)
     else
       try_res (cat_read_u8 data pos) (\<lambda>(u, pos).
       try_res (cat_read_u16 data pos) (\<lambda>(v, pos).
       try_res (read_len_prefixed_string data pos) (\<lambda>(text, pos).
       try_res (read_len_prefixed_string data pos) (\<lambda>(col, pos).
       try_res (cat_read_u16 data pos) (\<lambda>(n, pos).
       try_res (read_many read_segment (unat n) data pos) (\<lambda>(segs, pos).
       Some (Inr (\<lparr>index_id = id, ex_unique = (u \<noteq> 0), ex_version = v, ex_text = text,
                   json_path = \<lparr>path_column = col, segments = segs\<rparr>\<rparr>, pos)))))))))"

definition decode_expression_indexes :: "bytes \<Rightarrow> nat \<Rightarrow> (cat_error + expression_index_meta list \<times> nat) run" where
  "decode_expression_indexes data pos =
     try_res (cat_read_u16 data pos) (\<lambda>(n, pos). read_many read_expression_index (unat n) data pos)"

definition read_link :: "bytes \<Rightarrow> nat \<Rightarrow> (cat_error + link_def \<times> nat) run" where
  "read_link data pos =
     try_res (read_len_prefixed_string data pos) (\<lambda>(a, pos).
     try_res (read_len_prefixed_string data pos) (\<lambda>(b, pos).
     try_res (read_len_prefixed_string data pos) (\<lambda>(c, pos).
     try_res (read_len_prefixed_string data pos) (\<lambda>(d, pos).
     try_res (read_len_prefixed_string data pos) (\<lambda>(e, pos).
     try_res (cat_read_u8 data pos) (\<lambda>(k, pos).
     try_res (Some (link_kind_from_u8 k)) (\<lambda>kind.
     Some (Inr (\<lparr>owner_type = a, link_name = b, target_type = c, local_key = d, target_key = e,
                 link_kind = kind\<rparr>, pos)))))))))"

definition decode_links_section :: "bytes \<Rightarrow> nat \<Rightarrow> (cat_error + link_def list \<times> nat) run" where
  "decode_links_section data pos =
     try_res (cat_read_u32 data pos) (\<lambda>(n, pos).
       if unat n > length data then Some (Inl (ImplausibleLinkCount (unat n)))
       else read_many read_link (unat n) data pos)"

definition read_column :: "bytes \<Rightarrow> nat \<Rightarrow> (cat_error + column_def \<times> nat) run" where
  "read_column buf pos =
     try_res (read_len_prefixed_string buf pos) (\<lambda>(name, pos).
     try_res (cat_read_u8 buf pos) (\<lambda>(t, pos).
     try_res (Some (catalog_type_id t)) (\<lambda>type_id.
     try_res (cat_read_u8 buf pos) (\<lambda>(r, pos).
     try_res (cat_read_u16 buf pos) (\<lambda>(p, pos).
     Some (Inr (\<lparr>col_name = name, col_type = type_id, required = (r \<noteq> 0), position = p\<rparr>, pos)))))))"

definition read_indexed_v3 :: "bytes \<Rightarrow> nat \<Rightarrow> (cat_error + indexed_col_meta \<times> nat) run" where
  "read_indexed_v3 buf pos =
     try_res (read_len_prefixed_string buf pos) (\<lambda>(name, pos).
     try_res (cat_read_u8 buf pos) (\<lambda>(u, pos).
     Some (Inr (\<lparr>idx_name = name, idx_unique = (u \<noteq> 0)\<rparr>, pos))))"

definition read_indexed_v2 :: "bytes \<Rightarrow> nat \<Rightarrow> (cat_error + indexed_col_meta \<times> nat) run" where
  "read_indexed_v2 buf pos =
     try_res (read_len_prefixed_string buf pos) (\<lambda>(name, pos).
     Some (Inr (\<lparr>idx_name = name, idx_unique = False\<rparr>, pos)))"

definition read_indexed_cols :: "u16 \<Rightarrow> bytes \<Rightarrow> nat \<Rightarrow> (cat_error + indexed_col_meta list \<times> nat) run" where
  "read_indexed_cols version buf pos =
     (if version \<ge> 3 then try_res (cat_read_u16 buf pos) (\<lambda>(n, pos). read_many read_indexed_v3 (unat n) buf pos)
      else if version \<ge> 2 then try_res (cat_read_u16 buf pos) (\<lambda>(n, pos). read_many read_indexed_v2 (unat n) buf pos)
      else Some (Inr ([], pos)))"

text \<open>One turn of the reader's loop over the tables: the version staircase.\<close>

definition read_entry :: "u16 \<Rightarrow> bytes \<Rightarrow> nat \<Rightarrow> (cat_error + catalog_entry \<times> nat) run" where
  "read_entry version buf pos =
     try_res (read_len_prefixed_string buf pos) (\<lambda>(name, pos).
     try_res (cat_read_u16 buf pos) (\<lambda>(n_cols, pos).
     try_res (read_many read_column (unat n_cols) buf pos) (\<lambda>(cols, pos).
     try_res (read_indexed_cols version buf pos) (\<lambda>(idx, pos).
     try_res (if version \<ge> 4 then ok_or TruncatedDefaults (decode_defaults_section buf pos (length cols))
              else Some (Inr ([], pos))) (\<lambda>(defaults, pos).
     try_res (if version \<ge> 5 then ok_or TruncatedAutoColumns (decode_auto_section buf pos (length cols))
              else Some (Inr ([], pos))) (\<lambda>(autos, pos).
     try_res (if version \<ge> 6 then decode_expression_indexes buf pos else Some (Inr ([], pos))) (\<lambda>(ex, pos).
     Some (Inr (\<lparr>ent_schema = \<lparr>table_name = name, columns = cols\<rparr>, indexed_cols = idx,
                 expression_indexes = ex, ent_defaults = defaults, ent_auto = autos\<rparr>, pos)))))))))"

text \<open>The checks behind the staircase, with the ids seen so far; the result is the largest id.\<close>

fun check_indexes :: "schema \<Rightarrow> u64 list \<Rightarrow> u64 \<Rightarrow> expression_index_meta list \<Rightarrow> cat_error + u64 list \<times> u64" where
  "check_indexes sc seen max_id [] = Inr (seen, max_id)"
| "check_indexes sc seen max_id (ix # ixs) =
     (if ex_version ix = 0 \<or> ex_text ix = [] then Inl InvalidCanonicalIdentity
      else if ex_version ix = 1 \<and> ex_text ix \<noteq> canonical_text (json_path ix) then Inl CanonicalIdentityMismatch
      else case find_column sc (path_column (json_path ix)) of
             None \<Rightarrow> Inl JsonRootAbsent
           | Some root \<Rightarrow>
               if col_type root \<noteq> TJson then Inl JsonRootNotJson
               else if index_id ix \<in> set seen then Inl DuplicateIndexId
               else check_indexes sc (index_id ix # seen) (max max_id (index_id ix)) ixs)"

fun check_entries :: "u64 list \<Rightarrow> u64 \<Rightarrow> catalog_entry list \<Rightarrow> cat_error + u64" where
  "check_entries seen max_id [] = Inr max_id"
| "check_entries seen max_id (e # es) =
     and_then (check_indexes (ent_schema e) seen max_id (expression_indexes e)) (\<lambda>(seen, max_id).
       check_entries seen max_id es)"

text \<open>The reader behind the fixed header: next index id, tables, links and the checks.\<close>

definition read_next_index_id :: "u16 \<Rightarrow> bytes \<Rightarrow> (cat_error + u64 \<times> nat) run" where
  "read_next_index_id version buf =
     (if version \<ge> 6
      then try_res (cat_read_u64 buf 10) (\<lambda>(id, pos).
             if id = 0 then Some (Inl NextIndexIdZero) else Some (Inr (id, pos)))
      else Some (Inr (1, 10)))"

definition read_catalog_body :: "u16 \<Rightarrow> nat \<Rightarrow> bytes \<Rightarrow> (cat_error + catalog_file) run" where
  "read_catalog_body version n_tables buf =
     try_res (read_next_index_id version buf) (\<lambda>(next_index_id, pos).
     if n_tables > length buf then Some (Inl (ImplausibleTableCount n_tables))
     else
       try_res (read_many (read_entry version) n_tables buf pos) (\<lambda>(entries, pos).
       try_res (if version \<ge> 7 then decode_links_section buf pos else Some (Inr ([], pos))) (\<lambda>(links, pos).
       try_res (Some (check_entries [] 0 entries)) (\<lambda>max_index_id.
       if next_index_id \<le> max_index_id then Some (Inl NextIndexIdTooSmall)
       else Some (Inr \<lparr>cf_version = version, cf_next_index_id = next_index_id, cf_entries = entries,
                       cf_links = links\<rparr>)))))"

definition read_catalog_file_with_max_version ::
  "(bytes \<Rightarrow> u32) \<Rightarrow> bytes \<Rightarrow> u16 \<Rightarrow> (cat_error + catalog_file) run" where
  "read_catalog_file_with_max_version crc file max_supported_version =
     (if length file < 14 \<or> sub file 0 4 \<noteq> CATALOG_MAGIC then Some (Inl BadCatalogMagic)
      else do {
        payload \<leftarrow> slice_run file 0 (length file - 4);
        sc \<leftarrow> slice_run file (length file - 4) (length file);
        let stored_crc = u32_from_le sc;
        let computed_crc = crc payload;
        if stored_crc \<noteq> computed_crc then Some (Inl (CatalogCrcMismatch stored_crc computed_crc))
        else do {
          let buf = payload;
          v \<leftarrow> slice_run buf 4 6;
          let version = u16_from_le v;
          if version = 0 \<or> version > max_supported_version then Some (Inl (UnsupportedCatalogVersion version))
          else do {
            n \<leftarrow> slice_run buf 6 10;
            let n_tables = unat (u32_from_le n);
            read_catalog_body version n_tables buf
          }
        }
      })"

text \<open>\<open>read_catalog_file\<close> also names the file in the message of an error, which is not modelled.\<close>

definition read_catalog_file :: "(bytes \<Rightarrow> u32) \<Rightarrow> bytes \<Rightarrow> (cat_error + catalog_file) run" where
  "read_catalog_file crc file = read_catalog_file_with_max_version crc file CATALOG_VERSION"

definition read_active_catalog_version :: "(bytes \<Rightarrow> u32) \<Rightarrow> bytes \<Rightarrow> (cat_error + u16) run" where
  "read_active_catalog_version crc file = try_res (read_catalog_file crc file) (\<lambda>cf. Some (Inr (cf_version cf)))"

end
