(* ===== verification/Catalog_Codec.thy ===== *)
theory Catalog_Codec
  imports Catalog_File
begin

text \<open>
  The catalog reader undoes the writer, section by section. Each section's encoder and decoder form a
  \<open>cursor_codec\<close>, whose lemmas carry the contract to the lists the file is made of.
\<close>

subsection \<open>Fields\<close>

lemma read_no_panic [simp]:
  "no_panic (cat_read_u8 buf pos)" "no_panic (cat_read_u16 buf pos)" "no_panic (cat_read_u32 buf pos)"
  "no_panic (cat_read_u64 buf pos)" "no_panic (read_string buf pos n)"
  by (auto simp: cat_read_u8_def cat_read_u16_def cat_read_u32_def cat_read_u64_def read_string_def intro!: no_panic_intros)

lemma cat_read_u8_at: "pos < length buf \<Longrightarrow> cat_read_u8 buf pos = Some (Inr (buf ! pos, Suc pos))"
  by (simp add: cat_read_u8_def index_run_def)

lemma cat_read_u16_at: "holds_at buf pos (u16_to_le w) \<Longrightarrow> cat_read_u16 buf pos = Some (Inr (w, pos + 2))"
  using holds_at_bound [of buf pos "u16_to_le w"] by (simp add: cat_read_u16_def slice_u16)

lemma cat_read_u32_at: "holds_at buf pos (u32_to_le w) \<Longrightarrow> cat_read_u32 buf pos = Some (Inr (w, pos + 4))"
  using holds_at_bound [of buf pos "u32_to_le w"] by (simp add: cat_read_u32_def slice_u32)

lemma cat_read_u64_at: "holds_at buf pos (u64_to_le w) \<Longrightarrow> cat_read_u64 buf pos = Some (Inr (w, pos + 8))"
  using holds_at_bound [of buf pos "u64_to_le w"] slice_run_holds [of buf pos "u64_to_le w" "pos + 8"]
  by (simp add: cat_read_u64_def)

definition str_ok :: "bytes \<Rightarrow> bool" where
  "str_ok s \<longleftrightarrow> utf8_valid s \<and> length s < 2 ^ 32"

lemma read_string_at:
  "holds_at buf pos s \<Longrightarrow> utf8_valid s \<Longrightarrow> n = length s \<Longrightarrow> read_string buf pos n = Some (Inr (s, pos + n))"
  using holds_at_bound [of buf pos s] by (simp add: read_string_def slice_run_holds)

interpretation str_codec: cursor_codec prefix32 read_len_prefixed_string str_ok "\<lambda>s. s"
proof
  fix x data pos
  assume "str_ok x" and "holds_at data pos (prefix32 x)"
  then show "read_len_prefixed_string data pos = Some (Inr (x, pos + length (prefix32 x)))"
    by (auto simp: read_len_prefixed_string_def prefix32_def str_ok_def cat_read_u32_at read_string_at)
next
  show "no_panic (read_len_prefixed_string data pos)" for data pos
    by (auto simp: read_len_prefixed_string_def intro!: no_panic_intros)
qed

lemmas read_at = cat_read_u8_at cat_read_u16_at cat_read_u32_at cat_read_u64_at str_codec.dec_enc

declare str_codec.dec_total [simp]

subsection \<open>Columns and index lists\<close>

lemma catalog_type_id_of [simp]: "catalog_type_id (type_id_to_u8 t) = Inr t"
  by (simp add: catalog_type_id_def)

interpretation column_codec: cursor_codec encode_column read_column column_ok "\<lambda>c. c"
proof
  fix c :: column_def and data pos
  assume "column_ok c" and "holds_at data pos (encode_column c)"
  then show "read_column data pos = Some (Inr (c, pos + length (encode_column c)))"
    by (cases c) (auto simp: read_column_def encode_column_def column_ok_def str_ok_def read_at)
next
  show "no_panic (read_column data pos)" for data pos
    by (auto simp: read_column_def intro!: no_panic_intros)
qed

definition indexed_ok :: "indexed_col_meta \<Rightarrow> bool" where
  "indexed_ok m \<longleftrightarrow> str_ok (idx_name m)"

interpretation indexed_codec: cursor_codec encode_indexed_col read_indexed_v3 indexed_ok "\<lambda>m. m"
proof
  fix m :: indexed_col_meta and data pos
  assume "indexed_ok m" and "holds_at data pos (encode_indexed_col m)"
  then show "read_indexed_v3 data pos = Some (Inr (m, pos + length (encode_indexed_col m)))"
    by (cases m) (auto simp: read_indexed_v3_def encode_indexed_col_def indexed_ok_def read_at)
next
  show "no_panic (read_indexed_v3 data pos)" for data pos
    by (auto simp: read_indexed_v3_def intro!: no_panic_intros)
qed

subsection \<open>Expression indexes\<close>

fun segment_ok :: "segment \<Rightarrow> bool" where
  "segment_ok (Key s) \<longleftrightarrow> str_ok s"
| "segment_ok (Index i) \<longleftrightarrow> True"

interpretation segment_codec: cursor_codec segment_canonical_bytes read_segment segment_ok "\<lambda>s. s"
proof
  fix s data pos
  assume "segment_ok s" and "holds_at data pos (segment_canonical_bytes s)"
  then show "read_segment data pos = Some (Inr (s, pos + length (segment_canonical_bytes s)))"
    by (cases s) (auto simp: read_segment_def read_at)
next
  show "no_panic (read_segment data pos)" for data pos
    by (auto simp: read_segment_def intro!: no_panic_intros)
qed

lemma encode_segment_ok: "segment_ok s \<Longrightarrow> encode_segment s = Inr (segment_canonical_bytes s)"
  by (cases s) (simp_all add: push_catalog_string_def str_ok_def)

definition expression_index_bytes :: "expression_index_meta \<Rightarrow> bytes" where
  "expression_index_bytes ix =
     u64_to_le (index_id ix) @ [of_bool (ex_unique ix)] @ u16_to_le (ex_version ix) @
     prefix32 (ex_text ix) @ prefix32 (path_column (json_path ix)) @
     u16_to_le (word_of_nat (length (segments (json_path ix)))) @
     concat (map segment_canonical_bytes (segments (json_path ix)))"

definition expression_index_ok :: "expression_index_meta \<Rightarrow> bool" where
  "expression_index_ok ix \<longleftrightarrow>
     index_id ix \<noteq> 0 \<and> str_ok (ex_text ix) \<and> str_ok (path_column (json_path ix)) \<and>
     length (segments (json_path ix)) < 2 ^ 16 \<and> (\<forall>s \<in> set (segments (json_path ix)). segment_ok s)"

lemma encode_expression_index_ok:
  "expression_index_ok ix \<Longrightarrow> encode_expression_index ix = Inr (expression_index_bytes ix)"
  by (simp add: encode_expression_index_def expression_index_bytes_def expression_index_ok_def str_ok_def
      push_catalog_string_def write_many_Inr [where g = segment_canonical_bytes] encode_segment_ok)

interpretation expression_index_codec:
  cursor_codec expression_index_bytes read_expression_index expression_index_ok "\<lambda>ix. ix"
proof
  fix ix :: expression_index_meta and data pos
  assume ok: "expression_index_ok ix" and h: "holds_at data pos (expression_index_bytes ix)"
  show "read_expression_index data pos = Some (Inr (ix, pos + length (expression_index_bytes ix)))"
    using ok h
    by (cases ix; cases "json_path ix")
      (auto simp: read_expression_index_def expression_index_bytes_def expression_index_ok_def read_at
        segment_codec.read_many_enc add.assoc)
next
  show "no_panic (read_expression_index data pos)" for data pos
    by (auto simp: read_expression_index_def intro!: no_panic_intros segment_codec.dec_total)
qed


lemma decode_expression_indexes_at:
  assumes "holds_at data pos (u16_to_le (word_of_nat (length ixs)) @ concat (map expression_index_bytes ixs))"
    and "length ixs < 2 ^ 16" and "\<forall>ix \<in> set ixs. expression_index_ok ix"
  shows "decode_expression_indexes data pos
         = Some (Inr (ixs, pos + 2 + length (concat (map expression_index_bytes ixs))))"
  using assms expression_index_codec.read_many_enc [of ixs data "pos + 2"]
  by (auto simp: decode_expression_indexes_def read_at simp del: add_2_eq_Suc add_2_eq_Suc')

lemma decode_expression_indexes_total [simp]: "no_panic (decode_expression_indexes data pos)"
  by (auto simp: decode_expression_indexes_def intro!: no_panic_intros expression_index_codec.dec_total)

lemma encode_expression_indexes_ok:
  "\<forall>ix \<in> set ixs. expression_index_ok ix \<Longrightarrow> length ixs < 2 ^ 16 \<Longrightarrow>
   encode_expression_indexes ixs = Inr (u16_to_le (word_of_nat (length ixs)) @ concat (map expression_index_bytes ixs))"
  by (simp add: encode_expression_indexes_def write_many_Inr [where g = expression_index_bytes] encode_expression_index_ok)

subsection \<open>Links\<close>

definition link_bytes :: "link_def \<Rightarrow> bytes" where
  "link_bytes l =
     prefix32 (owner_type l) @ prefix32 (link_name l) @ prefix32 (target_type l) @ prefix32 (local_key l) @
     prefix32 (target_key l) @ [link_kind_to_u8 (link_kind l)]"

definition link_ok :: "link_def \<Rightarrow> bool" where
  "link_ok l \<longleftrightarrow> str_ok (owner_type l) \<and> str_ok (link_name l) \<and> str_ok (target_type l) \<and>
     str_ok (local_key l) \<and> str_ok (target_key l)"

lemma encode_link_ok: "link_ok l \<Longrightarrow> encode_link l = Inr (link_bytes l)"
  by (simp add: encode_link_def link_bytes_def link_ok_def str_ok_def push_catalog_string_def)

lemma link_kind_roundtrip [simp]: "link_kind_from_u8 (link_kind_to_u8 k) = Inr k"
  by (cases k) (simp_all add: link_kind_from_u8_def)

interpretation link_codec: cursor_codec link_bytes read_link link_ok "\<lambda>l. l"
proof
  fix l :: link_def and data pos
  assume "link_ok l" and "holds_at data pos (link_bytes l)"
  then show "read_link data pos = Some (Inr (l, pos + length (link_bytes l)))"
    by (cases l) (auto simp: read_link_def link_bytes_def link_ok_def read_at add.assoc)
next
  show "no_panic (read_link data pos)" for data pos
    by (auto simp: read_link_def intro!: no_panic_intros)
qed

lemma length_concat_ge: "\<forall>x \<in> set xs. 1 \<le> length (f x) \<Longrightarrow> length xs \<le> length (concat (map f xs))"
  by (induction xs) auto

lemma decode_links_section_at:
  assumes h: "holds_at data pos (u32_to_le (word_of_nat (length ls)) @ concat (map link_bytes ls))"
    and l: "length ls < 2 ^ 32" and ok: "\<forall>l \<in> set ls. link_ok l"
  shows "decode_links_section data pos = Some (Inr (ls, pos + 4 + length (concat (map link_bytes ls))))"
proof -
  have "length ls \<le> length (concat (map link_bytes ls))"
    by (rule length_concat_ge) (simp add: link_bytes_def)
  then have "\<not> length data < length ls"
    using holds_at_bound [OF h] by simp
  then show ?thesis
    using assms link_codec.read_many_enc [of ls data "pos + 4"] by (auto simp: decode_links_section_def read_at)
qed

lemma decode_links_section_total [simp]: "no_panic (decode_links_section data pos)"
  by (auto simp: decode_links_section_def intro!: no_panic_intros link_codec.dec_total)

lemma encode_links_section_ok:
  "\<forall>l \<in> set ls. link_ok l \<Longrightarrow> length ls < 2 ^ 32 \<Longrightarrow>
   encode_links_section ls = Inr (u32_to_le (word_of_nat (length ls)) @ concat (map link_bytes ls))"
  by (simp add: encode_links_section_def write_many_Inr [where g = link_bytes] encode_link_ok)

subsection \<open>Tables\<close>

text \<open>
  The layout of one table at a version: the defaults came with version 4, the auto columns with 5 and
  the expression indexes with 6. The reader follows it from version 3 on; the writer never emits less
  than version 5's.
\<close>

definition entry_head :: "catalog_entry \<Rightarrow> bytes" where
  "entry_head e =
     prefix32 (table_name (ent_schema e)) @ u16_to_le (word_of_nat (length (columns (ent_schema e)))) @
     concat (map encode_column (columns (ent_schema e))) @
     u16_to_le (word_of_nat (length (indexed_cols e))) @ concat (map encode_indexed_col (indexed_cols e))"

definition entry_layout :: "u16 \<Rightarrow> catalog_entry \<Rightarrow> bytes" where
  "entry_layout v e =
     entry_head e @
     (if v \<ge> 4 then encode_defaults_section (ent_defaults e) else []) @
     (if v \<ge> 5 then encode_auto_section (ent_auto e) else []) @
     (if v \<ge> 6 then u16_to_le (word_of_nat (length (expression_indexes e))) @
        concat (map expression_index_bytes (expression_indexes e)) else [])"

definition entry_ok :: "catalog_entry \<Rightarrow> bool" where
  "entry_ok e \<longleftrightarrow>
     ddl_table_ok (ent_schema e) (ent_defaults e) (ent_auto e) \<and>
     length (indexed_cols e) < 2 ^ 16 \<and> (\<forall>m \<in> set (indexed_cols e). indexed_ok m) \<and>
     length (expression_indexes e) < 2 ^ 16 \<and> (\<forall>ix \<in> set (expression_indexes e). expression_index_ok ix)"

definition entry_at_version :: "u16 \<Rightarrow> catalog_entry \<Rightarrow> catalog_entry" where
  "entry_at_version v e = e\<lparr>
     ent_defaults := if v \<ge> 4 then pad (length (columns (ent_schema e))) None (ent_defaults e) else [],
     ent_auto := if v \<ge> 5 then pad (length (columns (ent_schema e))) False (ent_auto e) else [],
     expression_indexes := if v \<ge> 6 then expression_indexes e else []\<rparr>"

lemma encode_entry_ok: "entry_ok e \<Longrightarrow> encode_entry v e = Inr (entry_layout (max 5 v) e)"
  by (auto simp: encode_entry_def entry_layout_def entry_head_def entry_ok_def encode_expression_indexes_ok max_def
      word_le_nat_alt)

lemma read_indexed_cols_at:
  assumes "holds_at data pos (u16_to_le (word_of_nat (length ms)) @ concat (map encode_indexed_col ms))"
    and "length ms < 2 ^ 16" and "\<forall>m \<in> set ms. indexed_ok m" and "v \<ge> 3"
  shows "read_indexed_cols v data pos = Some (Inr (ms, pos + 2 + length (concat (map encode_indexed_col ms))))"
  using assms indexed_codec.read_many_enc [of ms data "pos + 2"]
  by (auto simp: read_indexed_cols_def read_at simp del: add_2_eq_Suc add_2_eq_Suc')

lemma read_indexed_cols_total [simp]: "no_panic (read_indexed_cols v data pos)"
  by (auto simp: read_indexed_cols_def read_indexed_v2_def intro!: no_panic_intros indexed_codec.dec_total)


lemma read_entry_total: "no_panic (read_entry v data pos)"
  by (auto simp: read_entry_def intro!: no_panic_intros column_codec.dec_total)

lemma read_entry_at:
  assumes v: "3 \<le> v" and ok: "entry_ok e" and h: "holds_at data pos (entry_layout v e)"
  shows "read_entry v data pos = Some (Inr (entry_at_version v e, pos + length (entry_layout v e)))"
proof -
  let ?t = "table_name (ent_schema e)" and ?cs = "columns (ent_schema e)" and ?ms = "indexed_cols e"
  let ?c = "pos + (4 + length ?t) + 2"
  let ?i = "?c + length (concat (map encode_column ?cs))"
  let ?d = "?i + 2 + length (concat (map encode_indexed_col ?ms))"
  let ?a = "if v \<ge> 4 then ?d + length (encode_defaults_section (ent_defaults e)) else ?d"
  let ?x = "if v \<ge> 5 then ?a + length (encode_auto_section (ent_auto e)) else ?a"
  let ?ixs = "expression_indexes e"
  note ok' = ok [unfolded entry_ok_def ddl_table_ok_def]
  have head: "holds_at data pos (prefix32 ?t)"
      "holds_at data (pos + (4 + length ?t)) (u16_to_le (word_of_nat (length ?cs)))"
      "holds_at data ?c (concat (map encode_column ?cs))"
      "holds_at data ?i (u16_to_le (word_of_nat (length ?ms)) @ concat (map encode_indexed_col ?ms))"
    using h by (simp_all add: entry_layout_def entry_head_def add.assoc)
  have tail: "v \<ge> 4 \<Longrightarrow> holds_at data ?d (encode_defaults_section (ent_defaults e))"
      "v \<ge> 5 \<Longrightarrow> holds_at data ?a (encode_auto_section (ent_auto e))"
      "v \<ge> 6 \<Longrightarrow> holds_at data ?x (u16_to_le (word_of_nat (length ?ixs)) @ concat (map expression_index_bytes ?ixs))"
    using h by (auto simp: entry_layout_def entry_head_def add.assoc word_le_nat_alt)
  have r1: "read_len_prefixed_string data pos = Some (Inr (?t, pos + (4 + length ?t)))"
    using str_codec.dec_enc [OF _ head(1)] ok' by (simp add: str_ok_def)
  have r2: "cat_read_u16 data (pos + (4 + length ?t)) = Some (Inr (word_of_nat (length ?cs), ?c))"
    by (rule cat_read_u16_at [OF head(2)])
  have n: "unat (word_of_nat (length ?cs) :: u16) = length ?cs"
    using ok' by simp
  have r3: "read_many read_column (length ?cs) data ?c = Some (Inr (?cs, ?i))"
    using column_codec.read_many_enc [OF _ head(3)] ok' by simp
  have r4: "read_indexed_cols v data ?i = Some (Inr (?ms, ?d))"
    using read_indexed_cols_at [OF head(4) _ _ v] ok' by simp
  have r5: "(if v \<ge> 4 then ok_or TruncatedDefaults (decode_defaults_section data ?d (length ?cs)) else Some (Inr ([], ?d)))
      = Some (Inr (ent_defaults (entry_at_version v e), ?a))"
    using decode_defaults_section_at [OF tail(1)] ok' by (simp add: entry_at_version_def)
  have r6: "(if v \<ge> 5 then ok_or TruncatedAutoColumns (decode_auto_section data ?a (length ?cs)) else Some (Inr ([], ?a)))
      = Some (Inr (ent_auto (entry_at_version v e), ?x))"
    using decode_auto_section_at [OF tail(2)] ok' by (simp add: entry_at_version_def)
  have r7: "(if v \<ge> 6 then decode_expression_indexes data ?x else Some (Inr ([], ?x)))
      = Some (Inr (expression_indexes (entry_at_version v e), pos + length (entry_layout v e)))"
    using decode_expression_indexes_at [OF tail(3)] ok'
    by (auto simp: entry_at_version_def entry_layout_def entry_head_def word_le_nat_alt)
  have e: "\<lparr>ent_schema = \<lparr>table_name = ?t, columns = ?cs\<rparr>, indexed_cols = ?ms,
      expression_indexes = expression_indexes (entry_at_version v e),
      ent_defaults = ent_defaults (entry_at_version v e), ent_auto = ent_auto (entry_at_version v e)\<rparr>
      = entry_at_version v e"
    by (simp add: entry_at_version_def)
  show ?thesis
    unfolding read_entry_def by (simp only: r1 r2 n r3 r4 r5 r6 r7 e try_simps prod.case)
qed

interpretation entry_codec:
  cursor_codec "entry_layout v" "read_entry v" "\<lambda>e. 3 \<le> v \<and> entry_ok e" "entry_at_version v" for v
  by unfold_locales (simp_all add: read_entry_at read_entry_total)

end
