(* ===== verification/Catalog_Correct.thy ===== *)
theory Catalog_Correct
  imports Catalog_Codec
begin

text \<open>
  What the payload codecs and the catalog file guarantee: round trips, the invariant of an accepted
  catalog, totality of every reader on arbitrary bytes, and what becomes of a catalog that is older
  than the writer.
\<close>

subsection \<open>The checks of the reader\<close>

definition index_wf :: "schema \<Rightarrow> expression_index_meta \<Rightarrow> bool" where
  "index_wf sc ix \<longleftrightarrow>
     ex_version ix \<noteq> 0 \<and> ex_text ix \<noteq> [] \<and>
     (ex_version ix = 1 \<longrightarrow> ex_text ix = canonical_text (json_path ix)) \<and>
     (\<exists>root. find_column sc (path_column (json_path ix)) = Some root \<and> col_type root = TJson)"

abbreviation index_ids :: "catalog_entry list \<Rightarrow> u64 list" where
  "index_ids es \<equiv> concat (map (\<lambda>e. map index_id (expression_indexes e)) es)"

lemma check_indexes_Inr:
  "check_indexes sc seen m ixs = Inr (seen', m') \<longleftrightarrow>
   (\<forall>ix \<in> set ixs. index_wf sc ix) \<and> distinct (map index_id ixs) \<and>
   set (map index_id ixs) \<inter> set seen = {} \<and>
   seen' = rev (map index_id ixs) @ seen \<and> m' = fold max (map index_id ixs) m"
proof (induction ixs arbitrary: seen m)
  case (Cons ix ixs)
  show ?case
  proof (cases "index_wf sc ix \<and> index_id ix \<notin> set seen")
    case True
    then have "check_indexes sc seen m (ix # ixs) = check_indexes sc (index_id ix # seen) (max m (index_id ix)) ixs"
      by (auto simp: index_wf_def)
    then show ?thesis
      using True by (auto simp: Cons.IH max.commute)
  next
    case False
    then have "\<exists>err. check_indexes sc seen m (ix # ixs) = Inl err"
      by (auto simp: index_wf_def split: option.splits)
    then obtain err where "check_indexes sc seen m (ix # ixs) = Inl err" ..
    then show ?thesis using False by (auto simp del: check_indexes.simps)
  qed
qed auto

lemma check_entries_Inr:
  "check_entries seen m es = Inr m' \<longleftrightarrow>
   (\<forall>e \<in> set es. \<forall>ix \<in> set (expression_indexes e). index_wf (ent_schema e) ix) \<and>
   distinct (index_ids es) \<and> set (index_ids es) \<inter> set seen = {} \<and> m' = fold max (index_ids es) m"
proof (induction es arbitrary: seen m)
  case (Cons e es)
  show ?case
  proof (cases "check_indexes (ent_schema e) seen m (expression_indexes e)")
    case (Inl err)
    then have "\<nexists>s' m'. check_indexes (ent_schema e) seen m (expression_indexes e) = Inr (s', m')"
      by simp
    then show ?thesis
      unfolding check_indexes_Inr by (auto simp: Inl)
  next
    case (Inr r)
    obtain s' n where r: "r = (s', n)" by (cases r)
    define xs where "xs = map index_id (expression_indexes e)"
    define ys where "ys = index_ids es"
    have "(\<forall>ix \<in> set (expression_indexes e). index_wf (ent_schema e) ix)" "distinct xs" "set xs \<inter> set seen = {}"
      and s': "s' = rev xs @ seen" and n: "n = fold max xs m"
      using Inr [unfolded r check_indexes_Inr] by (simp_all add: xs_def)
    moreover have "index_ids (e # es) = xs @ ys"
      by (simp add: xs_def ys_def)
    ultimately show ?thesis
      by (simp add: Inr r s' n Cons.IH flip: ys_def) blast
  qed
qed auto

lemma fold_max_less: "fold max xs (m :: u64) < n \<longleftrightarrow> m < n \<and> (\<forall>x \<in> set xs. x < n)"
  by (induction xs arbitrary: m) auto

text \<open>What the reader guarantees of a catalog it accepts.\<close>

definition catalog_wf :: "catalog_file \<Rightarrow> bool" where
  "catalog_wf cf \<longleftrightarrow>
     1 \<le> cf_version cf \<and> cf_version cf \<le> CATALOG_VERSION \<and> cf_next_index_id cf \<noteq> 0 \<and>
     (\<forall>e \<in> set (cf_entries cf). \<forall>ix \<in> set (expression_indexes e). index_wf (ent_schema e) ix) \<and>
     distinct (index_ids (cf_entries cf)) \<and>
     (\<forall>id \<in> set (index_ids (cf_entries cf)). id < cf_next_index_id cf)"

lemma try_res_Inr: "try_res m f = Some (Inr y) \<longleftrightarrow> (\<exists>x. m = Some (Inr x) \<and> f x = Some (Inr y))"
  by (auto simp: try_res_def split: option.splits sum.splits)

lemma read_catalog_body_wf:
  assumes "read_catalog_body v n buf = Some (Inr cf)" and "1 \<le> v" and "v \<le> CATALOG_VERSION"
  shows "catalog_wf cf"
proof -
  obtain nxt pos entries pos' links pos'' m where
    "if v \<ge> 6 then nxt \<noteq> 0 else nxt = 1"
    and "check_entries [] 0 entries = Inr m" and "\<not> nxt \<le> m"
    and "cf = \<lparr>cf_version = v, cf_next_index_id = nxt, cf_entries = entries, cf_links = links\<rparr>"
    using assms(1) unfolding read_catalog_body_def try_res_Inr by (auto simp: try_res_Inr read_next_index_id_def split: if_splits)
  then show ?thesis
    using assms(2,3) by (auto simp: catalog_wf_def check_entries_Inr not_le fold_max_less split: if_splits)
qed


subsection \<open>The whole file\<close>

definition catalog_input_ok :: "u64 \<Rightarrow> catalog_entry list \<Rightarrow> link_def list \<Rightarrow> bool" where
  "catalog_input_ok nxt es ls \<longleftrightarrow>
     length es < 2 ^ 32 \<and> (\<forall>e \<in> set es. entry_ok e) \<and>
     length ls < 2 ^ 32 \<and> (\<forall>l \<in> set ls. link_ok l) \<and> nxt \<noteq> 0 \<and>
     (\<forall>e \<in> set es. \<forall>ix \<in> set (expression_indexes e). index_wf (ent_schema e) ix) \<and>
     distinct (index_ids es) \<and> (\<forall>id \<in> set (index_ids es). id < nxt)"

definition catalog_buf :: "u16 \<Rightarrow> u64 \<Rightarrow> catalog_entry list \<Rightarrow> link_def list \<Rightarrow> bytes" where
  "catalog_buf v nxt es ls =
     CATALOG_MAGIC @ u16_to_le v @ u32_to_le (word_of_nat (length es)) @
     (if v \<ge> 6 then u64_to_le nxt else []) @
     concat (map (entry_layout (max 5 v)) es) @
     (if v \<ge> 7 then u32_to_le (word_of_nat (length ls)) @ concat (map link_bytes ls) else [])"

lemma write_catalog_file_eq:
  assumes "catalog_input_ok nxt es ls" and "1 \<le> v" and "v \<le> CATALOG_VERSION"
  shows "write_catalog_file crc v nxt es ls
         = Inr (catalog_buf v nxt es ls @ u32_to_le (crc (catalog_buf v nxt es ls)))"
proof -
  have "write_many (encode_entry v) es = Inr (concat (map (entry_layout (max 5 v)) es))"
    using assms(1) by (intro write_many_Inr) (simp add: catalog_input_ok_def encode_entry_ok)
  moreover have "encode_links_section ls = Inr (u32_to_le (word_of_nat (length ls)) @ concat (map link_bytes ls))"
    using assms(1) by (intro encode_links_section_ok) (simp_all add: catalog_input_ok_def)
  ultimately show ?thesis
    using assms(2,3) by (simp add: write_catalog_file_def catalog_buf_def Let_def)
qed

lemma length_CATALOG_MAGIC [simp]: "length CATALOG_MAGIC = 4"
  by (simp add: CATALOG_MAGIC_def)

lemma read_catalog_file_header:
  assumes h: "holds_at buf 0 (CATALOG_MAGIC @ u16_to_le v @ u32_to_le n)" and v: "1 \<le> v" "v \<le> CATALOG_VERSION"
  shows "read_catalog_file crc (buf @ u32_to_le (crc buf)) = read_catalog_body v (unat n) buf"
proof -
  have l: "10 \<le> length buf"
    using holds_at_bound [OF h] by simp
  have m: "sub (buf @ u32_to_le (crc buf)) 0 4 = CATALOG_MAGIC"
  proof -
    have "holds_at buf 0 CATALOG_MAGIC" using h by simp
    then show ?thesis by (simp add: holds_at_def sub_append_left)
  qed
  have s: "slice_run (buf @ u32_to_le (crc buf)) 0 (length buf) = Some buf"
    "slice_run (buf @ u32_to_le (crc buf)) (length buf) (length buf + 4) = Some (u32_to_le (crc buf))"
    by (simp_all add: slice_run_def sub_append_left sub_append_right [where b = 0])
  have "slice_run buf 4 6 = Some (u16_to_le v)" "slice_run buf 6 10 = Some (u32_to_le n)"
    by (rule slice_run_holds; use h in simp)+
  moreover have "v \<noteq> 0" "\<not> CATALOG_VERSION < v"
    using v by auto
  ultimately show ?thesis
    using l by (simp add: read_catalog_file_def read_catalog_file_with_max_version_def m s)
qed

lemma read_next_index_id_at:
  assumes "v \<ge> 6 \<Longrightarrow> holds_at buf 10 (u64_to_le nxt)" and "nxt \<noteq> 0"
  shows "read_next_index_id v buf = Some (Inr (if v \<ge> 6 then (nxt, 18) else (1, 10)))"
  using assms cat_read_u64_at [of buf 10 nxt] by (cases "v \<ge> 6") (simp_all add: read_next_index_id_def)

lemma length_entry_layout: "1 \<le> length (entry_layout v e)"
  by (simp add: entry_layout_def entry_head_def)

lemma index_ids_at_version: "index_ids (map (entry_at_version v) es) = (if v \<ge> 6 then index_ids es else [])"
  by (induction es) (simp_all add: entry_at_version_def)

lemma check_entries_at_version:
  assumes "catalog_input_ok nxt es ls"
  shows "\<exists>m. check_entries [] 0 (map (entry_at_version v) es) = Inr m \<and> m < (if v \<ge> 6 then nxt else 1)"
  using assms unfolding check_entries_Inr index_ids_at_version
  by (auto simp: catalog_input_ok_def index_ids_at_version fold_max_less word_neq_0_conv entry_at_version_def)

lemma read_catalog_body_at:
  assumes ok: "catalog_input_ok nxt es ls" and v: "5 \<le> v"
  shows "read_catalog_body v (length es) (catalog_buf v nxt es ls) = Some (Inr
     \<lparr>cf_version = v, cf_next_index_id = if v \<ge> 6 then nxt else 1,
      cf_entries = map (entry_at_version v) es, cf_links = if v \<ge> 7 then ls else []\<rparr>)"
proof -
  define buf where "buf = catalog_buf v nxt es ls"
  let ?p = "if v \<ge> 6 then (18 :: nat) else 10"
  let ?q = "?p + length (concat (map (entry_layout v) es))"
  have h: "holds_at buf 0 (catalog_buf v nxt es ls)"
    unfolding buf_def by (rule holds_at_self)
  have m: "max 5 v = v" using v by (simp add: max_def)
  have h1: "v \<ge> 6 \<Longrightarrow> holds_at buf 10 (u64_to_le nxt)"
    and h2: "holds_at buf ?p (concat (map (entry_layout v) es))"
    and h3: "v \<ge> 7 \<Longrightarrow> holds_at buf ?q (u32_to_le (word_of_nat (length ls)) @ concat (map link_bytes ls))"
    using h by (auto simp: catalog_buf_def m word_le_nat_alt)
  have len: "\<not> length buf < length es"
    using length_concat_ge [of es "entry_layout v"] length_entry_layout holds_at_bound [OF h2] by fastforce
  have es: "read_many (read_entry v) (length es) buf ?p = Some (Inr (map (entry_at_version v) es, ?q))"
    using ok v by (intro entry_codec.read_many_enc [OF _ h2]) (auto simp: catalog_input_ok_def word_le_nat_alt)
  have ls: "(if v \<ge> 7 then decode_links_section buf ?q else Some (Inr ([], ?q)))
    = Some (Inr (if v \<ge> 7 then (ls, ?q + 4 + length (concat (map link_bytes ls))) else ([], ?q)))"
    using decode_links_section_at [OF h3] ok by (simp add: catalog_input_ok_def)
  have nz: "nxt \<noteq> 0"
    using ok by (simp add: catalog_input_ok_def)
  obtain mx where mx: "check_entries [] 0 (map (entry_at_version v) es) = Inr mx" "\<not> (if v \<ge> 6 then nxt else 1) \<le> mx"
    using check_entries_at_version [OF ok, of v] by (auto simp: not_le)
  have nx: "read_next_index_id v buf = Some (Inr (if v \<ge> 6 then (nxt, 18) else (1, 10)))"
    using h1 nz by (rule read_next_index_id_at)
  show ?thesis
    unfolding buf_def [symmetric] read_catalog_body_def
    using mx len es ls nx by (cases "v \<ge> 6"; cases "v \<ge> 7") (simp_all del: not_le)
qed


subsection \<open>Rewriting a catalog of version 4\<close>

lemma u8_of_nat_256: "(word_of_nat (256 * n) :: u8) = 0"
  by (simp add: word_of_nat_eq_0_iff del: of_nat_mult)

lemma nat_to_le_4:
  "nat_to_le 4 v = [word_of_nat v, word_of_nat (v div 256), word_of_nat (v div 256 div 256),
     word_of_nat (v div 256 div 256 div 256)]"
proof -
  have "nat_to_le 4 v = nat_to_le (Suc (Suc (Suc (Suc 0)))) v"
    by (rule arg_cong [of _ _ "\<lambda>k. nat_to_le k v"]) simp
  then show ?thesis by (simp only: nat_to_le.simps)
qed

lemma u32_to_le_shifted:
  assumes "n < 65536"
  shows "u32_to_le (word_of_nat (n * 65536)) = [0, 0] @ take 2 (u32_to_le (word_of_nat n))"
proof -
  have "(word_of_nat (n * 65536) :: u8) = 0" "(word_of_nat (n * 65536 div 256) :: u8) = 0"
    using u8_of_nat_256 [of "n * 256"] u8_of_nat_256 [of n] by (simp_all add: mult.commute del: of_nat_mult)
  moreover have "n * 65536 div 256 div 256 = n"
    by simp
  moreover have "unat (word_of_nat (n * 65536) :: u32) = n * 65536" "unat (word_of_nat n :: u32) = n"
    by (rule unat_u32_of_nat; use assms in linarith)+
  ultimately show ?thesis
    by (simp add: u32_to_le_def nat_to_le_4 del: of_nat_mult)
qed

lemma present_from_none: "True \<notin> set bs \<Longrightarrow> present_from i (auto_marks bs) = []"
  by (induction bs arbitrary: i) auto

lemma encode_auto_section_none: "True \<notin> set bs \<Longrightarrow> encode_auto_section bs = [0, 0]"
  by (simp add: encode_auto_section_def present_from_none u16_to_le_def numeral_2_eq_2)

lemma holds_at_take: "holds_at data pos xs \<Longrightarrow> holds_at data pos (take n xs)"
  using holds_at_append [of data pos "take n xs" "drop n xs"] by simp

lemma read_shifted_name:
  assumes h: "holds_at buf pos ([0, 0] @ prefix32 name)"
    and n: "1 \<le> length name" "length name < 65536" and l: "length buf \<le> 65536"
  shows "read_len_prefixed_string buf pos = Some (Inl TruncatedCatalogString)"
proof -
  have "holds_at buf (pos + 2) (take 2 (u32_to_le (word_of_nat (length name))))"
    using h by (intro holds_at_take) (simp add: prefix32_def)
  then have "holds_at buf pos (u32_to_le (word_of_nat (length name * 65536)))"
    using h unfolding u32_to_le_shifted [OF n(2)] by simp
  then have "cat_read_u32 buf pos = Some (Inr (word_of_nat (length name * 65536), pos + 4))"
    by (rule cat_read_u32_at)
  moreover have "unat (word_of_nat (length name * 65536) :: u32) = length name * 65536"
    using n(2) by (intro unat_u32_of_nat) simp
  moreover have "length buf < pos + 4 + length name * 65536"
    using n(1) l by (cases "length name") simp_all
  ultimately show ?thesis
    by (simp add: read_len_prefixed_string_def read_string_def del: of_nat_mult)
qed

lemma entry_layout_5: "entry_layout 5 e = entry_layout 4 e @ encode_auto_section (ent_auto e)"
  by (simp add: entry_layout_def)

lemma read_catalog_body_legacy:
  assumes ok: "catalog_input_ok nxt (e1 # e2 # es) ls"
    and none: "True \<notin> set (ent_auto e1)"
    and n: "1 \<le> length (table_name (ent_schema e2))" "length (table_name (ent_schema e2)) < 65536"
    and l: "length (catalog_buf 4 nxt (e1 # e2 # es) ls) \<le> 65536"
  shows "read_catalog_body 4 (Suc (Suc (length es))) (catalog_buf 4 nxt (e1 # e2 # es) ls)
         = Some (Inl TruncatedCatalogString)"
proof -
  define buf where "buf = catalog_buf 4 nxt (e1 # e2 # es) ls"
  have h: "holds_at buf 0 (catalog_buf 4 nxt (e1 # e2 # es) ls)"
    unfolding buf_def by (rule holds_at_self)
  let ?p = "10 + length (entry_layout 4 e1)"
  have m: "max 5 (4 :: u16) = 5" by simp
  have h1: "holds_at buf 10 (entry_layout 4 e1)"
    and h2: "holds_at buf ?p ([0, 0] @ prefix32 (table_name (ent_schema e2)))"
    using h by (simp_all add: catalog_buf_def m entry_layout_5 encode_auto_section_none [OF none])
      (simp_all add: entry_layout_def entry_head_def)
  have "entry_ok e1"
    using ok by (simp add: catalog_input_ok_def)
  then have r1: "read_entry 4 buf 10 = Some (Inr (entry_at_version 4 e1, ?p))"
    using h1 by (intro read_entry_at) simp_all
  have r2: "read_entry 4 buf ?p = Some (Inl TruncatedCatalogString)"
    using read_shifted_name [OF h2 n] l by (simp add: read_entry_def buf_def)
  have "length (e1 # e2 # es) \<le> length (concat (map (entry_layout 5) (e1 # e2 # es)))"
    by (rule length_concat_ge) (use length_entry_layout in blast)
  then have "\<not> length buf < Suc (Suc (length es))"
    by (simp add: buf_def catalog_buf_def m)
  then show ?thesis
    unfolding buf_def [symmetric] by (simp add: read_catalog_body_def read_next_index_id_def r1 r2)
qed


subsection \<open>Identity of stored paths\<close>

definition path_ok :: "stored_json_path \<Rightarrow> bool" where
  "path_ok p \<longleftrightarrow> str_ok (path_column p) \<and> length (segments p) < 2 ^ 32 \<and> (\<forall>s \<in> set (segments p). segment_ok s)"

lemma read_canonical_bytes:
  assumes "path_ok p" and "holds_at data 0 (canonical_bytes p)"
  shows "read_len_prefixed_string data 1 = Some (Inr (path_column p, 5 + length (path_column p)))"
    and "cat_read_u32 data (5 + length (path_column p)) = Some (Inr (word_of_nat (length (segments p)), 9 + length (path_column p)))"
    and "\<exists>pos. read_many read_segment (length (segments p)) data (9 + length (path_column p)) = Some (Inr (segments p, pos))"
proof -
  have h: "holds_at data 1 (prefix32 (path_column p))"
      "holds_at data (5 + length (path_column p)) (u32_to_le (word_of_nat (length (segments p))))"
      "holds_at data (9 + length (path_column p)) (concat (map segment_canonical_bytes (segments p)))"
    using assms(2) by (simp_all add: canonical_bytes_def)
  show "read_len_prefixed_string data 1 = Some (Inr (path_column p, 5 + length (path_column p)))"
    using str_codec.dec_enc [OF _ h(1)] assms(1) by (simp add: path_ok_def)
  show "cat_read_u32 data (5 + length (path_column p)) = Some (Inr (word_of_nat (length (segments p)), 9 + length (path_column p)))"
    using cat_read_u32_at [OF h(2)] by simp
  show "\<exists>pos. read_many read_segment (length (segments p)) data (9 + length (path_column p)) = Some (Inr (segments p, pos))"
    using segment_codec.read_many_enc [OF _ h(3)] assms(1) by (simp add: path_ok_def)
qed

lemma canonical_bytes_inj:
  assumes p: "path_ok p" and q: "path_ok q" and e: "canonical_bytes p = canonical_bytes q"
  shows "p = q"
proof -
  obtain data where d: "data = canonical_bytes p" by simp
  have hp: "holds_at data 0 (canonical_bytes p)"
    unfolding d by (rule holds_at_self)
  have hq: "holds_at data 0 (canonical_bytes q)"
    unfolding d e by (rule holds_at_self)
  note rp = read_canonical_bytes [OF p hp] and rq = read_canonical_bytes [OF q hq]
  have "Some (Inr (path_column p, 5 + length (path_column p)))
      = (Some (Inr (path_column q, 5 + length (path_column q))) :: (cat_error + bytes \<times> nat) run)"
    using rp(1) rq(1) by (rule trans [OF sym])
  then have c: "path_column p = path_column q"
    by (simp only: option.inject sum.inject prod.inject)
  have "Some (Inr (word_of_nat (length (segments p)), 9 + length (path_column q)))
      = (Some (Inr (word_of_nat (length (segments q)), 9 + length (path_column q))) :: (cat_error + u32 \<times> nat) run)"
    using rp(2) rq(2) unfolding c by (rule trans [OF sym])
  then have "(word_of_nat (length (segments p)) :: u32) = word_of_nat (length (segments q))"
    by (simp only: option.inject sum.inject prod.inject)
  moreover have "unat (word_of_nat (length (segments p)) :: u32) = length (segments p)"
    "unat (word_of_nat (length (segments q)) :: u32) = length (segments q)"
    using p q by (simp_all add: path_ok_def)
  ultimately have l: "length (segments p) = length (segments q)"
    by metis
  obtain i j where
    i: "read_many read_segment (length (segments p)) data (9 + length (path_column p)) = Some (Inr (segments p, i))"
    and j: "read_many read_segment (length (segments q)) data (9 + length (path_column q)) = Some (Inr (segments q, j))"
    using rp(3) rq(3) by (elim exE) (rule that)
  have "Some (Inr (segments p, i)) = (Some (Inr (segments q, j)) :: (cat_error + segment list \<times> nat) run)"
    by (rule trans [OF sym [OF i]]) (unfold l c, rule j)
  then have "segments p = segments q"
    by (simp only: option.inject sum.inject prod.inject)
  with c show ?thesis
    by (intro stored_json_path.equality) simp_all
qed

subsection \<open>Properties\<close>

definition sample_path :: stored_json_path where
  "sample_path = \<lparr>path_column = [0x62], segments = [Key [0x6B], Index 3]\<rparr>"

definition sample_index :: expression_index_meta where
  "sample_index = \<lparr>index_id = 1, ex_unique = True, ex_version = 1, ex_text = canonical_text sample_path,
     json_path = sample_path\<rparr>"

definition sample_column :: column_def where
  "sample_column = \<lparr>col_name = [0x62], col_type = TJson, required = False, position = 0\<rparr>"

definition sample_entry :: "bytes \<Rightarrow> catalog_entry" where
  "sample_entry name =
     \<lparr>ent_schema = \<lparr>table_name = name, columns = [sample_column]\<rparr>,
      indexed_cols = [\<lparr>idx_name = [0x62], idx_unique = True\<rparr>],
      expression_indexes = [sample_index], ent_defaults = [Some (VInt 7)], ent_auto = []\<rparr>"

definition sample_link :: link_def where
  "sample_link = \<lparr>owner_type = [0x61], link_name = [0x6C], target_type = [0x61], local_key = [0x62],
     target_key = [0x62], link_kind = ToMany\<rparr>"

lemma sample_text: "canonical_text sample_path =
    [0x76, 0x31, 0x3A, 0x2E, 0x62, 0x2D, 0x3E, 0x22, 0x6B, 0x22, 0x2D, 0x3E, 0x33]"
  by (simp add: canonical_text_def sample_path_def push_escaped_def escape_byte_def decimal.simps)

lemma sample_path_ok: "path_ok sample_path"
  by (simp add: path_ok_def sample_path_def str_ok_def utf8_valid_ascii)

lemma sample_index_ok: "expression_index_ok sample_index"
  using sample_path_ok
  by (simp add: expression_index_ok_def sample_index_def path_ok_def sample_text str_ok_def utf8_valid_ascii)
     (simp add: sample_path_def)

lemma sample_column_ok: "column_ok sample_column"
  by (simp add: column_ok_def sample_column_def utf8_valid_ascii)

lemma sample_entry_ok: "str_ok name \<Longrightarrow> entry_ok (sample_entry name)"
  by (simp add: entry_ok_def sample_entry_def ddl_table_ok_def str_ok_def sample_column_ok sample_index_ok
      indexed_ok_def utf8_valid_ascii)

lemma sample_link_ok: "link_ok sample_link"
  by (simp add: link_ok_def sample_link_def str_ok_def utf8_valid_ascii)

lemma sample_index_wf: "index_wf (ent_schema (sample_entry name)) sample_index"
  by (simp add: index_wf_def sample_index_def sample_entry_def find_column_def sample_text)
     (simp add: sample_path_def sample_column_def)

definition len_sum :: "bytes \<Rightarrow> u32" where
  "len_sum b = word_of_nat (length b)"

lemma sample_input_ok: "catalog_input_ok 2 [sample_entry [0x61]] [sample_link]"
proof -
  have "entry_ok (sample_entry [0x61])"
    by (rule sample_entry_ok) (simp add: str_ok_def utf8_valid_ascii)
  moreover have "expression_indexes (sample_entry [0x61]) = [sample_index]" "index_id sample_index = 1"
    by (simp_all add: sample_entry_def sample_index_def)
  ultimately show ?thesis
    using sample_index_wf [of "[0x61]"] by (simp add: catalog_input_ok_def sample_link_ok)
qed

lemma read_back:
  assumes ok: "catalog_input_ok nxt es ls" and v: "5 \<le> v" "v \<le> CATALOG_VERSION"
  shows "read_catalog_file crc (catalog_buf v nxt es ls @ u32_to_le (crc (catalog_buf v nxt es ls))) = Some (Inr
     \<lparr>cf_version = v, cf_next_index_id = if v \<ge> 6 then nxt else 1,
      cf_entries = map (entry_at_version v) es, cf_links = if v \<ge> 7 then ls else []\<rparr>)"
proof -
  have v1: "1 \<le> v" using v(1) by (simp add: word_le_nat_alt)
  have l: "unat (word_of_nat (length es) :: u32) = length es"
    using ok by (simp add: catalog_input_ok_def)
  have "holds_at (catalog_buf v nxt es ls) 0 (CATALOG_MAGIC @ u16_to_le v @ u32_to_le (word_of_nat (length es)))"
    using holds_at_self [of "catalog_buf v nxt es ls"] by (simp add: catalog_buf_def)
  from read_catalog_file_header [OF this v1 v(2)] show ?thesis
    by (simp add: l read_catalog_body_at [OF ok v(1)])
qed

text \<open>
  C24. A catalog written at a version from 5 on is read back: the same version, schemas, index lists,
  defaults and auto columns (padded to the number of columns), and, from versions 6 and 7 on, the
  expression indexes with the next index id and the links.
\<close>

theorem catalog_file_roundtrip:
  assumes "catalog_input_ok nxt entries links" and "5 \<le> v" and "v \<le> CATALOG_VERSION"
  shows "\<exists>file. write_catalog_file crc v nxt entries links = Inr file \<and>
     read_catalog_file crc file = Some (Inr
       \<lparr>cf_version = v, cf_next_index_id = if v \<ge> 6 then nxt else 1,
        cf_entries = map (entry_at_version v) entries, cf_links = if v \<ge> 7 then links else []\<rparr>)"
proof -
  have "1 \<le> v" using assms(2) by (simp add: word_le_nat_alt)
  then show ?thesis
    using write_catalog_file_eq [OF assms(1) _ assms(3)] read_back [OF assms] by simp
qed

theorem catalog_file_roundtrip_witness:
  "catalog_input_ok 2 [sample_entry [0x61]] [sample_link] \<and>
   (\<exists>file. write_catalog_file len_sum 7 2 [sample_entry [0x61]] [sample_link] = Inr file \<and>
     read_catalog_file len_sum file = Some (Inr
       \<lparr>cf_version = 7, cf_next_index_id = 2, cf_entries = [entry_at_version 7 (sample_entry [0x61])],
        cf_links = [sample_link]\<rparr>))"
  using catalog_file_roundtrip [OF sample_input_ok, of 7 len_sum] sample_input_ok
  by (simp add: CATALOG_VERSION_def)

text \<open>
  C25. A catalog the reader accepts is well formed: its version is supported, every expression index
  has a canonical identity that matches its path and a root column of type JSON, no two indexes of the
  database share an id, and every id is below the next one to be handed out.
\<close>

theorem read_catalog_file_wf:
  assumes "read_catalog_file crc file = Some (Inr cf)"
  shows "catalog_wf cf"
proof -
  obtain v n buf where "read_catalog_body v n buf = Some (Inr cf)" "v \<noteq> 0" "\<not> CATALOG_VERSION < v"
    using assms unfolding read_catalog_file_def read_catalog_file_with_max_version_def
    by (auto simp: bind_eq_Some_conv Let_def split: if_splits)
  then show ?thesis
    by (intro read_catalog_body_wf) (auto simp: not_less word_neq_0_conv word_le_nat_alt word_less_nat_alt)
qed

theorem read_catalog_file_wf_witness:
  "catalog_wf \<lparr>cf_version = 7, cf_next_index_id = 2, cf_entries = [entry_at_version 7 (sample_entry [0x61])],
     cf_links = [sample_link]\<rparr>"
  using read_back [OF sample_input_ok, of 7 len_sum]
  by (intro read_catalog_file_wf [of len_sum]) (simp add: CATALOG_VERSION_def)

text \<open>
  C26. No decoder of a log payload and no read of a catalog file panics, whatever the bytes.
\<close>

theorem catalog_readers_total:
  "decode_wal_payload data \<noteq> None \<and> decode_overflow_write_payload data \<noteq> None \<and>
   decode_overflow_free_payload data \<noteq> None \<and> decode_ddl_create_table data \<noteq> None \<and>
   decode_ddl_table_name data \<noteq> None \<and> decode_ddl_alter_add_column data \<noteq> None \<and>
   decode_ddl_alter_drop_column data \<noteq> None \<and> decode_value_blob data pos \<noteq> None \<and>
   read_catalog_file crc data \<noteq> None"
proof -
  have "no_panic (read_catalog_body v n buf)" for v n buf
    by (auto simp: read_catalog_body_def read_next_index_id_def intro!: no_panic_intros read_entry_total)
  then have "no_panic (read_catalog_file crc data)"
    by (auto simp: read_catalog_file_def read_catalog_file_with_max_version_def Let_def slice_run_def
        intro!: no_panic_intros)
  then show ?thesis
    using decode_wal_payload_total decode_overflow_write_payload_total decode_overflow_free_payload_total
      decode_ddl_create_table_total decode_ddl_table_name_total decode_ddl_alter_add_column_total
      decode_ddl_alter_drop_column_total decode_value_blob_total
    unfolding no_panic_def by blast
qed


text \<open>
  C27. The log payloads of the data records carry what they were built from: the table, the row id and
  the row image of an insert, update or delete; the table, the page, its successor and its chunk of an
  overflow write; the table and the pages of an overflow free.
\<close>

theorem redo_payload_roundtrip:
  assumes "utf8_valid table" and "length table < 2 ^ 16"
    and "length row < 2 ^ 32" and "length chunk < 2 ^ 16" and "length pages < 2 ^ 32"
  shows "decode_wal_payload (encode_wal_payload table rid row) = Some (Some (table, rid, row)) \<and>
    decode_overflow_write_payload (encode_overflow_write_payload table pg nx chunk) = Some (Some (table, pg, nx, chunk)) \<and>
    decode_overflow_free_payload (encode_overflow_free_payload table pages) = Some (Some (table, pages))"
proof (intro conjI)
  show "decode_wal_payload (encode_wal_payload table rid row) = Some (Some (table, rid, row))"
    by (rule decode_wal_payload_at [OF holds_at_self]) (use assms in simp_all)
  show "decode_overflow_write_payload (encode_overflow_write_payload table pg nx chunk) = Some (Some (table, pg, nx, chunk))"
    by (rule decode_overflow_write_payload_at [OF holds_at_self]) (use assms in simp_all)
  show "decode_overflow_free_payload (encode_overflow_free_payload table pages) = Some (Some (table, pages))"
    by (rule decode_overflow_free_payload_at [OF holds_at_self]) (use assms in simp_all)
qed

theorem redo_payload_roundtrip_witness:
  "decode_wal_payload (encode_wal_payload [0x61] \<lparr>rid_page = 3, rid_slot = 1\<rparr> [1, 2])
     = Some (Some ([0x61], \<lparr>rid_page = 3, rid_slot = 1\<rparr>, [1, 2])) \<and>
   decode_overflow_write_payload (encode_overflow_write_payload [0x61] 3 4 [9]) = Some (Some ([0x61], 3, 4, [9])) \<and>
   decode_overflow_free_payload (encode_overflow_free_payload [0x61] [3, 4]) = Some (Some ([0x61], [3, 4]))"
  by (rule redo_payload_roundtrip) (simp_all add: utf8_valid_ascii)

text \<open>
  C28. The log payloads of the schema records carry what they were built from: the schema of a created
  table with its defaults and auto columns padded to its columns, the column an alter adds, and the
  names an alter or a drop removes.
\<close>

theorem ddl_payload_roundtrip:
  assumes "ddl_table_ok sc defaults autos" and "column_ok col"
  shows "decode_ddl_create_table (encode_ddl_create_table sc defaults autos) =
      Some (Some (sc, pad (length (columns sc)) None defaults, pad (length (columns sc)) False autos)) \<and>
    decode_ddl_alter_add_column (encode_ddl_alter_add_column (table_name sc) col) = Some (Some (table_name sc, col)) \<and>
    decode_ddl_alter_drop_column (encode_ddl_alter_drop_column (table_name sc) (col_name col))
      = Some (Some (table_name sc, col_name col)) \<and>
    decode_ddl_table_name (encode_ddl_drop_table (table_name sc)) = Some (Some (table_name sc, 4 + length (table_name sc)))"
proof -
  note ok = assms [unfolded ddl_table_ok_def column_ok_def]
  have "decode_ddl_create_table (encode_ddl_create_table sc defaults autos) =
      Some (Some (sc, pad (length (columns sc)) None defaults, pad (length (columns sc)) False autos))"
    by (rule decode_ddl_create_table_at [OF holds_at_self assms(1)])
  moreover have "decode_ddl_alter_add_column (encode_ddl_alter_add_column (table_name sc) col) = Some (Some (table_name sc, col))"
    by (rule decode_ddl_alter_add_column_at [OF holds_at_self]) (use ok assms(2) in simp_all)
  moreover have "decode_ddl_alter_drop_column (encode_ddl_alter_drop_column (table_name sc) (col_name col))
      = Some (Some (table_name sc, col_name col))"
    by (rule decode_ddl_alter_drop_column_at [OF holds_at_self]) (use ok in simp_all)
  moreover have "decode_ddl_table_name (encode_ddl_drop_table (table_name sc)) = Some (Some (table_name sc, 4 + length (table_name sc)))"
    unfolding encode_ddl_drop_table_def
    by (rule decode_ddl_table_name_at [OF holds_at_self]) (use ok in simp_all)
  ultimately show ?thesis by blast
qed

theorem ddl_payload_roundtrip_witness:
  "decode_ddl_create_table (encode_ddl_create_table \<lparr>table_name = [0x61], columns = [sample_column, sample_column]\<rparr>
       [None, Some (VStr [0x78])] [True]) =
     Some (Some (\<lparr>table_name = [0x61], columns = [sample_column, sample_column]\<rparr>,
       [None, Some (VStr [0x78])], [True, False]))"
proof -
  have "ddl_table_ok \<lparr>table_name = [0x61], columns = [sample_column, sample_column]\<rparr> [None, Some (VStr [0x78])] [True]"
    by (simp add: ddl_table_ok_def sample_column_ok utf8_valid_ascii)
  from ddl_payload_roundtrip [OF this sample_column_ok] show ?thesis
    by (simp add: pad_def)
qed

text \<open>
  C29. A catalog of version 4 does not survive being written again. The writer keeps the version it
  read but emits the auto-column section of version 5 after every table, so with two or more tables in
  a file of up to 64 KiB the reader takes the two zero bytes of that section for the start of the next
  table's name length, and the rewritten file is refused as truncated.
\<close>

theorem catalog_legacy_rewrite:
  assumes "catalog_input_ok nxt (e1 # e2 # es) ls"
    and "True \<notin> set (ent_auto e1)"
    and "1 \<le> length (table_name (ent_schema e2))" and "length (table_name (ent_schema e2)) < 65536"
    and "write_catalog_file crc 4 nxt (e1 # e2 # es) ls = Inr file" and "length file \<le> 65536"
  shows "read_catalog_file crc file = Some (Inl TruncatedCatalogString)"
proof -
  have v: "1 \<le> (4 :: u16)" "4 \<le> CATALOG_VERSION"
    by (simp_all add: CATALOG_VERSION_def)
  let ?buf = "catalog_buf 4 nxt (e1 # e2 # es) ls"
  have f: "file = ?buf @ u32_to_le (crc ?buf)"
    using assms(5) write_catalog_file_eq [OF assms(1) v] by simp
  have n: "unat (word_of_nat (length (e1 # e2 # es)) :: u32) = Suc (Suc (length es))"
    using assms(1) by (subst unat_u32_of_nat) (simp_all add: catalog_input_ok_def)
  have "holds_at ?buf 0 (CATALOG_MAGIC @ u16_to_le 4 @ u32_to_le (word_of_nat (length (e1 # e2 # es))))"
    using holds_at_self [of ?buf] unfolding catalog_buf_def by (simp only: holds_at_append)
  from read_catalog_file_header [OF this v, of crc, unfolded n] show ?thesis
    unfolding f using read_catalog_body_legacy [OF assms(1-4)] assms(6) by (simp add: f)
qed

definition plain_entry :: "bytes \<Rightarrow> catalog_entry" where
  "plain_entry name = (sample_entry name)\<lparr>expression_indexes := []\<rparr>"

lemma plain_entry_ok: "str_ok name \<Longrightarrow> entry_ok (plain_entry name)"
  using sample_entry_ok [of name] by (simp add: entry_ok_def plain_entry_def)

lemma plain_input_ok: "catalog_input_ok 1 [plain_entry [0x61], plain_entry [0x62]] []"
proof -
  have "entry_ok (plain_entry [0x61])" "entry_ok (plain_entry [0x62])"
    by (rule plain_entry_ok; simp add: str_ok_def utf8_valid_ascii)+
  then show ?thesis
    by (simp add: catalog_input_ok_def) (simp add: plain_entry_def)
qed

lemma plain_length: "length (catalog_buf 4 1 [plain_entry [0x61], plain_entry [0x62]] []) \<le> 200"
  by (simp add: catalog_buf_def entry_layout_def entry_head_def plain_entry_def sample_entry_def sample_column_def
      encode_column_def encode_indexed_col_def encode_defaults_section_def encode_auto_section_def Let_def max_def)

theorem catalog_legacy_rewrite_witness:
  "\<exists>file. write_catalog_file len_sum 4 1 [plain_entry [0x61], plain_entry [0x62]] [] = Inr file \<and>
     read_catalog_file len_sum file = Some (Inl TruncatedCatalogString)"
proof -
  let ?buf = "catalog_buf 4 1 [plain_entry [0x61], plain_entry [0x62]] []"
  have w: "write_catalog_file len_sum 4 1 [plain_entry [0x61], plain_entry [0x62]] []
      = Inr (?buf @ u32_to_le (len_sum ?buf))"
    by (rule write_catalog_file_eq [OF plain_input_ok]) (simp_all add: CATALOG_VERSION_def)
  have "read_catalog_file len_sum (?buf @ u32_to_le (len_sum ?buf)) = Some (Inl TruncatedCatalogString)"
    using plain_length
    by (intro catalog_legacy_rewrite [OF plain_input_ok _ _ _ w]) (simp_all add: plain_entry_def sample_entry_def)
  with w show ?thesis by blast
qed

text \<open>
  C30. The canonical bytes of a stored JSON path identify it: two paths have the same bytes exactly
  when they have the same column and the same keys and positions.
\<close>

theorem canonical_bytes_identity:
  assumes "path_ok p" and "path_ok q"
  shows "canonical_bytes p = canonical_bytes q \<longleftrightarrow> p = q"
  using canonical_bytes_inj [OF assms] by blast

theorem canonical_bytes_identity_witness:
  "canonical_bytes \<lparr>path_column = [0x62], segments = [Key [0x30]]\<rparr>
   \<noteq> canonical_bytes \<lparr>path_column = [0x62], segments = [Index 0]\<rparr>"
  by (subst canonical_bytes_identity) (simp_all add: path_ok_def str_ok_def utf8_valid_ascii)

end
