(* ===== verification/Value_Order.thy ===== *)
theory Value_Order
  imports Value_Types
begin

text \<open>
  The comparisons behind \<open>Ord for Value\<close> (\<^verbatim>\<open>crates/storage/src/types.rs\<close>) that do not need PJ1: the
  three-way order of integers and byte strings, \<open>f64::total_cmp\<close>, and the cast \<open>i64 as f64\<close>, which
  rounds to nearest with ties to even. An \<open>f64\<close> is its 64 bits.
\<close>

datatype ordering = Less | Equal | Greater

definition cmp_of :: "'a::linorder \<Rightarrow> 'a \<Rightarrow> ordering" where
  "cmp_of a b = (if a < b then Less else if a = b then Equal else Greater)"

fun bytes_cmp :: "bytes \<Rightarrow> bytes \<Rightarrow> ordering" where
  "bytes_cmp [] [] = Equal"
| "bytes_cmp [] (_ # _) = Less"
| "bytes_cmp (_ # _) [] = Greater"
| "bytes_cmp (a # as) (b # bs) = (if a < b then Less else if b < a then Greater else bytes_cmp as bs)"

definition i64_cmp :: "u64 \<Rightarrow> u64 \<Rightarrow> ordering" where
  "i64_cmp a b = cmp_of (sint a) (sint b)"

text \<open>
  \<open>total_cmp\<close> compares, as signed integers, the bits with the lower 63 flipped when the sign bit is
  set: a positive number by its magnitude, a negative one by minus its magnitude minus one.
\<close>

definition total_key :: "u64 \<Rightarrow> int" where
  "total_key b = (if unat b < 2 ^ 63 then int (unat b) else - int (unat b - 2 ^ 63) - 1)"

definition total_cmp :: "u64 \<Rightarrow> u64 \<Rightarrow> ordering" where
  "total_cmp a b = cmp_of (total_key a) (total_key b)"

text \<open>\<open>i64 as f64\<close>: the exponent, and the significand rounded to 53 bits.\<close>

fun top_bit :: "nat \<Rightarrow> nat" where
  "top_bit n = (if n < 2 then 0 else Suc (top_bit (n div 2)))"

declare top_bit.simps [simp del]

definition significand :: "nat \<Rightarrow> nat" where
  "significand m =
     (let e = top_bit m in
      if e \<le> 52 then m * 2 ^ (52 - e)
      else let s = e - 52; q = m div 2 ^ s; r = m mod 2 ^ s in
        if r > 2 ^ (s - 1) \<or> r = 2 ^ (s - 1) \<and> odd q then q + 1 else q)"

definition magnitude_bits :: "nat \<Rightarrow> nat" where
  "magnitude_bits m = (if m = 0 then 0 else (top_bit m + 1023) * 2 ^ 52 + significand m - 2 ^ 52)"

definition i64_to_f64 :: "u64 \<Rightarrow> u64" where
  "i64_to_f64 a =
     (let n = sint a in
      word_of_nat (if n < 0 then 2 ^ 63 + magnitude_bits (nat (- n)) else magnitude_bits (nat n)))"

subsection \<open>Three-way comparisons\<close>

fun flip :: "ordering \<Rightarrow> ordering" where
  "flip Less = Greater"
| "flip Equal = Equal"
| "flip Greater = Less"

lemma flip_flip [simp]: "flip (flip r) = r"
  by (cases r) simp_all

lemma flip_eq_iff [simp]: "flip r = Less \<longleftrightarrow> r = Greater" "flip r = Equal \<longleftrightarrow> r = Equal" "flip r = Greater \<longleftrightarrow> r = Less"
  by (cases r; simp)+

text \<open>A total order as a three-way comparison on a set of values.\<close>

locale cmp_order =
  fixes cmp :: "'a \<Rightarrow> 'a \<Rightarrow> ordering" and K :: "'a set"
  assumes cmp_Equal: "a \<in> K \<Longrightarrow> b \<in> K \<Longrightarrow> cmp a b = Equal \<longleftrightarrow> a = b"
    and cmp_flip: "a \<in> K \<Longrightarrow> b \<in> K \<Longrightarrow> cmp b a = flip (cmp a b)"
    and cmp_trans: "a \<in> K \<Longrightarrow> b \<in> K \<Longrightarrow> c \<in> K \<Longrightarrow> cmp a b = Less \<Longrightarrow> cmp b c = Less \<Longrightarrow> cmp a c = Less"
begin

lemma cmp_refl: "a \<in> K \<Longrightarrow> cmp a a = Equal"
  by (simp add: cmp_Equal)

lemma cmp_le_trans:
  assumes "a \<in> K" "b \<in> K" "c \<in> K" and "cmp a b \<noteq> Greater" and "cmp b c \<noteq> Greater"
  shows "cmp a c \<noteq> Greater"
proof (cases "cmp a b = Equal \<or> cmp b c = Equal")
  case True
  then show ?thesis using assms by (auto simp: cmp_Equal)
next
  case False
  then have "cmp a b = Less" "cmp b c = Less"
    using assms(4,5) by (metis ordering.exhaust)+
  then have "cmp a c = Less"
    using assms(1-3) cmp_trans by blast
  then show ?thesis by simp
qed

lemma cmp_less_le_trans:
  assumes "a \<in> K" "b \<in> K" "c \<in> K" and "cmp a b = Less" and "cmp b c \<noteq> Greater"
  shows "cmp a c = Less"
  using assms cmp_trans cmp_Equal by (metis ordering.exhaust)

lemma cmp_le_less_trans:
  assumes "a \<in> K" "b \<in> K" "c \<in> K" and "cmp a b \<noteq> Greater" and "cmp b c = Less"
  shows "cmp a c = Less"
  using assms cmp_trans cmp_Equal by (metis ordering.exhaust)

lemma cmp_subset:
  assumes "L \<subseteq> K"
  shows "cmp_order cmp L"
proof
  fix a b c
  assume "a \<in> L" "b \<in> L"
  with assms have ab: "a \<in> K" "b \<in> K" by auto
  then show "cmp a b = Equal \<longleftrightarrow> a = b" "cmp b a = flip (cmp a b)"
    by (simp_all add: cmp_Equal cmp_flip [OF ab])
  assume "c \<in> L" "cmp a b = Less" "cmp b c = Less"
  with assms ab show "cmp a c = Less"
    using cmp_trans [of a b c] by auto
qed

end

lemma cmp_order_cmp_of: "cmp_order cmp_of (UNIV :: 'a::linorder set)"
  by unfold_locales (auto simp: cmp_of_def split: if_splits)

text \<open>An order through an injective key.\<close>

lemma cmp_order_key:
  assumes "inj_on f K"
  shows "cmp_order (\<lambda>a b. cmp_of (f a) (f b :: 'b::linorder)) K"
  using assms by unfold_locales (auto simp: cmp_of_def inj_on_eq_iff split: if_splits)

interpretation i64_order: cmp_order i64_cmp UNIV
proof -
  have "i64_cmp = (\<lambda>a b. cmp_of (sint a) (sint b))"
    by (simp add: i64_cmp_def fun_eq_iff)
  then show "cmp_order i64_cmp UNIV"
    using cmp_order_key [of "sint :: u64 \<Rightarrow> int" UNIV] by (simp add: inj_on_def signed_word_eqI)
qed

lemma total_key_nat:
  "(if x < 2 ^ 63 then int x else - int (x - 2 ^ 63) - 1) = (if y < 2 ^ 63 then int y else - int (y - 2 ^ 63) - 1)
   \<Longrightarrow> x = y"
  by (auto split: if_splits)

lemma total_key_eq_iff: "total_key a = total_key b \<longleftrightarrow> a = b"
proof
  assume "total_key a = total_key b"
  then have "unat a = unat b"
    unfolding total_key_def by (rule total_key_nat)
  then show "a = b"
    by (rule unsigned_word_eqI)
qed simp

interpretation f64_order: cmp_order total_cmp UNIV
proof -
  have "total_cmp = (\<lambda>a b. cmp_of (total_key a) (total_key b))"
    by (simp add: total_cmp_def fun_eq_iff)
  then show "cmp_order total_cmp UNIV"
    using cmp_order_key [of total_key UNIV] by (simp add: inj_on_def total_key_eq_iff)
qed

lemma bytes_cmp_Equal: "bytes_cmp as bs = Equal \<longleftrightarrow> as = bs"
  by (induction as bs rule: bytes_cmp.induct) auto

lemma bytes_cmp_flip: "bytes_cmp bs as = flip (bytes_cmp as bs)"
  by (induction as bs rule: bytes_cmp.induct) auto

lemma bytes_cmp_trans: "bytes_cmp as bs = Less \<Longrightarrow> bytes_cmp bs cs = Less \<Longrightarrow> bytes_cmp as cs = Less"
proof (induction as bs arbitrary: cs rule: bytes_cmp.induct)
  case (2 b bs)
  then show ?case by (cases cs) auto
next
  case (4 a as b bs)
  then show ?case by (cases cs) (auto split: if_splits)
qed auto

interpretation bytes_order: cmp_order bytes_cmp UNIV
  by unfold_locales (auto simp: bytes_cmp_Equal intro: bytes_cmp_flip bytes_cmp_trans)


subsection \<open>The cast from \<open>i64\<close> is monotonic\<close>

lemma top_bit_bounds: "0 < n \<Longrightarrow> 2 ^ top_bit n \<le> n \<and> n < 2 ^ Suc (top_bit n)"
proof (induction n rule: top_bit.induct)
  case (1 n)
  show ?case
  proof (cases "n < 2")
    case True
    with 1 show ?thesis by (simp add: top_bit.simps)
  next
    case False
    then have e: "top_bit n = Suc (top_bit (n div 2))"
      by (simp add: top_bit.simps [of n])
    have "2 ^ top_bit (n div 2) \<le> n div 2 \<and> n div 2 < 2 ^ Suc (top_bit (n div 2))"
      using 1 False by auto
    then show ?thesis
      unfolding e power_Suc [of _ "Suc (top_bit (n div 2))"] by (auto simp: less_mult_imp_div_less)
  qed
qed

lemma top_bit_mono: "0 < a \<Longrightarrow> a \<le> b \<Longrightarrow> top_bit a \<le> top_bit b"
proof (rule ccontr)
  assume "0 < a" "a \<le> b" "\<not> top_bit a \<le> top_bit b"
  then have "(2::nat) ^ Suc (top_bit b) \<le> 2 ^ top_bit a"
    by (intro power_increasing) auto
  then show False
    using top_bit_bounds [of a] top_bit_bounds [of b] \<open>0 < a\<close> \<open>a \<le> b\<close> by auto
qed

definition round_even :: "nat \<Rightarrow> nat \<Rightarrow> nat" where
  "round_even s m =
     (let q = m div 2 ^ s; r = m mod 2 ^ s in
      if r > 2 ^ (s - 1) \<or> r = 2 ^ (s - 1) \<and> odd q then q + 1 else q)"

lemma round_even_mono:
  assumes "a \<le> b"
  shows "round_even s a \<le> round_even s b"
proof (cases "a div 2 ^ s = b div 2 ^ s")
  case True
  then have "a mod 2 ^ s \<le> b mod 2 ^ s"
    using assms by (metis div_mult_mod_eq nat_add_left_cancel_le)
  with True show ?thesis by (auto simp: round_even_def Let_def)
next
  case False
  then have "a div 2 ^ s < b div 2 ^ s"
    using assms div_le_mono [of a b "2 ^ s"] by linarith
  then show ?thesis by (auto simp: round_even_def Let_def)
qed

lemma significand_eq:
  "significand m = (if top_bit m \<le> 52 then m * 2 ^ (52 - top_bit m) else round_even (top_bit m - 52) m)"
  by (simp add: significand_def round_even_def Let_def)

lemma significand_bounds:
  assumes "0 < m"
  shows "2 ^ 52 \<le> significand m \<and> significand m \<le> 2 ^ 53"
proof (cases "top_bit m \<le> 52")
  case True
  let ?k = "52 - top_bit m"
  have "2 ^ top_bit m * 2 ^ ?k \<le> m * 2 ^ ?k" "m * 2 ^ ?k \<le> 2 ^ Suc (top_bit m) * 2 ^ ?k"
    using top_bit_bounds [OF assms] by (auto intro: mult_le_mono1)
  moreover have "(2::nat) ^ top_bit m * 2 ^ ?k = 2 ^ 52" "(2::nat) ^ Suc (top_bit m) * 2 ^ ?k = 2 ^ 53"
    using True by (simp_all flip: power_add)
  ultimately show ?thesis
    unfolding significand_eq using True by (simp only: if_True)
next
  case False
  let ?s = "top_bit m - 52"
  have e: "(2::nat) ^ top_bit m = 2 ^ 52 * 2 ^ ?s" "(2::nat) ^ Suc (top_bit m) = 2 ^ 53 * 2 ^ ?s"
  proof -
    have "top_bit m = 52 + ?s" "Suc (top_bit m) = 53 + ?s"
      using False by simp_all
    then show "(2::nat) ^ top_bit m = 2 ^ 52 * 2 ^ ?s" "(2::nat) ^ Suc (top_bit m) = 2 ^ 53 * 2 ^ ?s"
      by (metis power_add)+
  qed
  have "2 ^ 52 \<le> m div 2 ^ ?s" "m div 2 ^ ?s < 2 ^ 53"
    using top_bit_bounds [OF assms] unfolding e
    by (auto simp: less_eq_div_iff_mult_less_eq less_mult_imp_div_less)
  then show ?thesis
    unfolding significand_eq round_even_def Let_def using False by (auto split: if_splits)
qed

lemma significand_mono: "0 < a \<Longrightarrow> a \<le> b \<Longrightarrow> top_bit a = top_bit b \<Longrightarrow> significand a \<le> significand b"
  by (simp add: significand_eq round_even_mono)

lemma magnitude_bits_mono:
  assumes "a \<le> b"
  shows "magnitude_bits a \<le> magnitude_bits b"
proof (cases "a = 0")
  case False
  then have a: "0 < a" and b: "0 < b" using assms by auto
  show ?thesis
  proof (cases "top_bit a = top_bit b")
    case True
    then have "significand a \<le> significand b"
      using a assms by (intro significand_mono)
    with a b True show ?thesis by (simp add: magnitude_bits_def diff_le_mono)
  next
    case ne: False
    then have "Suc (top_bit a) \<le> top_bit b"
      using top_bit_mono [OF a assms] by simp
    then have "(Suc (top_bit a) + 1023) * 2 ^ 52 \<le> (top_bit b + 1023) * 2 ^ 52"
      by simp
    then show ?thesis
      using significand_bounds [OF a] significand_bounds [OF b] a b by (simp add: magnitude_bits_def)
  qed
qed (simp add: magnitude_bits_def)

lemma magnitude_bits_less:
  assumes "m \<le> 2 ^ 63"
  shows "magnitude_bits m < 2 ^ 63"
proof (cases "m = 0")
  case False
  then have m: "0 < m" by simp
  have "top_bit m \<le> 63"
  proof (rule ccontr)
    assume "\<not> top_bit m \<le> 63"
    then have "(2::nat) ^ 64 \<le> 2 ^ top_bit m" by (intro power_increasing) auto
    then show False using top_bit_bounds [OF m] assms by simp
  qed
  then have "(top_bit m + 1023) * 2 ^ 52 \<le> 1086 * 2 ^ 52" by simp
  then show ?thesis
    using significand_bounds [OF m] m by (simp add: magnitude_bits_def)
qed (simp add: magnitude_bits_def)

definition promoted_key :: "int \<Rightarrow> int" where
  "promoted_key n = (if n < 0 then - int (magnitude_bits (nat (- n))) - 1 else int (magnitude_bits (nat n)))"

lemma promoted_key_mono:
  assumes "a \<le> b"
  shows "promoted_key a \<le> promoted_key b"
proof -
  have "magnitude_bits (nat a) \<le> magnitude_bits (nat b)" "magnitude_bits (nat (- b)) \<le> magnitude_bits (nat (- a))"
    using assms by (auto intro: magnitude_bits_mono)
  with assms show ?thesis by (auto simp: promoted_key_def)
qed

lemma total_key_i64_to_f64: "total_key (i64_to_f64 a) = promoted_key (sint a)"
proof -
  have r: "- (2 ^ 63) \<le> sint a" "sint a < 2 ^ 63"
    using sint_range_size [of a] by (simp_all add: word_size)
  show ?thesis
  proof (cases "sint a < 0")
    case True
    then have m: "magnitude_bits (nat (- sint a)) < 2 ^ 63"
      using r by (intro magnitude_bits_less) simp
    have "unat (i64_to_f64 a) = 2 ^ 63 + magnitude_bits (nat (- sint a))"
      using True m by (simp add: i64_to_f64_def Let_def unat_of_nat del: of_nat_add)
    then show ?thesis using True by (simp add: total_key_def promoted_key_def)
  next
    case False
    then have m: "magnitude_bits (nat (sint a)) < 2 ^ 63"
      using r by (intro magnitude_bits_less) simp
    have "unat (i64_to_f64 a) = magnitude_bits (nat (sint a))"
      using False m by (simp add: i64_to_f64_def Let_def unat_of_nat)
    then show ?thesis using False m by (simp add: total_key_def promoted_key_def)
  qed
qed

end
