(* ===== verification/Pj1.thy ===== *)
theory Pj1
  imports Cursor Value_Order
begin

text \<open>
  PJ1, the canonical binary form of JSON documents (\<^verbatim>\<open>crates/storage/src/pj1.rs\<close>): the encoder, the
  validator, the scalar view, path extraction and the total order, all on raw bytes. Offsets are
  relative to the node they belong to. Comparing documents follows stored offsets and need not end on
  malformed bytes, so it is a partial function; the validator is bounded by its depth check. Parsing
  and rendering JSON text are not modelled here.
\<close>

datatype json_error = InvalidUtf8 | TooDeep | NumberOutOfRange | Truncated | ReservedTag u8 | MalformedPj1

text \<open>The \<open>Node\<close> the parser builds; object pairs are already canonical.\<close>

datatype json =
    JNull
  | JBool bool
  | JInt u64
  | JFloat u64
  | JStr bytes
  | JArray "json list"
  | JObject "(bytes \<times> json) list"

datatype path_seg = PKey bytes | PIndex u32

datatype pj1_scalar_view = SNull | SBool bool | SInt u64 | SFloat u64 | SStr bytes | SNonScalar

definition MAX_DEPTH :: nat where
  "MAX_DEPTH = 128"

definition TAG_NULL :: u8 where "TAG_NULL = 0"
definition TAG_FALSE :: u8 where "TAG_FALSE = 1"
definition TAG_TRUE :: u8 where "TAG_TRUE = 2"
definition TAG_INT :: u8 where "TAG_INT = 3"
definition TAG_FLOAT :: u8 where "TAG_FLOAT = 4"
definition TAG_STRING :: u8 where "TAG_STRING = 5"
definition TAG_ARRAY :: u8 where "TAG_ARRAY = 6"
definition TAG_OBJECT :: u8 where "TAG_OBJECT = 7"

lemmas tag_defs = TAG_NULL_def TAG_FALSE_def TAG_TRUE_def TAG_INT_def TAG_FLOAT_def TAG_STRING_def
  TAG_ARRAY_def TAG_OBJECT_def

subsection \<open>Encoding\<close>

text \<open>A stable sort by key, and the pass that keeps the last of each run of equal keys.\<close>

fun insert_pair :: "(bytes \<times> 'a) list \<Rightarrow> bytes \<times> 'a \<Rightarrow> (bytes \<times> 'a) list" where
  "insert_pair [] p = [p]"
| "insert_pair (q # qs) p = (if bytes_cmp (fst p) (fst q) = Less then p # q # qs else q # insert_pair qs p)"

definition sort_pairs :: "(bytes \<times> 'a) list \<Rightarrow> (bytes \<times> 'a) list" where
  "sort_pairs ps = foldl insert_pair [] ps"

fun dedup_pairs :: "(bytes \<times> 'a) list \<Rightarrow> (bytes \<times> 'a) list" where
  "dedup_pairs [] = []"
| "dedup_pairs [p] = [p]"
| "dedup_pairs (p # q # ps) = (if fst p = fst q then dedup_pairs (q # ps) else p # dedup_pairs (q # ps))"

definition canonical_object :: "(bytes \<times> json) list \<Rightarrow> json" where
  "canonical_object pairs = JObject (dedup_pairs (sort_pairs pairs))"

text \<open>The start offsets of consecutive parts from \<open>base\<close>, and the offset behind the last.\<close>

fun starts :: "nat \<Rightarrow> bytes list \<Rightarrow> nat list" where
  "starts base [] = []"
| "starts base (p # ps) = base # starts (base + length p) ps"

definition off32 :: "nat \<Rightarrow> bytes" where
  "off32 n = u32_to_le (word_of_nat n)"

definition interleave :: "nat list \<Rightarrow> nat list \<Rightarrow> bytes" where
  "interleave ks vs = concat (map2 (\<lambda>k v. off32 k @ off32 v) ks vs)"

fun encode_node :: "json \<Rightarrow> bytes" where
  "encode_node JNull = [TAG_NULL]"
| "encode_node (JBool b) = [if b then TAG_TRUE else TAG_FALSE]"
| "encode_node (JInt i) = TAG_INT # u64_to_le i"
| "encode_node (JFloat f) = TAG_FLOAT # u64_to_le f"
| "encode_node (JStr s) = TAG_STRING # prefix32 s"
| "encode_node (JArray elems) =
     (let parts = map encode_node elems;
          base = 5 + 4 * (length elems + 1);
          body = concat parts
      in TAG_ARRAY # off32 (length elems) @ concat (map off32 (starts base parts)) @
         off32 (base + length body) @ body)"
| "encode_node (JObject pairs) =
     (let ks = map (\<lambda>(k, v). prefix32 k) pairs;
          vs = map (\<lambda>(k, v). encode_node v) pairs;
          base = 5 + length pairs * 8 + 4;
          vbase = base + length (concat ks)
      in TAG_OBJECT # off32 (length pairs) @ interleave (starts base ks) (starts vbase vs) @
         off32 (vbase + length (concat vs)) @ concat ks @ concat vs)"

subsection \<open>Reading raw bytes\<close>

definition rd_u32 :: "bytes \<Rightarrow> nat \<Rightarrow> nat option" where
  "rd_u32 buf at = map_option (\<lambda>s. unat (u32_from_le s)) (slice_get buf at (at + 4))"

definition rd_u64 :: "bytes \<Rightarrow> nat \<Rightarrow> u64 option" where
  "rd_u64 buf at = map_option u64_from_le (slice_get buf at (at + 8))"

definition rd_u8 :: "bytes \<Rightarrow> nat \<Rightarrow> u8 option" where
  "rd_u8 buf at = (if at < length buf then Some (buf ! at) else None)"

definition or_err :: "'e \<Rightarrow> 'a option \<Rightarrow> 'e + 'a" where
  "or_err e m = (case m of None \<Rightarrow> Inl e | Some x \<Rightarrow> Inr x)"

definition is_finite_f64 :: "u64 \<Rightarrow> bool" where
  "is_finite_f64 b \<longleftrightarrow> unat b mod 2 ^ 63 < 0x7FF * 2 ^ 52"

definition read_str_len :: "bytes \<Rightarrow> nat \<Rightarrow> json_error + bytes \<times> nat" where
  "read_str_len buf at =
     and_then (or_err Truncated (rd_u32 buf at)) (\<lambda>len.
     and_then (or_err Truncated (slice_get buf (at + 4) (at + 4 + len))) (\<lambda>s.
     if utf8_valid s then Inr (s, at + 4 + len) else Inl MalformedPj1))"

definition read_str :: "bytes \<Rightarrow> nat \<Rightarrow> json_error + bytes \<times> nat" where
  "read_str buf start = read_str_len buf (start + 1)"

subsection \<open>Extraction\<close>

function search_key :: "bytes \<Rightarrow> bytes \<Rightarrow> nat \<Rightarrow> nat \<Rightarrow> nat \<Rightarrow> bytes option" where
  "search_key doc target count lo hi =
     (if lo < hi then
        let mid = (lo + hi) div 2 in
        case rd_u32 doc (5 + mid * 8) of
          None \<Rightarrow> None
        | Some key_off \<Rightarrow>
            (case read_str_len doc key_off of
               Inl _ \<Rightarrow> None
             | Inr (k, _) \<Rightarrow>
                 (case bytes_cmp k target of
                    Less \<Rightarrow> search_key doc target count (mid + 1) hi
                  | Greater \<Rightarrow> search_key doc target count lo mid
                  | Equal \<Rightarrow>
                      Option.bind (rd_u32 doc (5 + mid * 8 + 4)) (\<lambda>val_off.
                      Option.bind (if mid + 1 < count then rd_u32 doc (5 + (mid + 1) * 8 + 4)
                                   else rd_u32 doc (5 + count * 8)) (\<lambda>nxt.
                      slice_get doc val_off nxt))))
      else None)"
  by pat_completeness auto
termination
  by (relation "measure (\<lambda>(doc, target, count, lo, hi). hi - lo)") auto

declare search_key.simps [simp del]

definition pj1_get :: "bytes \<Rightarrow> path_seg \<Rightarrow> bytes option" where
  "pj1_get doc seg =
     Option.bind (rd_u8 doc 0) (\<lambda>tag.
     case seg of
       PIndex idx \<Rightarrow>
         if tag = TAG_ARRAY then
           Option.bind (rd_u32 doc 1) (\<lambda>count.
           if unat idx \<ge> count then None
           else
             Option.bind (rd_u32 doc (5 + unat idx * 4)) (\<lambda>o0.
             Option.bind (rd_u32 doc (5 + (unat idx + 1) * 4)) (\<lambda>o1.
             slice_get doc o0 o1)))
         else None
     | PKey key \<Rightarrow>
         if tag = TAG_OBJECT then
           Option.bind (rd_u32 doc 1) (\<lambda>count. search_key doc key count 0 count)
         else None)"

definition pj1_scalar :: "bytes \<Rightarrow> json_error + pj1_scalar_view" where
  "pj1_scalar doc =
     and_then (or_err Truncated (rd_u8 doc 0)) (\<lambda>tag.
     if tag = TAG_NULL \<and> length doc = 1 then Inr SNull
     else if tag = TAG_FALSE \<and> length doc = 1 then Inr (SBool False)
     else if tag = TAG_TRUE \<and> length doc = 1 then Inr (SBool True)
     else if tag = TAG_INT \<and> length doc = 9 then
       and_then (or_err Truncated (rd_u64 doc 1)) (\<lambda>i. Inr (SInt i))
     else if tag = TAG_FLOAT \<and> length doc = 9 then
       and_then (or_err Truncated (rd_u64 doc 1)) (\<lambda>f.
       if is_finite_f64 f then Inr (SFloat f) else Inl MalformedPj1)
     else if tag = TAG_STRING then
       and_then (read_str doc 0) (\<lambda>(s, stop).
       if stop \<noteq> length doc then Inl MalformedPj1 else Inr (SStr s))
     else if tag = TAG_ARRAY \<or> tag = TAG_OBJECT then Inr SNonScalar
     else Inl (ReservedTag tag))"

subsection \<open>The total order\<close>

definition type_rank :: "u8 \<Rightarrow> nat" where
  "type_rank tag =
     (if tag = TAG_NULL then 0 else if tag = TAG_FALSE then 1 else if tag = TAG_TRUE then 2
      else if tag = TAG_INT \<or> tag = TAG_FLOAT then 3 else if tag = TAG_STRING then 4
      else if tag = TAG_ARRAY then 5 else if tag = TAG_OBJECT then 6 else 7)"

datatype jnum = NInt u64 | NFloat u64

definition read_number :: "bytes \<Rightarrow> nat \<Rightarrow> jnum" where
  "read_number buf at =
     (if rd_u8 buf at = Some TAG_INT then NInt (case rd_u64 buf (at + 1) of None \<Rightarrow> 0 | Some i \<Rightarrow> i)
      else NFloat (case rd_u64 buf (at + 1) of None \<Rightarrow> 0 | Some f \<Rightarrow> f))"

fun then_cmp :: "ordering \<Rightarrow> ordering \<Rightarrow> ordering" where
  "then_cmp Equal r = r"
| "then_cmp Less r = Less"
| "then_cmp Greater r = Greater"

fun cmp_numeric :: "jnum \<Rightarrow> jnum \<Rightarrow> ordering" where
  "cmp_numeric (NInt x) (NInt y) = i64_cmp x y"
| "cmp_numeric (NFloat x) (NFloat y) = total_cmp x y"
| "cmp_numeric (NInt x) (NFloat y) = then_cmp (total_cmp (i64_to_f64 x) y) Less"
| "cmp_numeric (NFloat x) (NInt y) = then_cmp (total_cmp x (i64_to_f64 y)) Greater"

definition u32_or_0 :: "bytes \<Rightarrow> nat \<Rightarrow> nat" where
  "u32_or_0 buf at = (case rd_u32 buf at of None \<Rightarrow> 0 | Some n \<Rightarrow> n)"

definition node_end :: "bytes \<Rightarrow> nat \<Rightarrow> nat" where
  "node_end buf start =
     (case rd_u8 buf start of
        None \<Rightarrow> start + 1
      | Some t \<Rightarrow>
          if t = TAG_NULL \<or> t = TAG_FALSE \<or> t = TAG_TRUE then start + 1
          else if t = TAG_INT \<or> t = TAG_FLOAT then start + 9
          else if t = TAG_STRING then (case read_str buf start of Inl _ \<Rightarrow> start + 1 | Inr (_, e) \<Rightarrow> e)
          else if t = TAG_ARRAY then start + u32_or_0 buf (start + 5 + u32_or_0 buf (start + 1) * 4)
          else if t = TAG_OBJECT then start + u32_or_0 buf (start + 5 + u32_or_0 buf (start + 1) * 8)
          else start + 1)"

definition str_or_empty :: "bytes \<Rightarrow> nat \<Rightarrow> bytes" where
  "str_or_empty buf at = (case read_str_len buf at of Inl _ \<Rightarrow> [] | Inr (s, _) \<Rightarrow> s)"

text \<open>\<open>for i in is { match step(i) { Equal => {}, other => return other } } rest\<close>\<close>

fun first_diff :: "(nat \<Rightarrow> ordering run) \<Rightarrow> nat list \<Rightarrow> ordering \<Rightarrow> ordering run" where
  "first_diff step [] rest = Some rest"
| "first_diff step (i # is) rest =
     Option.bind (step i) (\<lambda>r. if r = Equal then first_diff step is rest else Some r)"

lemma first_diff_mono [partial_function_mono]:
  assumes "\<And>i. mono_option (\<lambda>f. step f i)"
  shows "mono_option (\<lambda>f. first_diff (step f) is rest)"
proof (induction "is")
  case Nil
  show ?case by (simp add: option.const_mono)
next
  case (Cons i "is")
  show ?case
    unfolding first_diff.simps by (intro bind_mono assms if_mono Cons option.const_mono)
qed

partial_function (option) cmp_node :: "bytes \<Rightarrow> nat \<Rightarrow> bytes \<Rightarrow> nat \<Rightarrow> (ordering \<times> nat \<times> nat) run" where
  "cmp_node a ai b bi =
     (let ra = type_rank (case rd_u8 a ai of None \<Rightarrow> 255 | Some t \<Rightarrow> t);
          rb = type_rank (case rd_u8 b bi of None \<Rightarrow> 255 | Some t \<Rightarrow> t)
      in if ra \<noteq> rb then Some (cmp_of ra rb, node_end a ai, node_end b bi)
         else if ra = 3 then Some (cmp_numeric (read_number a ai) (read_number b bi), ai + 9, bi + 9)
         else if ra = 4 then
           (let (sa, ea) = (case read_str a ai of Inl _ \<Rightarrow> ([], ai + 1) | Inr r \<Rightarrow> r);
                (sb, eb) = (case read_str b bi of Inl _ \<Rightarrow> ([], bi + 1) | Inr r \<Rightarrow> r)
            in Some (bytes_cmp sa sb, ea, eb))
         else if ra = 5 then
           (let ca = u32_or_0 a (ai + 1); cb = u32_or_0 b (bi + 1) in
            Option.bind
              (first_diff (\<lambda>i. Option.bind (cmp_node a (ai + u32_or_0 a (ai + 5 + i * 4)) b (bi + u32_or_0 b (bi + 5 + i * 4)))
                                (\<lambda>(r, _, _). Some r))
                 [0..<min ca cb] (cmp_of ca cb))
              (\<lambda>r. Some (r, node_end a ai, node_end b bi)))
         else if ra = 6 then
           (let ca = u32_or_0 a (ai + 1); cb = u32_or_0 b (bi + 1) in
            Option.bind
              (first_diff (\<lambda>i.
                 let kc = bytes_cmp (str_or_empty a (ai + u32_or_0 a (ai + 5 + i * 8)))
                            (str_or_empty b (bi + u32_or_0 b (bi + 5 + i * 8)))
                 in if kc \<noteq> Equal then Some kc
                    else Option.bind (cmp_node a (ai + u32_or_0 a (ai + 5 + i * 8 + 4)) b (bi + u32_or_0 b (bi + 5 + i * 8 + 4)))
                           (\<lambda>(r, _, _). Some r))
                 [0..<min ca cb] (cmp_of ca cb))
              (\<lambda>r. Some (r, node_end a ai, node_end b bi)))
         else Some (Equal, ai + 1, bi + 1))"

definition pj1_cmp :: "bytes \<Rightarrow> bytes \<Rightarrow> ordering run" where
  "pj1_cmp a b = map_option fst (cmp_node a 0 b 0)"


subsection \<open>Validation\<close>

lemma and_then_cong [fundef_cong]:
  "m = m' \<Longrightarrow> (\<And>x. m' = Inr x \<Longrightarrow> f x = g x) \<Longrightarrow> and_then m f = and_then m' g"
  by (cases m') (simp_all add: and_then_def)

definition read_str_checked :: "bytes \<Rightarrow> nat \<Rightarrow> json_error + bytes \<times> nat" where
  "read_str_checked buf at =
     and_then (or_err Truncated (rd_u32 buf at)) (\<lambda>len.
     and_then (or_err Truncated (slice_get buf (at + 4) (at + 4 + len))) (\<lambda>s.
     if utf8_valid s then Inr (s, at + 4 + len) else Inl MalformedPj1))"

text \<open>The loop over the keys of an object: \<open>expected\<close> is the next key's offset; the result is the last.\<close>

fun validate_keys :: "bytes \<Rightarrow> nat \<Rightarrow> nat \<Rightarrow> nat list \<Rightarrow> bytes option \<Rightarrow> json_error + nat" where
  "validate_keys buf start expected [] prev = Inr expected"
| "validate_keys buf start expected (i # is) prev =
     and_then (or_err Truncated (rd_u32 buf (start + 5 + i * 8))) (\<lambda>key_off.
     if key_off \<noteq> expected then Inl MalformedPj1
     else
       and_then (read_str_checked buf (start + key_off)) (\<lambda>(k, kend).
       if (case prev of None \<Rightarrow> False | Some pk \<Rightarrow> bytes_cmp k pk \<noteq> Greater) then Inl MalformedPj1
       else validate_keys buf start (kend - start) is (Some k)))"

text \<open>
  The counts are 32-bit, so the checked multiplications and additions of the table sizes cannot
  overflow 64 bits. \<open>validate_elems\<close> and \<open>validate_vals\<close> are the loops of the source over the remaining
  positions.
\<close>

function validate_node :: "bytes \<Rightarrow> nat \<Rightarrow> nat \<Rightarrow> json_error + nat"
  and validate_elems :: "bytes \<Rightarrow> nat \<Rightarrow> nat \<Rightarrow> nat list \<Rightarrow> nat \<Rightarrow> json_error + nat"
  and validate_vals :: "bytes \<Rightarrow> nat \<Rightarrow> nat \<Rightarrow> nat list \<Rightarrow> nat \<Rightarrow> json_error + nat" where
  "validate_node buf start depth =
     (if depth > MAX_DEPTH then Inl TooDeep
      else and_then (or_err Truncated (rd_u8 buf start)) (\<lambda>tag.
        if tag = TAG_NULL \<or> tag = TAG_FALSE \<or> tag = TAG_TRUE then Inr (start + 1)
        else if tag = TAG_INT then
          and_then (or_err Truncated (slice_get buf (start + 1) (start + 9))) (\<lambda>_. Inr (start + 9))
        else if tag = TAG_FLOAT then
          and_then (or_err Truncated (rd_u64 buf (start + 1))) (\<lambda>v.
          if is_finite_f64 v then Inr (start + 9) else Inl MalformedPj1)
        else if tag = TAG_STRING then
          and_then (read_str_checked buf (start + 1)) (\<lambda>(_, stop). Inr stop)
        else if tag = TAG_ARRAY then
          and_then (or_err Truncated (rd_u32 buf (start + 1))) (\<lambda>count.
          and_then (or_err Truncated (slice_get buf (start + 5) (start + 5 + 4 * (count + 1)))) (\<lambda>_.
          and_then (or_err Truncated (rd_u32 buf (start + 5))) (\<lambda>first.
          if first \<noteq> 5 + 4 * (count + 1) then Inl MalformedPj1
          else
            and_then (validate_elems buf start depth [0..<count] first) (\<lambda>prev.
            and_then (or_err Truncated (rd_u32 buf (start + 5 + count * 4))) (\<lambda>total.
            if total \<noteq> prev then Inl MalformedPj1 else Inr (start + total))))))
        else if tag = TAG_OBJECT then
          and_then (or_err Truncated (rd_u32 buf (start + 1))) (\<lambda>count.
          and_then (or_err Truncated (slice_get buf (start + 5) (start + 5 + 8 * count + 4))) (\<lambda>_.
          and_then (validate_keys buf start (5 + count * 8 + 4) [0..<count] None) (\<lambda>expected.
          and_then (validate_vals buf start depth [0..<count] expected) (\<lambda>expected_end.
          and_then (or_err Truncated (rd_u32 buf (start + 5 + count * 8))) (\<lambda>total.
          if total \<noteq> expected_end then Inl MalformedPj1 else Inr (start + total))))))
        else Inl (ReservedTag tag)))"
| "validate_elems buf start depth [] prev = Inr prev"
| "validate_elems buf start depth (i # is) prev =
     and_then (or_err Truncated (rd_u32 buf (start + 5 + i * 4))) (\<lambda>o0.
     and_then (or_err Truncated (rd_u32 buf (start + 5 + (i + 1) * 4))) (\<lambda>o1.
     if o0 \<noteq> prev \<or> o1 < o0 then Inl MalformedPj1
     else
       and_then (validate_node buf (start + o0) (depth + 1)) (\<lambda>child_end.
       if child_end \<noteq> start + o1 then Inl MalformedPj1
       else validate_elems buf start depth is o1)))"
| "validate_vals buf start depth [] expected = Inr expected"
| "validate_vals buf start depth (i # is) expected =
     and_then (or_err Truncated (rd_u32 buf (start + 5 + i * 8 + 4))) (\<lambda>val_off.
     if val_off \<noteq> expected then Inl MalformedPj1
     else
       and_then (validate_node buf (start + val_off) (depth + 1)) (\<lambda>vend.
       validate_vals buf start depth is (vend - start)))"
  by pat_completeness auto
termination
  by (relation "measures [
      \<lambda>x. case x of
        Inl (buf, start, depth) \<Rightarrow> if depth > MAX_DEPTH then 0 else 2 * (MAX_DEPTH + 1 - depth)
      | Inr (Inl (buf, start, depth, is, prev)) \<Rightarrow> 2 * (MAX_DEPTH - depth) + 1
      | Inr (Inr (buf, start, depth, is, prev)) \<Rightarrow> 2 * (MAX_DEPTH - depth) + 1,
      \<lambda>x. case x of
        Inl (buf, start, depth) \<Rightarrow> 0
      | Inr (Inl (buf, start, depth, is, prev)) \<Rightarrow> length is
      | Inr (Inr (buf, start, depth, is, prev)) \<Rightarrow> length is]") auto

declare validate_node.simps [simp del]

definition pj1_validate :: "bytes \<Rightarrow> json_error + unit" where
  "pj1_validate doc =
     and_then (validate_node doc 0 0) (\<lambda>stop. if stop \<noteq> length doc then Inl MalformedPj1 else Inr ())"

end
