(* ===== verification/Pj1_Layout.thy ===== *)
theory Pj1_Layout
  imports Pj1
begin

text \<open>
  What stands where in the encoding of a document: the tag, the counts, the offset tables and the
  children, wherever the encoding sits in a buffer.
\<close>

subsection \<open>Reading fields\<close>

lemma rd_u8_at: "holds_at buf p (t # xs) \<Longrightarrow> rd_u8 buf p = Some t"
  by (simp add: rd_u8_def)

lemma slice_get_at: "holds_at buf p xs \<Longrightarrow> n = p + length xs \<Longrightarrow> slice_get buf p n = Some xs"
  by (simp add: slice_get_def holds_at_def)

lemma length_off32 [simp]: "length (off32 n) = 4"
  by (simp add: off32_def)

lemma rd_u32_at: "holds_at buf p (off32 n) \<Longrightarrow> n < 2 ^ 32 \<Longrightarrow> rd_u32 buf p = Some n"
  by (simp add: rd_u32_def slice_get_at off32_def)

lemma rd_u64_at: "holds_at buf p (u64_to_le w) \<Longrightarrow> rd_u64 buf p = Some w"
  by (simp add: rd_u64_def slice_get_at)

lemma read_str_len_at:
  assumes "holds_at buf p (prefix32 s)" and "utf8_valid s" and "length s < 2 ^ 32"
  shows "read_str_len buf p = Inr (s, p + 4 + length s)"
proof -
  have "rd_u32 buf p = Some (length s)" "holds_at buf (p + 4) s"
    using assms by (auto simp: prefix32_def off32_def intro: rd_u32_at [unfolded off32_def])
  then show ?thesis
    using assms(2) by (simp add: read_str_len_def or_err_def slice_get_at)
qed

lemma read_str_checked_eq: "read_str_checked = read_str_len"
  by (simp add: read_str_checked_def read_str_len_def fun_eq_iff)

subsection \<open>Offset tables\<close>

definition part_off :: "nat \<Rightarrow> bytes list \<Rightarrow> nat \<Rightarrow> nat" where
  "part_off base parts i = base + length (concat (take i parts))"

lemma part_off_0 [simp]: "part_off base parts 0 = base"
  by (simp add: part_off_def)

lemma part_off_Suc: "i < length parts \<Longrightarrow> part_off base parts (Suc i) = part_off base parts i + length (parts ! i)"
  by (simp add: part_off_def take_Suc_conv_app_nth)

lemma part_off_all: "part_off base parts (length parts) = base + length (concat parts)"
  by (simp add: part_off_def)

lemma part_off_le: "part_off base parts i \<le> base + length (concat parts)"
proof -
  have "concat parts = concat (take i parts) @ concat (drop i parts)"
    by (metis append_take_drop_id concat_append)
  then show ?thesis by (simp add: part_off_def)
qed

lemma starts_eq: "starts base parts = map (part_off base parts) [0..<length parts]"
proof (induction parts arbitrary: base)
  case (Cons p ps)
  have "map (part_off base (p # ps)) [0..<length (p # ps)] = base # map (part_off base (p # ps) \<circ> Suc) [0..<length ps]"
    by (simp add: map_upt_Suc del: upt_Suc)
  also have "map (part_off base (p # ps) \<circ> Suc) [0..<length ps] = map (part_off (base + length p) ps) [0..<length ps]"
    by (simp add: part_off_def)
  finally show ?case by (simp add: Cons)
qed simp

lemma length_starts [simp]: "length (starts base parts) = length parts"
  by (simp add: starts_eq)

lemma nth_starts: "i < length parts \<Longrightarrow> starts base parts ! i = part_off base parts i"
  by (simp add: starts_eq)

text \<open>An element of a sequence of equally long pieces.\<close>

lemma holds_at_concat_nth:
  "holds_at buf p (concat xss) \<Longrightarrow> i < length xss \<Longrightarrow> holds_at buf (part_off p xss i) (xss ! i)"
proof -
  assume h: "holds_at buf p (concat xss)" and i: "i < length xss"
  have "concat xss = concat (take i xss) @ xss ! i @ concat (drop (Suc i) xss)"
    using i by (metis append_take_drop_id concat_append concat.simps(2) Cons_nth_drop_Suc)
  then show ?thesis
    using h by (simp add: part_off_def)
qed

lemma length_concat_const: "\<forall>xs \<in> set xss. length xs = k \<Longrightarrow> length (concat xss) = length xss * k"
  by (induction xss) simp_all

lemma part_off_const:
  assumes "\<forall>xs \<in> set xss. length xs = k" and "i \<le> length xss"
  shows "part_off p xss i = p + i * k"
proof -
  have "\<forall>xs \<in> set (take i xss). length xs = k"
    using assms(1) by (meson in_set_takeD)
  then show ?thesis
    using assms(2) length_concat_const [of "take i xss" k] by (simp add: part_off_def)
qed

lemma rd_u32_table:
  assumes "holds_at buf p (concat (map off32 ns))" and "i < length ns" and "ns ! i < 2 ^ 32"
  shows "rd_u32 buf (p + i * 4) = Some (ns ! i)"
proof -
  have "holds_at buf (part_off p (map off32 ns) i) (off32 (ns ! i))"
    using holds_at_concat_nth [OF assms(1), of i] assms(2) by simp
  moreover have "part_off p (map off32 ns) i = p + i * 4"
    using assms(2) by (intro part_off_const) auto
  ultimately show ?thesis
    using assms(3) by (simp add: rd_u32_at)
qed

lemma length_interleave: "length ks = length vs \<Longrightarrow> length (interleave ks vs) = length ks * 8"
  unfolding interleave_def by (subst length_concat_const [where k = 8]) (auto simp: set_zip)

lemma rd_u32_interleave:
  assumes "holds_at buf p (interleave ks vs)" and "i < length ks" and "length ks = length vs"
    and "ks ! i < 2 ^ 32" and "vs ! i < 2 ^ 32"
  shows "rd_u32 buf (p + i * 8) = Some (ks ! i)" and "rd_u32 buf (p + i * 8 + 4) = Some (vs ! i)"
proof -
  let ?xss = "map2 (\<lambda>k v. off32 k @ off32 v) ks vs"
  have "holds_at buf (part_off p ?xss i) (off32 (ks ! i) @ off32 (vs ! i))"
    using holds_at_concat_nth [OF assms(1) [unfolded interleave_def], of i] assms(2,3) by simp
  moreover have "part_off p ?xss i = p + i * 8"
    using assms(2,3) by (intro part_off_const) (auto simp: set_zip)
  ultimately show "rd_u32 buf (p + i * 8) = Some (ks ! i)" "rd_u32 buf (p + i * 8 + 4) = Some (vs ! i)"
    using assms(4,5) by (auto intro: rd_u32_at)
qed

subsection \<open>Arrays\<close>

definition arr_base :: "json list \<Rightarrow> nat" where
  "arr_base elems = 5 + 4 * (length elems + 1)"

definition arr_off :: "json list \<Rightarrow> nat \<Rightarrow> nat" where
  "arr_off elems i = part_off (arr_base elems) (map encode_node elems) i"

lemma length_encode_array:
  "length (encode_node (JArray elems)) = arr_base elems + length (concat (map encode_node elems))"
proof -
  have "length (concat (map off32 ns)) = length ns * 4" for ns
    by (induction ns) simp_all
  then show ?thesis by (simp add: Let_def arr_base_def)
qed

lemma arr_off_le: "arr_off elems i \<le> length (encode_node (JArray elems))"
  unfolding arr_off_def length_encode_array by (rule part_off_le)

lemma arr_off_end: "arr_off elems (length elems) = length (encode_node (JArray elems))"
  unfolding arr_off_def length_encode_array using part_off_all [of _ "map encode_node elems"] by simp

lemma arr_off_Suc: "i < length elems \<Longrightarrow> arr_off elems (Suc i) = arr_off elems i + length (encode_node (elems ! i))"
  by (simp add: arr_off_def part_off_Suc)

lemma encode_array_eq:
  "encode_node (JArray elems) =
     TAG_ARRAY # off32 (length elems) @ concat (map off32 (map (arr_off elems) [0..<Suc (length elems)])) @
     concat (map encode_node elems)"
  using arr_off_end [of elems] unfolding length_encode_array
  by (simp add: Let_def starts_eq arr_off_def [abs_def] comp_def flip: arr_base_def)
    (simp add: arr_base_def)

lemma encode_array_at:
  assumes h: "holds_at buf p (encode_node (JArray elems))" and l: "length (encode_node (JArray elems)) < 2 ^ 32"
  shows "rd_u8 buf p = Some TAG_ARRAY"
    and "rd_u32 buf (p + 1) = Some (length elems)"
    and "i \<le> length elems \<Longrightarrow> rd_u32 buf (p + 5 + i * 4) = Some (arr_off elems i)"
    and "i < length elems \<Longrightarrow> holds_at buf (p + arr_off elems i) (encode_node (elems ! i))"
proof -
  let ?parts = "map encode_node elems"
  let ?offs = "map (arr_off elems) [0..<Suc (length elems)]"
  have lt: "length (concat (map off32 ?offs)) = 4 * (length elems + 1)"
    by (subst length_concat_const [where k = 4]) auto
  note h' = h [unfolded encode_array_eq]
  show "rd_u8 buf p = Some TAG_ARRAY"
    using h' by (rule rd_u8_at)
  have "length elems < 2 ^ 32"
    using l unfolding length_encode_array arr_base_def by simp
  then show "rd_u32 buf (p + 1) = Some (length elems)"
    using h' by (intro rd_u32_at) simp_all
  have t: "holds_at buf (p + 5) (concat (map off32 ?offs))" "holds_at buf (p + arr_base elems) (concat ?parts)"
    using h' lt by (simp_all add: arr_base_def ac_simps del: upt_Suc)
  show "rd_u32 buf (p + 5 + i * 4) = Some (arr_off elems i)" if "i \<le> length elems"
    using rd_u32_table [OF t(1), of i] that le_less_trans [OF arr_off_le l] by (simp del: upt_Suc)
  show "holds_at buf (p + arr_off elems i) (encode_node (elems ! i))" if "i < length elems"
    using holds_at_concat_nth [OF t(2), of i] that by (simp add: arr_off_def part_off_def add.assoc)
qed


subsection \<open>Objects\<close>

definition obj_keys :: "(bytes \<times> json) list \<Rightarrow> bytes list" where
  "obj_keys pairs = map (\<lambda>(k, v). prefix32 k) pairs"

definition obj_vals :: "(bytes \<times> json) list \<Rightarrow> bytes list" where
  "obj_vals pairs = map (\<lambda>(k, v). encode_node v) pairs"

definition obj_base :: "(bytes \<times> json) list \<Rightarrow> nat" where
  "obj_base pairs = 5 + length pairs * 8 + 4"

definition key_off :: "(bytes \<times> json) list \<Rightarrow> nat \<Rightarrow> nat" where
  "key_off pairs i = part_off (obj_base pairs) (obj_keys pairs) i"

definition val_off :: "(bytes \<times> json) list \<Rightarrow> nat \<Rightarrow> nat" where
  "val_off pairs i = part_off (obj_base pairs + length (concat (obj_keys pairs))) (obj_vals pairs) i"

lemma length_obj [simp]: "length (obj_keys pairs) = length pairs" "length (obj_vals pairs) = length pairs"
  by (simp_all add: obj_keys_def obj_vals_def)

lemma nth_obj:
  "i < length pairs \<Longrightarrow> obj_keys pairs ! i = prefix32 (fst (pairs ! i))"
  "i < length pairs \<Longrightarrow> obj_vals pairs ! i = encode_node (snd (pairs ! i))"
  by (simp_all add: obj_keys_def obj_vals_def split_beta)

lemma encode_object_eq:
  "encode_node (JObject pairs) =
     TAG_OBJECT # off32 (length pairs) @
     interleave (map (key_off pairs) [0..<length pairs]) (map (val_off pairs) [0..<length pairs]) @
     off32 (val_off pairs (length pairs)) @ concat (obj_keys pairs) @ concat (obj_vals pairs)"
proof -
  have "val_off pairs (length pairs)
      = obj_base pairs + length (concat (obj_keys pairs)) + length (concat (obj_vals pairs))"
    unfolding val_off_def using part_off_all [of _ "obj_vals pairs"] by simp
  then show ?thesis
    by (simp add: Let_def starts_eq key_off_def [abs_def] val_off_def [abs_def]
        flip: obj_keys_def obj_vals_def obj_base_def)
qed

lemma length_encode_object:
  "length (encode_node (JObject pairs))
   = obj_base pairs + length (concat (obj_keys pairs)) + length (concat (obj_vals pairs))"
  unfolding encode_object_eq by (simp add: length_interleave obj_base_def)

lemma key_off_le: "key_off pairs i \<le> length (encode_node (JObject pairs))"
  unfolding key_off_def length_encode_object
  using part_off_le [of "obj_base pairs" "obj_keys pairs" i] by linarith

lemma val_off_le: "val_off pairs i \<le> length (encode_node (JObject pairs))"
  unfolding val_off_def length_encode_object by (rule part_off_le)

lemma val_off_end: "val_off pairs (length pairs) = length (encode_node (JObject pairs))"
  unfolding val_off_def length_encode_object using part_off_all [of _ "obj_vals pairs"] by simp

lemma val_off_0: "val_off pairs 0 = key_off pairs (length pairs)"
  unfolding val_off_def key_off_def using part_off_all [of _ "obj_keys pairs"] by simp

lemma key_off_Suc: "i < length pairs \<Longrightarrow> key_off pairs (Suc i) = key_off pairs i + 4 + length (fst (pairs ! i))"
  by (simp add: key_off_def part_off_Suc nth_obj)

lemma val_off_Suc: "i < length pairs \<Longrightarrow> val_off pairs (Suc i) = val_off pairs i + length (encode_node (snd (pairs ! i)))"
  by (simp add: val_off_def part_off_Suc nth_obj)

lemma encode_object_at:
  assumes h: "holds_at buf p (encode_node (JObject pairs))" and l: "length (encode_node (JObject pairs)) < 2 ^ 32"
  shows "rd_u8 buf p = Some TAG_OBJECT"
    and "rd_u32 buf (p + 1) = Some (length pairs)"
    and "i < length pairs \<Longrightarrow> rd_u32 buf (p + 5 + i * 8) = Some (key_off pairs i)"
    and "i < length pairs \<Longrightarrow> rd_u32 buf (p + 5 + i * 8 + 4) = Some (val_off pairs i)"
    and "rd_u32 buf (p + 5 + length pairs * 8) = Some (val_off pairs (length pairs))"
    and "i < length pairs \<Longrightarrow> holds_at buf (p + key_off pairs i) (prefix32 (fst (pairs ! i)))"
    and "i < length pairs \<Longrightarrow> holds_at buf (p + val_off pairs i) (encode_node (snd (pairs ! i)))"
proof -
  let ?ks = "map (key_off pairs) [0..<length pairs]" and ?vs = "map (val_off pairs) [0..<length pairs]"
  note h' = h [unfolded encode_object_eq]
  show "rd_u8 buf p = Some TAG_OBJECT"
    using h' by (rule rd_u8_at)
  have "length pairs < 2 ^ 32"
    using l unfolding length_encode_object obj_base_def by simp
  then show "rd_u32 buf (p + 1) = Some (length pairs)"
    using h' by (intro rd_u32_at) simp_all
  have t: "holds_at buf (p + 5) (interleave ?ks ?vs)"
      "holds_at buf (p + 5 + length pairs * 8) (off32 (val_off pairs (length pairs)))"
      "holds_at buf (p + obj_base pairs) (concat (obj_keys pairs))"
      "holds_at buf (p + obj_base pairs + length (concat (obj_keys pairs))) (concat (obj_vals pairs))"
    using h' by (simp_all add: length_interleave obj_base_def ac_simps)
  have b: "key_off pairs i < 2 ^ 32" "val_off pairs i < 2 ^ 32" for i
    using key_off_le [of pairs i] val_off_le [of pairs i] l by simp_all
  show "rd_u32 buf (p + 5 + i * 8) = Some (key_off pairs i)" if "i < length pairs"
    using rd_u32_interleave(1) [OF t(1), of i] that b [of i] by simp
  show "rd_u32 buf (p + 5 + i * 8 + 4) = Some (val_off pairs i)" if "i < length pairs"
    using rd_u32_interleave(2) [OF t(1), of i] that b [of i] by simp
  show "rd_u32 buf (p + 5 + length pairs * 8) = Some (val_off pairs (length pairs))"
    using t(2) b by (intro rd_u32_at)
  show "holds_at buf (p + key_off pairs i) (prefix32 (fst (pairs ! i)))" if "i < length pairs"
    using holds_at_concat_nth [OF t(3), of i] that by (simp add: nth_obj key_off_def part_off_def add.assoc)
  show "holds_at buf (p + val_off pairs i) (encode_node (snd (pairs ! i)))" if "i < length pairs"
    using holds_at_concat_nth [OF t(4), of i] that by (simp add: nth_obj val_off_def part_off_def add.assoc)
qed


subsection \<open>Canonical documents\<close>

text \<open>
  The trees the parser builds: strings are UTF-8, floats are finite, and the keys of an object are
  strictly increasing. \<open>json_depth\<close> counts the enclosing brackets of the deepest value.
\<close>

fun json_wf :: "json \<Rightarrow> bool" where
  "json_wf (JStr s) \<longleftrightarrow> utf8_valid s"
| "json_wf (JFloat f) \<longleftrightarrow> is_finite_f64 f"
| "json_wf (JArray xs) \<longleftrightarrow> (\<forall>x \<in> set xs. json_wf x)"
| "json_wf (JObject ps) \<longleftrightarrow>
     sorted_wrt (\<lambda>k l. bytes_cmp k l = Less) (map fst ps) \<and> (\<forall>p \<in> set ps. utf8_valid (fst p) \<and> json_wf (snd p))"
| "json_wf _ \<longleftrightarrow> True"

fun json_depth :: "json \<Rightarrow> nat" where
  "json_depth (JArray xs) = Max (insert 0 ((\<lambda>x. Suc (json_depth x)) ` set xs))"
| "json_depth (JObject ps) = Max (insert 0 ((\<lambda>p. Suc (json_depth (snd p))) ` set ps))"
| "json_depth _ = 0"

text \<open>Lengths and offsets fit the 32-bit fields they are written to.\<close>

fun json_sized :: "json \<Rightarrow> bool" where
  "json_sized (JStr s) \<longleftrightarrow> length s < 2 ^ 32"
| "json_sized x \<longleftrightarrow> length (encode_node x) < 2 ^ 32"

lemma json_sizedI: "length (encode_node x) < 2 ^ 32 \<Longrightarrow> json_sized x"
  by (cases x) simp_all

lemma json_sized_elem: "json_sized (JArray xs) \<Longrightarrow> i < length xs \<Longrightarrow> json_sized (xs ! i)"
  using arr_off_Suc [of i xs] arr_off_le [of xs "Suc i"] by (intro json_sizedI) (simp del: encode_node.simps)

lemma json_sized_val: "json_sized (JObject ps) \<Longrightarrow> i < length ps \<Longrightarrow> json_sized (snd (ps ! i))"
  using val_off_Suc [of i ps] val_off_le [of ps "Suc i"] by (intro json_sizedI) (simp del: encode_node.simps)

lemma json_sized_key: "json_sized (JObject ps) \<Longrightarrow> i < length ps \<Longrightarrow> length (fst (ps ! i)) < 2 ^ 32"
  using key_off_Suc [of i ps] key_off_le [of ps "Suc i"] by (simp del: encode_node.simps)

lemma json_depth_elem: "i < length xs \<Longrightarrow> json_depth (xs ! i) < json_depth (JArray xs)"
  by (auto simp: Max_gr_iff)

lemma json_depth_val: "i < length ps \<Longrightarrow> json_depth (snd (ps ! i)) < json_depth (JObject ps)"
  by (auto simp: Max_gr_iff)

end
