(* ===== verification/Pj1_Order.thy ===== *)
theory Pj1_Order
  imports Pj1_Layout
begin

text \<open>
  The order of JSON documents on trees, and that \<open>cmp_node\<close> computes it on the bytes of two encoded
  documents wherever they stand. The order is total and equal documents have equal trees.
\<close>

subsection \<open>Lexicographic comparison\<close>

fun list_cmp :: "('a \<Rightarrow> 'b \<Rightarrow> ordering) \<Rightarrow> 'a list \<Rightarrow> 'b list \<Rightarrow> ordering" where
  "list_cmp c [] [] = Equal"
| "list_cmp c [] (_ # _) = Less"
| "list_cmp c (_ # _) [] = Greater"
| "list_cmp c (x # xs) (y # ys) = then_cmp (c x y) (list_cmp c xs ys)"

lemma list_cmp_cong [fundef_cong]:
  "xs = xs' \<Longrightarrow> ys = ys' \<Longrightarrow> (\<And>x y. x \<in> set xs' \<Longrightarrow> y \<in> set ys' \<Longrightarrow> c x y = c' x y) \<Longrightarrow>
   list_cmp c xs ys = list_cmp c' xs' ys'"
proof -
  have "(\<And>x y. x \<in> set xs' \<Longrightarrow> y \<in> set ys' \<Longrightarrow> c x y = c' x y) \<Longrightarrow> list_cmp c xs' ys' = list_cmp c' xs' ys'"
    by (induction c xs' ys' rule: list_cmp.induct) auto
  then show "xs = xs' \<Longrightarrow> ys = ys' \<Longrightarrow> (\<And>x y. x \<in> set xs' \<Longrightarrow> y \<in> set ys' \<Longrightarrow> c x y = c' x y) \<Longrightarrow>
    list_cmp c xs ys = list_cmp c' xs' ys'" by simp
qed

fun json_rank :: "json \<Rightarrow> nat" where
  "json_rank JNull = 0"
| "json_rank (JBool b) = (if b then 2 else 1)"
| "json_rank (JInt _) = 3"
| "json_rank (JFloat _) = 3"
| "json_rank (JStr _) = 4"
| "json_rank (JArray _) = 5"
| "json_rank (JObject _) = 6"

fun json_cmp :: "json \<Rightarrow> json \<Rightarrow> ordering" where
  "json_cmp (JInt x) (JInt y) = cmp_numeric (NInt x) (NInt y)"
| "json_cmp (JInt x) (JFloat y) = cmp_numeric (NInt x) (NFloat y)"
| "json_cmp (JFloat x) (JInt y) = cmp_numeric (NFloat x) (NInt y)"
| "json_cmp (JFloat x) (JFloat y) = cmp_numeric (NFloat x) (NFloat y)"
| "json_cmp (JStr s) (JStr t) = bytes_cmp s t"
| "json_cmp (JArray xs) (JArray ys) = list_cmp json_cmp xs ys"
| "json_cmp (JObject xs) (JObject ys) =
     list_cmp (\<lambda>p q. then_cmp (bytes_cmp (fst p) (fst q)) (json_cmp (snd p) (snd q))) xs ys"
| "json_cmp x y = cmp_of (json_rank x) (json_rank y)"

lemma then_cmp_eq_iff [simp]:
  "then_cmp r s = Equal \<longleftrightarrow> r = Equal \<and> s = Equal"
  "then_cmp r s = Less \<longleftrightarrow> r = Less \<or> r = Equal \<and> s = Less"
  "then_cmp r s = Greater \<longleftrightarrow> r = Greater \<or> r = Equal \<and> s = Greater"
  by (cases r; simp)+

lemma flip_then_cmp: "flip (then_cmp r s) = then_cmp (flip r) (flip s)"
  by (cases r) simp_all

lemma cmp_of_iff [simp]:
  "cmp_of a b = Less \<longleftrightarrow> a < b" "cmp_of a b = Equal \<longleftrightarrow> a = b" "cmp_of a b = Greater \<longleftrightarrow> b < a"
  by (auto simp: cmp_of_def)

lemma flip_cmp_of: "flip (cmp_of a b) = cmp_of b a"
  by (auto simp: cmp_of_def)

subsection \<open>The order is total\<close>

lemma total_cmp_promoted:
  "total_cmp (i64_to_f64 x) y = cmp_of (promoted_key (sint x)) (total_key y)"
  "total_cmp y (i64_to_f64 x) = cmp_of (total_key y) (promoted_key (sint x))"
  by (simp_all add: total_cmp_def total_key_i64_to_f64)

lemma sint_inj [simp]: "sint (x :: u64) = sint y \<longleftrightarrow> x = y"
  by (auto intro: signed_word_eqI)

lemma cmp_numeric_flip: "cmp_numeric b a = flip (cmp_numeric a b)"
  by (cases a; cases b) (simp_all add: i64_cmp_def total_cmp_def flip_cmp_of flip_then_cmp)

lemma cmp_numeric_Equal: "cmp_numeric a b = Equal \<longleftrightarrow> a = b"
  by (cases a; cases b) (simp_all add: i64_cmp_def total_cmp_def total_key_eq_iff)

text \<open>Numbers are ordered by promoted value, then integers before floats, then exactly.\<close>

fun num_key :: "jnum \<Rightarrow> int" where
  "num_key (NInt x) = promoted_key (sint x)"
| "num_key (NFloat x) = total_key x"

fun num_tag :: "jnum \<Rightarrow> nat" where
  "num_tag (NInt x) = 0"
| "num_tag (NFloat x) = 1"

fun num_exact :: "jnum \<Rightarrow> int" where
  "num_exact (NInt x) = sint x"
| "num_exact (NFloat x) = 0"

lemma cmp_numeric_Less:
  "cmp_numeric a b = Less \<longleftrightarrow>
     num_key a < num_key b \<or> num_key a = num_key b \<and> (num_tag a < num_tag b \<or> num_tag a = num_tag b \<and> num_exact a < num_exact b)"
proof (cases "\<exists>x y. a = NInt x \<and> b = NInt y")
  case True
  then obtain x y where "a = NInt x" "b = NInt y" by blast
  moreover have "sint x < sint y \<longleftrightarrow>
      promoted_key (sint x) < promoted_key (sint y) \<or> promoted_key (sint x) = promoted_key (sint y) \<and> sint x < sint y"
    using promoted_key_mono [of "sint x" "sint y"] promoted_key_mono [of "sint y" "sint x"] by linarith
  ultimately show ?thesis by (simp add: i64_cmp_def)
next
  case False
  then show ?thesis by (cases a; cases b) (auto simp: total_cmp_def total_key_i64_to_f64)
qed

lemma cmp_numeric_trans:
  "cmp_numeric a b = Less \<Longrightarrow> cmp_numeric b c = Less \<Longrightarrow> cmp_numeric a c = Less"
  unfolding cmp_numeric_Less by linarith

lemma list_cmp_Equal:
  "(\<And>x y. x \<in> set xs \<Longrightarrow> y \<in> set ys \<Longrightarrow> c x y = Equal \<longleftrightarrow> x = y) \<Longrightarrow> list_cmp c xs ys = Equal \<longleftrightarrow> xs = ys"
  by (induction c xs ys rule: list_cmp.induct) auto

lemma list_cmp_flip:
  "(\<And>x y. x \<in> set xs \<Longrightarrow> y \<in> set ys \<Longrightarrow> d y x = flip (c x y)) \<Longrightarrow> list_cmp d ys xs = flip (list_cmp c xs ys)"
  by (induction c xs ys rule: list_cmp.induct) (auto simp: flip_then_cmp)

lemma list_cmp_trans:
  assumes "\<And>x y z. x \<in> set xs \<Longrightarrow> c x y = Less \<Longrightarrow> c y z = Less \<Longrightarrow> c x z = Less"
    and "\<And>x y. c x y = Equal \<longleftrightarrow> x = y"
    and "list_cmp c xs ys = Less" and "list_cmp c ys zs = Less"
  shows "list_cmp c xs zs = Less"
  using assms
proof (induction c xs ys arbitrary: zs rule: list_cmp.induct)
  case (2 c y ys)
  then show ?case by (cases zs) auto
next
  case (4 c x xs y ys)
  show ?case
  proof (cases zs)
    case Nil
    then show ?thesis using 4 by auto
  next
    case (Cons z zs')
    have tr: "c x y = Less \<Longrightarrow> c y z = Less \<Longrightarrow> c x z = Less"
      using "4.prems"(1) by (meson list.set_intros(1))
    have ih: "list_cmp c xs ys = Less \<Longrightarrow> list_cmp c ys zs' = Less \<Longrightarrow> list_cmp c xs zs' = Less"
      using 4 by (meson list.set_intros(2))
    show ?thesis
      using "4.prems"(3,4) tr ih Cons by (auto simp: "4.prems"(2))
  qed
qed auto

lemma json_rank_inv [simp]:
  "json_rank x = 0 \<longleftrightarrow> x = JNull" "json_rank x = Suc 0 \<longleftrightarrow> x = JBool False" "json_rank x = 2 \<longleftrightarrow> x = JBool True"
  by (cases x; auto)+

lemma json_cmp_Equal: "json_cmp x y = Equal \<longleftrightarrow> x = y"
proof (induction x y rule: json_cmp.induct)
  case (6 xs ys)
  then show ?case by (simp add: list_cmp_Equal)
next
  case (7 xs ys)
  then show ?case
    by (simp, subst list_cmp_Equal) (auto simp: bytes_cmp_Equal prod_eq_iff)
qed (auto simp: cmp_numeric_Equal bytes_cmp_Equal eq_commute [of _ "json_rank _"]
    simp del: cmp_numeric.simps split: if_splits)

lemma json_cmp_flip: "json_cmp y x = flip (json_cmp x y)"
proof (induction x y rule: json_cmp.induct)
  case (5 s t)
  show ?case unfolding json_cmp.simps by (rule bytes_cmp_flip)
next
  case (6 xs ys)
  then show ?case unfolding json_cmp.simps by (intro list_cmp_flip)
next
  case (7 xs ys)
  show ?case
    unfolding json_cmp.simps
  proof (rule list_cmp_flip)
    fix p q
    assume "p \<in> set xs" "q \<in> set ys"
    then have "json_cmp (snd q) (snd p) = flip (json_cmp (snd p) (snd q))" by (rule 7)
    then show "then_cmp (bytes_cmp (fst q) (fst p)) (json_cmp (snd q) (snd p))
        = flip (then_cmp (bytes_cmp (fst p) (fst q)) (json_cmp (snd p) (snd q)))"
      using bytes_cmp_flip [of "fst q" "fst p"] by (simp add: flip_then_cmp)
  qed
qed (unfold json_cmp.simps, (rule cmp_numeric_flip | simp only: flip_cmp_of)+)


lemma json_cmp_rank: "json_rank x \<noteq> json_rank y \<Longrightarrow> json_cmp x y = cmp_of (json_rank x) (json_rank y)"
  by (cases x; cases y) simp_all

lemma json_cmp_Less_rank: "json_cmp x y = Less \<Longrightarrow> json_rank x \<le> json_rank y"
  using json_cmp_rank [of x y] by (cases "json_rank x = json_rank y") auto

lemma json_rank_cases:
  "json_rank x = 4 \<Longrightarrow> \<exists>s. x = JStr s" "json_rank x = 5 \<Longrightarrow> \<exists>xs. x = JArray xs"
  "json_rank x = 6 \<Longrightarrow> \<exists>ps. x = JObject ps"
  by (cases x; simp split: if_splits)+

fun json_num :: "json \<Rightarrow> jnum" where
  "json_num (JInt i) = NInt i"
| "json_num (JFloat f) = NFloat f"
| "json_num _ = NInt 0"

lemma json_cmp_numbers:
  "json_rank x = 3 \<Longrightarrow> json_rank y = 3 \<Longrightarrow> json_cmp x y = cmp_numeric (json_num x) (json_num y)"
  by (cases x; cases y) (simp_all del: cmp_numeric.simps split: if_splits)

lemma pair_cmp_Equal:
  "then_cmp (bytes_cmp (fst p) (fst q)) (json_cmp (snd p) (snd q)) = Equal \<longleftrightarrow> p = q"
  by (auto simp: bytes_cmp_Equal json_cmp_Equal prod_eq_iff)

lemma json_rank_le: "json_rank x \<le> 6"
  by (cases x) simp_all

lemma json_cmp_same_rank:
  "json_rank x \<le> 2 \<Longrightarrow> json_rank x = json_rank y \<Longrightarrow> json_cmp x y = Equal"
  by (cases x; cases y) (simp_all split: if_splits)

lemma json_cmp_trans_array:
  assumes "\<And>x y z. x \<in> set xs \<Longrightarrow> json_cmp x y = Less \<Longrightarrow> json_cmp y z = Less \<Longrightarrow> json_cmp x z = Less"
    and "json_cmp (JArray xs) (JArray ys) = Less" and "json_cmp (JArray ys) (JArray zs) = Less"
  shows "json_cmp (JArray xs) (JArray zs) = Less"
  using list_cmp_trans [of xs json_cmp ys zs] assms json_cmp_Equal by simp

lemma json_cmp_trans_object:
  assumes "\<And>x y z. x \<in> snd ` set ps \<Longrightarrow> json_cmp x y = Less \<Longrightarrow> json_cmp y z = Less \<Longrightarrow> json_cmp x z = Less"
    and "json_cmp (JObject ps) (JObject qs) = Less" and "json_cmp (JObject qs) (JObject rs) = Less"
  shows "json_cmp (JObject ps) (JObject rs) = Less"
proof -
  let ?c = "\<lambda>p q. then_cmp (bytes_cmp (fst p) (fst q)) (json_cmp (snd p) (snd q))"
  have "list_cmp ?c ps rs = Less"
  proof (rule list_cmp_trans [of ps ?c qs])
    fix p q r
    assume "p \<in> set ps" and c: "?c p q = Less" "?c q r = Less"
    then have "json_cmp (snd p) (snd q) = Less \<Longrightarrow> json_cmp (snd q) (snd r) = Less \<Longrightarrow> json_cmp (snd p) (snd r) = Less"
      using assms(1) [of "snd p" "snd q" "snd r"] by blast
    then show "?c p r = Less"
      using c bytes_cmp_trans [of "fst p" "fst q" "fst r"] by (auto simp: bytes_cmp_Equal json_cmp_Equal)
  next
    show "?c p q = Equal \<longleftrightarrow> p = q" for p q
      by (rule pair_cmp_Equal)
  qed (use assms(2,3) in simp_all)
  then show ?thesis by simp
qed

lemma size_elem: "v \<in> set xs \<Longrightarrow> size v < size (JArray xs)"
  by (induction xs) auto

lemma size_val: "v \<in> snd ` set ps \<Longrightarrow> size v < size (JObject ps)"
proof -
  have "p \<in> set ps \<Longrightarrow> size (snd p) < size (JObject ps)" for p
    by (induction ps) auto
  then show "v \<in> snd ` set ps \<Longrightarrow> size v < size (JObject ps)" by auto
qed

lemma json_cmp_trans: "json_cmp x y = Less \<Longrightarrow> json_cmp y z = Less \<Longrightarrow> json_cmp x z = Less"
proof (induction "size x" arbitrary: x y z rule: less_induct)
  case less
  note r = json_cmp_Less_rank [OF less.prems(1)] json_cmp_Less_rank [OF less.prems(2)]
  show ?case
  proof (cases "json_rank x = json_rank y \<and> json_rank y = json_rank z")
    case False
    then have "json_rank x < json_rank z" using r by auto
    then show ?thesis using json_cmp_rank [of x z] by simp
  next
    case eq: True
    consider "json_rank x \<le> 2" | "json_rank x = 3" | "json_rank x = 4" | "json_rank x = 5" | "json_rank x = 6"
      using json_rank_le [of x] by linarith
    then show ?thesis
    proof cases
      case 1
      then show ?thesis using json_cmp_same_rank [of x y] eq less.prems(1) by simp
    next
      case 2
      then show ?thesis
        using less.prems eq cmp_numeric_trans [of "json_num x" "json_num y" "json_num z"]
        by (simp add: json_cmp_numbers)
    next
      case 3
      then obtain s t u where "x = JStr s" "y = JStr t" "z = JStr u"
        using eq json_rank_cases(1) by metis
      then show ?thesis
        using less.prems bytes_cmp_trans [of s t u] by simp
    next
      case 4
      then obtain xs ys zs where *: "x = JArray xs" "y = JArray ys" "z = JArray zs"
        using eq json_rank_cases(2) by metis
      show ?thesis
        unfolding * using less.hyps [unfolded *, OF size_elem] less.prems [unfolded *]
        by (rule json_cmp_trans_array [of xs ys zs])
    next
      case 5
      then obtain ps qs rs where *: "x = JObject ps" "y = JObject qs" "z = JObject rs"
        using eq json_rank_cases(3) by metis
      show ?thesis
        unfolding * using less.hyps [unfolded *, OF size_val] less.prems [unfolded *]
        by (rule json_cmp_trans_object [of ps qs rs])
    qed
  qed
qed

interpretation json_order: cmp_order json_cmp UNIV
  by unfold_locales (simp add: json_cmp_Equal, rule json_cmp_flip, rule json_cmp_trans)


subsection \<open>Comparing encoded documents\<close>

lemma first_diff_list_cmp:
  assumes "\<And>i. i < min (length xs) (length ys) \<Longrightarrow> step (k + i) = Some (c (xs ! i) (ys ! i))"
  shows "first_diff step [k..<k + min (length xs) (length ys)] (cmp_of (length xs) (length ys)) = Some (list_cmp c xs ys)"
  using assms
proof (induction c xs ys arbitrary: k rule: list_cmp.induct)
  case (4 c x xs y ys)
  have "first_diff step [Suc k..<Suc k + min (length xs) (length ys)] (cmp_of (length xs) (length ys))
      = Some (list_cmp c xs ys)"
    using "4.prems" [of "Suc i" for i] by (intro "4.IH") simp
  moreover have "step k = Some (c x y)"
    using "4.prems" [of 0] by simp
  moreover have "[k..<k + min (length (x # xs)) (length (y # ys))] = k # [Suc k..<Suc k + min (length xs) (length ys)]"
    by (subst upt_conv_Cons) simp_all
  moreover have "cmp_of (length (x # xs)) (length (y # ys)) = cmp_of (length xs) (length ys)"
    by (simp add: cmp_of_def)
  ultimately show ?case by (cases "c x y") simp_all
qed (simp_all add: cmp_of_def)

lemma rd_u8_encode:
  "holds_at buf p (encode_node x) \<Longrightarrow> \<exists>t. rd_u8 buf p = Some t \<and> type_rank t = json_rank x"
  by (cases x) (auto simp: rd_u8_def Let_def type_rank_def tag_defs)

lemma read_number_at:
  assumes "holds_at buf p (encode_node x)" and "json_rank x = 3"
  shows "read_number buf p = json_num x"
  using assms by (cases x) (auto simp: read_number_def rd_u8_def rd_u64_at tag_defs split: if_splits)

lemma read_str_at:
  assumes "holds_at buf p (encode_node (JStr s))" and "utf8_valid s" and "length s < 2 ^ 32"
  shows "read_str buf p = Inr (s, p + 5 + length s)"
  using assms read_str_len_at [of buf "p + 1" s] by (simp add: read_str_def)

lemma u32_or_0_at: "rd_u32 buf p = Some n \<Longrightarrow> u32_or_0 buf p = n"
  by (simp add: u32_or_0_def)

lemma str_or_empty_at: "read_str_len buf p = Inr (s, e) \<Longrightarrow> str_or_empty buf p = s"
  by (simp add: str_or_empty_def)

text \<open>One step of the comparison at each rank.\<close>

lemma cmp_node_ranks:
  assumes "rd_u8 a p = Some s" and "type_rank s = m" and "rd_u8 b q = Some t" and "type_rank t = n"
  shows "m \<noteq> n \<Longrightarrow> \<exists>e f. cmp_node a p b q = Some (cmp_of m n, e, f)"
    and "m = 3 \<Longrightarrow> n = 3 \<Longrightarrow> \<exists>e f. cmp_node a p b q = Some (cmp_numeric (read_number a p) (read_number b q), e, f)"
    and "m \<le> 2 \<Longrightarrow> m = n \<Longrightarrow> \<exists>e f. cmp_node a p b q = Some (Equal, e, f)"
  using assms by (simp_all add: cmp_node.simps [of a p b q] Let_def)


lemma cmp_node_str:
  assumes "holds_at a p (encode_node (JStr s))" "utf8_valid s" "length s < 2 ^ 32"
    and "holds_at b q (encode_node (JStr t))" "utf8_valid t" "length t < 2 ^ 32"
  shows "\<exists>e f. cmp_node a p b q = Some (bytes_cmp s t, e, f)"
  using assms read_str_at [OF assms(1-3)] read_str_at [OF assms(4-6)]
  by (simp add: cmp_node.simps [of a p b q] Let_def rd_u8_def type_rank_def tag_defs)

lemma cmp_node_array:
  assumes x: "holds_at a p (encode_node (JArray xs))" "json_sized (JArray xs)"
    and y: "holds_at b q (encode_node (JArray ys))" "json_sized (JArray ys)"
    and step: "\<And>i. i < length xs \<Longrightarrow> i < length ys \<Longrightarrow>
       \<exists>e f. cmp_node a (p + arr_off xs i) b (q + arr_off ys i) = Some (json_cmp (xs ! i) (ys ! i), e, f)"
  shows "\<exists>e f. cmp_node a p b q = Some (list_cmp json_cmp xs ys, e, f)"
proof -
  note ax = encode_array_at [OF x(1) x(2) [unfolded json_sized.simps]]
  note ay = encode_array_at [OF y(1) y(2) [unfolded json_sized.simps]]
  let ?step = "\<lambda>i. Option.bind (cmp_node a (p + u32_or_0 a (p + 5 + i * 4)) b (q + u32_or_0 b (q + 5 + i * 4)))
                                (\<lambda>(r, _, _). Some r)"
  have "?step (0 + i) = Some (json_cmp (xs ! i) (ys ! i))" if i: "i < min (length xs) (length ys)" for i
  proof -
    obtain e f where "cmp_node a (p + arr_off xs i) b (q + arr_off ys i) = Some (json_cmp (xs ! i) (ys ! i), e, f)"
      using step [of i] i by auto
    then show ?thesis using i by (simp add: u32_or_0_at [OF ax(3)] u32_or_0_at [OF ay(3)])
  qed
  from first_diff_list_cmp [where c = json_cmp and step = ?step and k = 0, OF this]
  have "first_diff ?step [0..<min (length xs) (length ys)] (cmp_of (length xs) (length ys)) = Some (list_cmp json_cmp xs ys)"
    by simp
  then show ?thesis
    by (simp add: cmp_node.simps [of a p b q] ax(1) ay(1) u32_or_0_at [OF ax(2), simplified] u32_or_0_at [OF ay(2), simplified]
        Let_def type_rank_def tag_defs)
qed

lemma cmp_node_object:
  assumes x: "holds_at a p (encode_node (JObject xs))" "json_sized (JObject xs)" "json_wf (JObject xs)"
    and y: "holds_at b q (encode_node (JObject ys))" "json_sized (JObject ys)" "json_wf (JObject ys)"
    and step: "\<And>i. i < length xs \<Longrightarrow> i < length ys \<Longrightarrow>
       \<exists>e f. cmp_node a (p + val_off xs i) b (q + val_off ys i) = Some (json_cmp (snd (xs ! i)) (snd (ys ! i)), e, f)"
  shows "\<exists>e f. cmp_node a p b q = Some (json_cmp (JObject xs) (JObject ys), e, f)"
proof -
  note ax = encode_object_at [OF x(1) x(2) [unfolded json_sized.simps]]
  note ay = encode_object_at [OF y(1) y(2) [unfolded json_sized.simps]]
  let ?c = "\<lambda>p q. then_cmp (bytes_cmp (fst p) (fst q)) (json_cmp (snd p) (snd q))"
  let ?step = "\<lambda>i. let kc = bytes_cmp (str_or_empty a (p + u32_or_0 a (p + 5 + i * 8)))
                            (str_or_empty b (q + u32_or_0 b (q + 5 + i * 8)))
                 in if kc \<noteq> Equal then Some kc
                    else Option.bind (cmp_node a (p + u32_or_0 a (p + 5 + i * 8 + 4)) b (q + u32_or_0 b (q + 5 + i * 8 + 4)))
                           (\<lambda>(r, _, _). Some r)"
  have "?step (0 + i) = Some (?c (xs ! i) (ys ! i))" if i: "i < min (length xs) (length ys)" for i
  proof -
    have "read_str_len a (p + key_off xs i) = Inr (fst (xs ! i), p + key_off xs i + 4 + length (fst (xs ! i)))"
      using i x(3) json_sized_key [OF x(2), of i] by (intro read_str_len_at ax(6)) auto
    moreover have "read_str_len b (q + key_off ys i) = Inr (fst (ys ! i), q + key_off ys i + 4 + length (fst (ys ! i)))"
      using i y(3) json_sized_key [OF y(2), of i] by (intro read_str_len_at ay(6)) auto
    moreover obtain e f where "cmp_node a (p + val_off xs i) b (q + val_off ys i)
        = Some (json_cmp (snd (xs ! i)) (snd (ys ! i)), e, f)"
      using step [of i] i by auto
    moreover have "i < length xs" "i < length ys"
      using i by simp_all
    note off = u32_or_0_at [OF ax(3) [OF this(1)]] u32_or_0_at [OF ax(4) [OF this(1)]]
      u32_or_0_at [OF ay(3) [OF this(2)]] u32_or_0_at [OF ay(4) [OF this(2)]]
    ultimately show ?thesis
      unfolding add_0 off by (cases "bytes_cmp (fst (xs ! i)) (fst (ys ! i))") (simp_all add: str_or_empty_def)
  qed
  from first_diff_list_cmp [where c = ?c and step = ?step and k = 0, OF this]
  have "first_diff ?step [0..<min (length xs) (length ys)] (cmp_of (length xs) (length ys)) = Some (list_cmp ?c xs ys)"
    by simp
  then show ?thesis
    by (simp add: cmp_node.simps [of a p b q] ax(1) ay(1) u32_or_0_at [OF ax(2), simplified] u32_or_0_at [OF ay(2), simplified]
        Let_def type_rank_def tag_defs)
qed

text \<open>Comparing two encoded documents ends and gives the order of their trees.\<close>

lemma cmp_node_at:
  assumes "holds_at a p (encode_node x)" "json_wf x" "json_sized x"
    and "holds_at b q (encode_node y)" "json_wf y" "json_sized y"
  shows "\<exists>e f. cmp_node a p b q = Some (json_cmp x y, e, f)"
  using assms
proof (induction "size x" arbitrary: x p y q rule: less_induct)
  case less
  obtain s t where t: "rd_u8 a p = Some s" "type_rank s = json_rank x" "rd_u8 b q = Some t" "type_rank t = json_rank y"
    using rd_u8_encode [OF less.prems(1)] rd_u8_encode [OF less.prems(4)] by blast
  show ?case
  proof (cases "json_rank x = json_rank y")
    case False
    then show ?thesis using cmp_node_ranks(1) [OF t] json_cmp_rank [of x y] by simp
  next
    case eq: True
    consider "json_rank x \<le> 2" | "json_rank x = 3" | "json_rank x = 4" | "json_rank x = 5" | "json_rank x = 6"
      using json_rank_le [of x] by linarith
    then show ?thesis
    proof cases
      case 1
      then show ?thesis using cmp_node_ranks(3) [OF t] json_cmp_same_rank [of x y] eq by simp
    next
      case 2
      then show ?thesis
        using cmp_node_ranks(2) [OF t] eq less.prems(1,4) by (simp add: json_cmp_numbers read_number_at)
    next
      case 3
      then obtain s t where "x = JStr s" "y = JStr t"
        using eq json_rank_cases(1) by metis
      then show ?thesis
        using less.prems cmp_node_str [of a p s b q t] by (simp del: encode_node.simps)
    next
      case 4
      then obtain xs ys where *: "x = JArray xs" "y = JArray ys"
        using eq json_rank_cases(2) by metis
      note pr = less.prems [unfolded *]
      show ?thesis
        unfolding * json_cmp.simps
        using pr json_sized_elem [OF pr(3)] json_sized_elem [OF pr(6)]
          encode_array_at(4) [OF pr(1) pr(3) [unfolded json_sized.simps]]
          encode_array_at(4) [OF pr(4) pr(6) [unfolded json_sized.simps]]
        by (intro cmp_node_array less.hyps [unfolded *, OF size_elem]) auto
    next
      case 5
      then obtain xs ys where *: "x = JObject xs" "y = JObject ys"
        using eq json_rank_cases(3) by metis
      note pr = less.prems [unfolded *]
      show ?thesis
        unfolding *
        using pr json_sized_val [OF pr(3)] json_sized_val [OF pr(6)]
          encode_object_at(7) [OF pr(1) pr(3) [unfolded json_sized.simps]]
          encode_object_at(7) [OF pr(4) pr(6) [unfolded json_sized.simps]]
        by (intro cmp_node_object less.hyps [unfolded *, OF size_val]) auto
    qed
  qed
qed

lemma pj1_cmp_encoded:
  assumes "json_wf x" "json_sized x" "json_wf y" "json_sized y"
  shows "pj1_cmp (encode_node x) (encode_node y) = Some (json_cmp x y)"
  using cmp_node_at [of "encode_node x" 0 x "encode_node y" 0 y] assms by (auto simp: pj1_cmp_def)

end
