(* ===== verification/Pj1_Validate.thy ===== *)
theory Pj1_Validate
  imports Pj1_Layout
begin

text \<open>
  The validator accepts exactly the encodings of canonical documents: it accepts each, and whatever it
  accepts is one.
\<close>

subsection \<open>Bytes from what was read\<close>

lemma or_err_Inr [simp]: "or_err e m = Inr x \<longleftrightarrow> m = Some x"
  by (cases m) (simp_all add: or_err_def)

lemma and_then_Inr: "and_then m f = Inr y \<longleftrightarrow> (\<exists>x. m = Inr x \<and> f x = Inr y)"
  by (cases m) simp_all

lemma slice_get_holds: "slice_get buf a b = Some s \<longleftrightarrow> b = a + length s \<and> holds_at buf a s"
  by (auto simp: slice_get_def holds_at_def)

lemma rd_u8_holds: "rd_u8 buf p = Some t \<longleftrightarrow> holds_at buf p [t]"
  by (auto simp: rd_u8_def)

lemma rd_u32_holds: "rd_u32 buf p = Some n \<Longrightarrow> holds_at buf p (off32 n) \<and> n < 2 ^ 32"
  using unsigned_less [where ?'b = 32 and ?'a = nat]
  by (auto simp: rd_u32_def slice_get_holds off32_def u32_to_from_le)

lemma rd_u64_holds: "rd_u64 buf p = Some w \<Longrightarrow> holds_at buf p (u64_to_le w)"
  by (auto simp: rd_u64_def slice_get_holds u64_to_from_le)

lemma read_str_checked_holds:
  "read_str_checked buf p = Inr (s, e) \<Longrightarrow>
     holds_at buf p (prefix32 s) \<and> utf8_valid s \<and> length s < 2 ^ 32 \<and> e = p + 4 + length s"
  by (auto simp: read_str_checked_def and_then_Inr slice_get_holds prefix32_def off32_def
      dest!: rd_u32_holds split: if_splits)

lemma holds_at_concatI:
  "(\<And>i. i < length xss \<Longrightarrow> holds_at buf (part_off p xss i) (xss ! i)) \<Longrightarrow> p \<le> length buf \<Longrightarrow> holds_at buf p (concat xss)"
proof (induction xss arbitrary: p)
  case (Cons xs xss)
  have "holds_at buf p xs" using Cons.prems(1) [of 0] by simp
  moreover have "holds_at buf (p + length xs) (concat xss)"
    using Cons.prems(1) [of "Suc i" for i] calculation
    by (intro Cons.IH) (auto simp: part_off_def add.assoc dest: holds_at_bound)
  ultimately show ?case by simp
qed simp

subsection \<open>Every canonical encoding is accepted\<close>

lemma validate_elems_at:
  assumes "\<And>i. k \<le> i \<Longrightarrow> i < n \<Longrightarrow> validate_node buf (start + off i) (depth + 1) = Inr (start + off (Suc i))"
    and "\<And>i. i \<le> n \<Longrightarrow> rd_u32 buf (start + 5 + i * 4) = Some (off i)"
    and "\<And>i. i < n \<Longrightarrow> off i \<le> off (Suc i)" and "k \<le> n"
  shows "validate_elems buf start depth [k..<n] (off k) = Inr (off n)"
  using assms
proof (induction "n - k" arbitrary: k)
  case (Suc d)
  then have "k < n" by linarith
  have "validate_elems buf start depth [Suc k..<n] (off (Suc k)) = Inr (off n)"
    using Suc.hyps(2) Suc.prems by (intro Suc.hyps(1)) auto
  moreover have "rd_u32 buf (start + 5 + (k + 1) * 4) = Some (off (Suc k))"
    using Suc.prems(2) [of "Suc k"] Suc.hyps(2) by simp
  ultimately show ?case
    using \<open>k < n\<close> Suc.prems(1) [of k] Suc.prems(2) [of k] Suc.prems(3) [of k]
    by (simp add: upt_conv_Cons or_err_def)
qed simp

lemma validate_vals_at:
  assumes "\<And>i. k \<le> i \<Longrightarrow> i < n \<Longrightarrow> validate_node buf (start + off i) (depth + 1) = Inr (start + off (Suc i))"
    and "\<And>i. i < n \<Longrightarrow> rd_u32 buf (start + 5 + i * 8 + 4) = Some (off i)" and "k \<le> n"
  shows "validate_vals buf start depth [k..<n] (off k) = Inr (off n)"
  using assms
proof (induction "n - k" arbitrary: k)
  case (Suc d)
  have "validate_vals buf start depth [Suc k..<n] (off (Suc k)) = Inr (off n)"
    using Suc.hyps(2) Suc.prems by (intro Suc.hyps(1)) auto
  then show ?case
    using Suc.hyps(2) Suc.prems(1) [of k] Suc.prems(2) [of k] by (simp add: upt_conv_Cons or_err_def)
qed simp

lemma validate_keys_at:
  assumes "\<And>i. i < n \<Longrightarrow> read_str_checked buf (start + off i) = Inr (key i, start + off (Suc i))"
    and "\<And>i. i < n \<Longrightarrow> rd_u32 buf (start + 5 + i * 8) = Some (off i)"
    and "\<And>i. Suc i < n \<Longrightarrow> bytes_cmp (key (Suc i)) (key i) = Greater" and "k \<le> n"
    and "prev = (if k = 0 then None else Some (key (k - 1)))"
  shows "validate_keys buf start (off k) [k..<n] prev = Inr (off n)"
  using assms
proof (induction "n - k" arbitrary: k prev)
  case (Suc d)
  have "validate_keys buf start (off (Suc k)) [Suc k..<n] (Some (key k)) = Inr (off n)"
    using Suc.hyps(2) Suc.prems by (intro Suc.hyps(1)) auto
  moreover have "bytes_cmp (key k) (key (k - 1)) = Greater" if "k \<noteq> 0"
    using Suc.prems(3) [of "k - 1"] that Suc.hyps(2) by simp
  ultimately show ?case
    using Suc.hyps(2) Suc.prems(1) [of k] Suc.prems(2) [of k] Suc.prems(5)
    by (simp add: upt_conv_Cons or_err_def)
qed simp


lemma validate_node_array:
  assumes h: "holds_at buf p (encode_node (JArray xs))" and l: "json_sized (JArray xs)" and d: "depth \<le> MAX_DEPTH"
    and step: "\<And>i. i < length xs \<Longrightarrow>
       validate_node buf (p + arr_off xs i) (depth + 1) = Inr (p + arr_off xs i + length (encode_node (xs ! i)))"
  shows "validate_node buf p depth = Inr (p + length (encode_node (JArray xs)))"
proof -
  note at = encode_array_at [OF h l [unfolded json_sized.simps]]
  have "validate_elems buf p depth [0..<length xs] (arr_off xs 0) = Inr (arr_off xs (length xs))"
    using step at(3) by (intro validate_elems_at) (auto simp: arr_off_Suc add.assoc simp del: encode_node.simps)
  moreover have z: "arr_off xs 0 = 5 + 4 * (length xs + 1)"
    by (simp add: arr_off_def arr_base_def)
  moreover obtain s where "slice_get buf (p + 5) (p + 5 + 4 * (length xs + 1)) = Some s"
    using arr_off_le [of xs 0] holds_at_bound [OF h] z by (simp add: slice_get_def)
  moreover have "rd_u32 buf (p + 5) = Some (arr_off xs 0)"
    using at(3) [of 0] by simp
  ultimately show ?thesis
    using at(1,2) at(3) [of "length xs"] d
    by (simp add: validate_node.simps [of buf p] or_err_def arr_off_end tag_defs del: encode_node.simps)
qed

lemma validate_node_object:
  assumes h: "holds_at buf p (encode_node (JObject xs))" and l: "json_sized (JObject xs)" and d: "depth \<le> MAX_DEPTH"
    and w: "json_wf (JObject xs)"
    and step: "\<And>i. i < length xs \<Longrightarrow>
       validate_node buf (p + val_off xs i) (depth + 1) = Inr (p + val_off xs i + length (encode_node (snd (xs ! i))))"
  shows "validate_node buf p depth = Inr (p + length (encode_node (JObject xs)))"
proof -
  note at = encode_object_at [OF h l [unfolded json_sized.simps]]
  have k: "read_str_checked buf (p + key_off xs i) = Inr (fst (xs ! i), p + key_off xs (Suc i))" if "i < length xs" for i
    unfolding read_str_checked_eq
    using that w at(6) [OF that] json_sized_key [OF l that] read_str_len_at [of buf "p + key_off xs i" "fst (xs ! i)"]
    by (simp add: key_off_Suc)
  have lt: "bytes_cmp (fst (xs ! Suc i)) (fst (xs ! i)) = Greater" if "Suc i < length xs" for i
    using sorted_wrt_nth_less [of "\<lambda>k l. bytes_cmp k l = Less" "map fst xs" i "Suc i"] w that bytes_cmp_flip [of "fst (xs ! i)" "fst (xs ! Suc i)"]
    by auto
  have "validate_keys buf p (key_off xs 0) [0..<length xs] None = Inr (key_off xs (length xs))"
    using k at(3) lt by (intro validate_keys_at [where key = "\<lambda>i. fst (xs ! i)"]) auto
  moreover have "validate_vals buf p depth [0..<length xs] (val_off xs 0) = Inr (val_off xs (length xs))"
    using step at(4) by (intro validate_vals_at) (auto simp: val_off_Suc add.assoc simp del: encode_node.simps)
  moreover have z: "key_off xs 0 = 5 + length xs * 8 + 4"
    by (simp add: key_off_def obj_base_def)
  moreover obtain s where "slice_get buf (p + 5) (p + 5 + 8 * length xs + 4) = Some s"
    using key_off_le [of xs 0] holds_at_bound [OF h] z by (simp add: slice_get_def)
  ultimately show ?thesis
    using at(1,2,5) d
    by (simp add: validate_node.simps [of buf p] or_err_def val_off_0 val_off_end tag_defs del: encode_node.simps)
qed

lemma validate_node_at:
  assumes "holds_at buf p (encode_node x)" "json_wf x" "json_sized x" "depth + json_depth x \<le> MAX_DEPTH"
  shows "validate_node buf p depth = Inr (p + length (encode_node x))"
  using assms
proof (induction x arbitrary: p depth)
  case (JStr s)
  then have "read_str_checked buf (p + 1) = Inr (s, p + 1 + 4 + length s)"
    unfolding read_str_checked_eq by (intro read_str_len_at) auto
  then show ?case using JStr by (simp add: validate_node.simps [of buf p] rd_u8_def or_err_def tag_defs)
next
  case (JArray xs)
  note l = JArray.prems(3)
  have "validate_node buf (p + arr_off xs i) (depth + 1) = Inr (p + arr_off xs i + length (encode_node (xs ! i)))"
    if "i < length xs" for i
    using that JArray.prems json_sized_elem [OF l that] json_depth_elem [OF that]
      encode_array_at(4) [OF JArray.prems(1) l [unfolded json_sized.simps] that]
    by (intro JArray.IH) (auto simp del: json_depth.simps encode_node.simps)
  then show ?case using JArray.prems by (intro validate_node_array) auto
next
  case (JObject xs)
  note l = JObject.prems(3)
  have "validate_node buf (p + val_off xs i) (depth + 1) = Inr (p + val_off xs i + length (encode_node (snd (xs ! i))))"
    if "i < length xs" for i
    using that JObject.prems json_sized_val [OF l that] json_depth_val [OF that]
      encode_object_at(7) [OF JObject.prems(1) l [unfolded json_sized.simps] that]
    by (intro JObject.IH [of "xs ! i"]) (auto simp: snds.simps simp del: json_depth.simps encode_node.simps)
  then show ?case using JObject.prems by (intro validate_node_object) auto
qed (auto simp: validate_node.simps [of buf] rd_u8_def or_err_def slice_get_at rd_u64_at tag_defs)


subsection \<open>Only canonical encodings are accepted\<close>

text \<open>A canonical document that the validator may meet below \<open>depth\<close> enclosing brackets.\<close>

definition json_ok :: "nat \<Rightarrow> json \<Rightarrow> bool" where
  "json_ok depth x \<longleftrightarrow> json_wf x \<and> json_sized x \<and> depth + json_depth x \<le> MAX_DEPTH"

definition node_sound :: "bytes \<Rightarrow> nat \<Rightarrow> bool" where
  "node_sound buf depth \<longleftrightarrow> (\<forall>start stop. validate_node buf start depth = Inr stop \<longrightarrow>
     (\<exists>x. json_ok depth x \<and> holds_at buf start (encode_node x) \<and> stop = start + length (encode_node x)))"

lemma part_off_Cons: "part_off base (p # ps) (Suc i) = part_off (base + length p) ps i"
  by (simp add: part_off_def)

lemma validate_elems_sound:
  assumes "node_sound buf (depth + 1)"
    and "validate_elems buf start depth [k..<n] prev = Inr stop" and "k \<le> n" and "start + prev \<le> length buf"
  shows "\<exists>xs. length xs = n - k \<and> (\<forall>x \<in> set xs. json_ok (depth + 1) x) \<and>
     (\<forall>i < n - k. rd_u32 buf (start + 5 + (k + i) * 4) = Some (part_off prev (map encode_node xs) i)) \<and>
     holds_at buf (start + prev) (concat (map encode_node xs)) \<and> stop = prev + length (concat (map encode_node xs))"
  using assms(2-)
proof (induction "n - k" arbitrary: k prev)
  case (Suc d)
  then have up: "[k..<n] = k # [Suc k..<n]" by (simp add: upt_conv_Cons)
  have n: "d = n - Suc k" "Suc k \<le> n" using Suc.hyps(2) by linarith+
  from Suc.prems(1) [unfolded up] obtain o1 where
    o: "rd_u32 buf (start + 5 + k * 4) = Some prev" "prev \<le> o1" "validate_node buf (start + prev) (depth + 1) = Inr (start + o1)"
      "validate_elems buf start depth [Suc k..<n] o1 = Inr stop"
    by (auto simp: and_then_Inr split: if_splits)
  obtain x where x: "json_ok (depth + 1) x" "holds_at buf (start + prev) (encode_node x)" "o1 = prev + length (encode_node x)"
    using assms(1) o(3) by (fastforce simp: node_sound_def)
  obtain xs where xs: "length xs = n - Suc k" "\<forall>x \<in> set xs. json_ok (depth + 1) x"
     "\<forall>i < n - Suc k. rd_u32 buf (start + 5 + (Suc k + i) * 4) = Some (part_off o1 (map encode_node xs) i)"
     "holds_at buf (start + o1) (concat (map encode_node xs))" "stop = o1 + length (concat (map encode_node xs))"
    using Suc.hyps(1) [OF n(1) o(4) n(2)] holds_at_bound [OF x(2)] x(3) by (auto simp: add.assoc)
  have "rd_u32 buf (start + 5 + (k + i) * 4) = Some (part_off prev (map encode_node (x # xs)) i)" if "i < n - k" for i
    using that xs(3) o(1) by (cases i) (auto simp: part_off_Cons x(3))
  then show ?case
    using xs x Suc.hyps(2) by (intro exI [of _ "x # xs"]) (auto simp: add.assoc)
qed auto

lemma validate_vals_sound:
  assumes "node_sound buf (depth + 1)"
    and "validate_vals buf start depth [k..<n] expected = Inr stop" and "k \<le> n" and "start + expected \<le> length buf"
  shows "\<exists>xs. length xs = n - k \<and> (\<forall>x \<in> set xs. json_ok (depth + 1) x) \<and>
     (\<forall>i < n - k. rd_u32 buf (start + 5 + (k + i) * 8 + 4) = Some (part_off expected (map encode_node xs) i)) \<and>
     holds_at buf (start + expected) (concat (map encode_node xs)) \<and> stop = expected + length (concat (map encode_node xs))"
  using assms(2-)
proof (induction "n - k" arbitrary: k expected)
  case (Suc d)
  then have up: "[k..<n] = k # [Suc k..<n]" by (simp add: upt_conv_Cons)
  have n: "d = n - Suc k" "Suc k \<le> n" using Suc.hyps(2) by linarith+
  from Suc.prems(1) [unfolded up] obtain vend where
    o: "rd_u32 buf (start + 5 + k * 8 + 4) = Some expected" "validate_node buf (start + expected) (depth + 1) = Inr vend"
      "validate_vals buf start depth [Suc k..<n] (vend - start) = Inr stop"
    by (auto simp: and_then_Inr split: if_splits)
  obtain x where x: "json_ok (depth + 1) x" "holds_at buf (start + expected) (encode_node x)"
      "vend - start = expected + length (encode_node x)"
    using assms(1) o(2) by (fastforce simp: node_sound_def)
  obtain xs where xs: "length xs = n - Suc k" "\<forall>x \<in> set xs. json_ok (depth + 1) x"
     "\<forall>i < n - Suc k. rd_u32 buf (start + 5 + (Suc k + i) * 8 + 4) = Some (part_off (vend - start) (map encode_node xs) i)"
     "holds_at buf (start + (vend - start)) (concat (map encode_node xs))"
     "stop = vend - start + length (concat (map encode_node xs))"
    using Suc.hyps(1) [OF n(1) o(3) n(2)] holds_at_bound [OF x(2)] x(3) by (auto simp: add.assoc)
  have "rd_u32 buf (start + 5 + (k + i) * 8 + 4) = Some (part_off expected (map encode_node (x # xs)) i)" if "i < n - k" for i
    using that xs(3) o(1) by (cases i) (auto simp: part_off_Cons x(3))
  then show ?case
    using xs x Suc.hyps(2) by (intro exI [of _ "x # xs"]) (auto simp: add.assoc)
qed auto

lemma validate_keys_sound:
  assumes "validate_keys buf start expected [k..<n] prev = Inr stop" and "k \<le> n" and "start + expected \<le> length buf"
  shows "\<exists>ks. length ks = n - k \<and> (\<forall>s \<in> set ks. utf8_valid s \<and> length s < 2 ^ 32) \<and>
     sorted_wrt (\<lambda>k l. bytes_cmp k l = Less) ((case prev of None \<Rightarrow> [] | Some p \<Rightarrow> [p]) @ ks) \<and>
     (\<forall>i < n - k. rd_u32 buf (start + 5 + (k + i) * 8) = Some (part_off expected (map prefix32 ks) i)) \<and>
     holds_at buf (start + expected) (concat (map prefix32 ks)) \<and> stop = expected + length (concat (map prefix32 ks))"
  using assms
proof (induction "n - k" arbitrary: k expected prev)
  case 0
  then show ?case by (auto split: option.split)
next
  case (Suc d)
  then have up: "[k..<n] = k # [Suc k..<n]" by (simp add: upt_conv_Cons)
  have n: "d = n - Suc k" "Suc k \<le> n" using Suc.hyps(2) by linarith+
  from Suc.prems(1) [unfolded up] obtain s kend where
    o: "rd_u32 buf (start + 5 + k * 8) = Some expected" "read_str_checked buf (start + expected) = Inr (s, kend)"
      "prev = None \<or> (\<exists>p. prev = Some p \<and> bytes_cmp s p = Greater)"
      "validate_keys buf start (kend - start) [Suc k..<n] (Some s) = Inr stop"
    by (auto simp: and_then_Inr split: if_splits option.splits)
  note s = read_str_checked_holds [OF o(2)]
  obtain ks where ks: "length ks = n - Suc k" "\<forall>s \<in> set ks. utf8_valid s \<and> length s < 2 ^ 32"
     "sorted_wrt (\<lambda>k l. bytes_cmp k l = Less) (s # ks)"
     "\<forall>i < n - Suc k. rd_u32 buf (start + 5 + (Suc k + i) * 8) = Some (part_off (kend - start) (map prefix32 ks) i)"
     "holds_at buf (start + (kend - start)) (concat (map prefix32 ks))"
     "stop = kend - start + length (concat (map prefix32 ks))"
    using Suc.hyps(1) [OF n(1) o(4) n(2)] holds_at_bound [of buf "start + expected" "prefix32 s"] s by (auto simp: add.assoc)
  have "rd_u32 buf (start + 5 + (k + i) * 8) = Some (part_off expected (map prefix32 (s # ks)) i)" if "i < n - k" for i
    using that ks(4) o(1) s by (cases i) (auto simp: part_off_Cons add.assoc)
  moreover have "bytes_cmp p l = Less" if "prev = Some p" "l \<in> set (s # ks)" for p l
    using that ks(3) o(3) bytes_cmp_flip [of p s] bytes_cmp_trans [of p s l] by auto
  ultimately show ?case
    using ks s Suc.hyps(2) by (intro exI [of _ "s # ks"]) (auto simp: add.assoc split: option.split)
qed


lemma add_Max_le:
  fixes d m :: nat
  assumes "d \<le> m" and "finite S"
  shows "d + Max (insert 0 S) \<le> m \<longleftrightarrow> (\<forall>s \<in> S. d + s \<le> m)"
proof -
  have "d + k \<le> m \<longleftrightarrow> k \<le> m - d" for k using assms(1) by auto
  then show ?thesis using assms(2) by simp
qed

lemma json_depth_le_array:
  "d \<le> m \<Longrightarrow> d + json_depth (JArray xs) \<le> m \<longleftrightarrow> (\<forall>x \<in> set xs. Suc d + json_depth x \<le> m)"
  unfolding json_depth.simps by (subst add_Max_le) auto

lemma json_depth_le_object:
  "d \<le> m \<Longrightarrow> d + json_depth (JObject ps) \<le> m \<longleftrightarrow> (\<forall>p \<in> set ps. Suc d + json_depth (snd p) \<le> m)"
  unfolding json_depth.simps by (subst add_Max_le) auto

lemma array_sound:
  assumes n: "node_sound buf (depth + 1)" and d: "depth \<le> MAX_DEPTH" and t: "rd_u8 buf start = Some TAG_ARRAY"
    and v: "validate_node buf start depth = Inr stop"
  shows "\<exists>x. json_ok depth x \<and> holds_at buf start (encode_node x) \<and> stop = start + length (encode_node x)"
proof -
  let ?first = "\<lambda>count. 5 + 4 * (count + 1)"
  from v t d obtain count total s where
    o: "rd_u32 buf (start + 1) = Some count" "slice_get buf (start + 5) (start + ?first count) = Some s"
      "validate_elems buf start depth [0..<count] (?first count) = Inr total"
      "rd_u32 buf (start + 5 + count * 4) = Some total" "stop = start + total"
    by (auto simp: validate_node.simps [of buf start] and_then_Inr tag_defs add.assoc split: if_splits)
  have le: "start + ?first count \<le> length buf"
    using o(2) by (auto simp: slice_get_def split: if_splits)
  obtain xs where xs: "length xs = count" "\<forall>x \<in> set xs. json_ok (depth + 1) x"
     "\<forall>i < count. rd_u32 buf (start + 5 + i * 4) = Some (part_off (?first count) (map encode_node xs) i)"
     "holds_at buf (start + ?first count) (concat (map encode_node xs))"
     "total = ?first count + length (concat (map encode_node xs))"
    using validate_elems_sound [OF n o(3) _ le] by auto
  have off: "arr_off xs = part_off (?first count) (map encode_node xs)"
    using xs(1) by (simp add: arr_off_def arr_base_def fun_eq_iff)
  have tot: "total = length (encode_node (JArray xs))"
    unfolding length_encode_array arr_base_def xs(1) by (rule xs(5))
  have "rd_u32 buf (start + 5 + i * 4) = Some (arr_off xs i)" if "i < Suc count" for i
    using that o(4) tot xs(1,3) arr_off_end [of xs] by (cases "i = count") (simp_all add: off less_Suc_eq del: encode_node.simps)
  then have tab: "holds_at buf (start + 5) (concat (map off32 (map (arr_off xs) [0..<Suc count])))"
    using le by (intro holds_at_concatI) (auto simp: part_off_const [where k = 4] dest!: rd_u32_holds simp del: upt_Suc)
  have "holds_at buf start (encode_node (JArray xs))"
    unfolding encode_array_eq xs(1)
    using t rd_u32_holds [OF o(1)] tab xs(4) length_concat_const [of "map off32 (map (arr_off xs) [0..<Suc count])" 4]
    by (simp add: rd_u8_holds ac_simps del: upt_Suc)
  moreover have "json_ok depth (JArray xs)"
    using xs(2) d tot rd_u32_holds [OF o(4)]
    unfolding json_ok_def json_depth_le_array [OF d] by (auto simp del: encode_node.simps)
  ultimately show ?thesis using tot o(5) by blast
qed


lemma object_sound:
  assumes n: "node_sound buf (depth + 1)" and d: "depth \<le> MAX_DEPTH" and t: "rd_u8 buf start = Some TAG_OBJECT"
    and v: "validate_node buf start depth = Inr stop"
  shows "\<exists>x. json_ok depth x \<and> holds_at buf start (encode_node x) \<and> stop = start + length (encode_node x)"
proof -
  let ?first = "\<lambda>count. 5 + count * 8 + 4"
  from v t d obtain count vbase total s where
    o: "rd_u32 buf (start + 1) = Some count" "slice_get buf (start + 5) (start + 5 + 8 * count + 4) = Some s"
      "validate_keys buf start (?first count) [0..<count] None = Inr vbase"
      "validate_vals buf start depth [0..<count] vbase = Inr total"
      "rd_u32 buf (start + 5 + count * 8) = Some total" "stop = start + total"
    by (auto simp: validate_node.simps [of buf start] and_then_Inr tag_defs add.assoc split: if_splits)
  have le: "start + ?first count \<le> length buf"
    using o(2) by (auto simp: slice_get_def split: if_splits)
  obtain ks where ks: "length ks = count" "\<forall>s \<in> set ks. utf8_valid s \<and> length s < 2 ^ 32"
     "sorted_wrt (\<lambda>k l. bytes_cmp k l = Less) ks"
     "\<forall>i < count. rd_u32 buf (start + 5 + i * 8) = Some (part_off (?first count) (map prefix32 ks) i)"
     "holds_at buf (start + ?first count) (concat (map prefix32 ks))"
     "vbase = ?first count + length (concat (map prefix32 ks))"
    using validate_keys_sound [OF o(3) _ le] by auto
  have le': "start + vbase \<le> length buf"
    using holds_at_bound [OF ks(5)] ks(6) by simp
  obtain xs where xs: "length xs = count" "\<forall>x \<in> set xs. json_ok (depth + 1) x"
     "\<forall>i < count. rd_u32 buf (start + 5 + i * 8 + 4) = Some (part_off vbase (map encode_node xs) i)"
     "holds_at buf (start + vbase) (concat (map encode_node xs))"
     "total = vbase + length (concat (map encode_node xs))"
    using validate_vals_sound [OF n o(4) _ le'] by auto
  let ?ps = "zip ks xs"
  have parts: "obj_keys ?ps = map prefix32 ks" "obj_vals ?ps = map encode_node xs"
    using ks(1) xs(1) by (auto intro!: nth_equalityI simp: nth_obj)
  have off: "key_off ?ps = part_off (?first count) (map prefix32 ks)" "val_off ?ps = part_off vbase (map encode_node xs)"
    using ks(1,6) xs(1) by (simp_all add: key_off_def val_off_def parts obj_base_def fun_eq_iff)
  have len: "length (encode_node (JObject ?ps)) = total"
    unfolding length_encode_object parts xs(5) ks(6) using ks(1) xs(1) by (simp add: obj_base_def)
  let ?tab = "map2 (\<lambda>k v. off32 k @ off32 v) (map (key_off ?ps) [0..<count]) (map (val_off ?ps) [0..<count])"
  have "holds_at buf (start + 5 + i * 8) (off32 (key_off ?ps i) @ off32 (val_off ?ps i))" if "i < count" for i
    using that ks(4) xs(3) unfolding off by (simp add: rd_u32_holds)
  then have tab: "holds_at buf (start + 5) (concat ?tab)"
    using le by (intro holds_at_concatI) (auto simp: part_off_const [where k = 8] set_zip)
  have "length (concat ?tab) = count * 8"
    using length_concat_const [of ?tab 8] by (auto simp: set_zip)
  then have "holds_at buf start (encode_node (JObject ?ps))"
    unfolding encode_object_eq interleave_def parts
    using t rd_u32_holds [OF o(1)] rd_u32_holds [OF o(5)] tab ks(1,5,6) xs(1,4) val_off_end [of ?ps] len
    by (simp add: rd_u8_holds ac_simps del: encode_node.simps)
  moreover have "json_ok depth (JObject ?ps)"
    using xs(1,2) ks(1-3) d len rd_u32_holds [OF o(5)]
    unfolding json_ok_def json_depth_le_object [OF d]
    by (auto simp: dest: set_zip_leftD set_zip_rightD simp del: encode_node.simps)
  ultimately show ?thesis using len o(6) by blast
qed

lemma scalar_sound:
  assumes d: "depth \<le> MAX_DEPTH" and t: "rd_u8 buf start = Some t"
    and v: "validate_node buf start depth = Inr stop" and k: "t \<noteq> TAG_ARRAY" "t \<noteq> TAG_OBJECT"
  shows "\<exists>x. json_ok depth x \<and> holds_at buf start (encode_node x) \<and> stop = start + length (encode_node x)"
proof -
  have tag: "holds_at buf start [t]" using t by (simp only: rd_u8_holds)
  note v' = v [unfolded validate_node.simps [of buf start]]
  consider "t = TAG_NULL" "stop = start + 1" | "t = TAG_FALSE" "stop = start + 1" | "t = TAG_TRUE" "stop = start + 1"
    | s where "t = TAG_INT" "slice_get buf (start + 1) (start + 9) = Some s" "stop = start + 9"
    | f where "t = TAG_FLOAT" "rd_u64 buf (start + 1) = Some f" "is_finite_f64 f" "stop = start + 9"
    | s where "t = TAG_STRING" "read_str_checked buf (start + 1) = Inr (s, stop)"
  proof -
    consider "t = TAG_NULL \<or> t = TAG_FALSE \<or> t = TAG_TRUE" | "t = TAG_INT" | "t = TAG_FLOAT" | "t = TAG_STRING"
      | "t \<noteq> TAG_NULL" "t \<noteq> TAG_FALSE" "t \<noteq> TAG_TRUE" "t \<noteq> TAG_INT" "t \<noteq> TAG_FLOAT" "t \<noteq> TAG_STRING" by blast
    then show thesis
    proof cases
      case 1
      then have "stop = start + 1" using v' d t by (simp add: or_err_def)
      then show ?thesis using 1 that(1-3) by blast
    next
      case 2
      then have "\<exists>s. slice_get buf (start + 1) (start + 9) = Some s \<and> start + 9 = stop"
        using v' d t by (clarsimp simp: and_then_Inr tag_defs)
      then show ?thesis using 2 that(4) by blast
    next
      case 3
      then have "\<exists>f. rd_u64 buf (start + 1) = Some f \<and> (if is_finite_f64 f then Inr (start + 9) else Inl MalformedPj1) = Inr stop"
        using v' d t by (simp add: and_then_Inr tag_defs)
      then show ?thesis using 3 that(5) by (auto split: if_splits)
    next
      case 4
      then have "\<exists>s. read_str_checked buf (start + 1) = Inr (s, stop)"
        using v' d t by (auto simp: and_then_Inr tag_defs)
      then show ?thesis using 4 that(6) by blast
    next
      case 5
      then show ?thesis using v' d t k by (simp add: or_err_def)
    qed
  qed
  then show ?thesis
  proof cases
    case 1
    then show ?thesis using tag d by (intro exI [of _ JNull]) (simp add: json_ok_def)
  next
    case 2
    then show ?thesis using tag d by (intro exI [of _ "JBool False"]) (simp add: json_ok_def)
  next
    case 3
    then show ?thesis using tag d by (intro exI [of _ "JBool True"]) (simp add: json_ok_def)
  next
    case (4 s)
    then have "length s = 8" "holds_at buf (start + 1) s" by (auto simp: slice_get_holds)
    then show ?thesis
      using 4 tag d by (intro exI [of _ "JInt (u64_from_le s)"]) (simp add: json_ok_def u64_to_from_le)
  next
    case (5 f)
    then show ?thesis using tag d rd_u64_holds [OF 5(2)] by (intro exI [of _ "JFloat f"]) (simp add: json_ok_def)
  next
    case (6 s)
    then show ?thesis
      using tag d read_str_checked_holds [OF 6(2)] by (intro exI [of _ "JStr s"]) (simp add: json_ok_def)
  qed
qed

lemma node_sound_all: "node_sound buf depth"
proof (induction "Suc MAX_DEPTH - depth" arbitrary: depth)
  case 0
  then show ?case by (auto simp: node_sound_def validate_node.simps [of buf _ depth])
next
  case (Suc d)
  then have d: "depth \<le> MAX_DEPTH" and n: "node_sound buf (depth + 1)" by auto
  show ?case
    unfolding node_sound_def
  proof (intro allI impI)
    fix start stop
    assume v: "validate_node buf start depth = Inr stop"
    then obtain t where t: "rd_u8 buf start = Some t"
      using d by (auto simp: validate_node.simps [of buf start] and_then_Inr)
    consider "t = TAG_ARRAY" | "t = TAG_OBJECT" | "t \<noteq> TAG_ARRAY" "t \<noteq> TAG_OBJECT" by blast
    then show "\<exists>x. json_ok depth x \<and> holds_at buf start (encode_node x) \<and> stop = start + length (encode_node x)"
    proof cases
      case 1
      then show ?thesis using array_sound [OF n d _ v] t by simp
    next
      case 2
      then show ?thesis using object_sound [OF n d _ v] t by simp
    next
      case 3
      then show ?thesis using scalar_sound [OF d t v] by simp
    qed
  qed
qed


lemma pj1_validate_iff:
  "pj1_validate doc = Inr () \<longleftrightarrow>
     (\<exists>x. json_wf x \<and> json_sized x \<and> json_depth x \<le> MAX_DEPTH \<and> doc = encode_node x)"
proof
  assume "pj1_validate doc = Inr ()"
  then have "validate_node doc 0 0 = Inr (length doc)"
    by (auto simp: pj1_validate_def and_then_Inr split: if_splits)
  then obtain x where "json_ok 0 x" "holds_at doc 0 (encode_node x)" "length doc = length (encode_node x)"
    using node_sound_all [of doc 0] unfolding node_sound_def by fastforce
  then show "\<exists>x. json_wf x \<and> json_sized x \<and> json_depth x \<le> MAX_DEPTH \<and> doc = encode_node x"
    by (auto simp: json_ok_def holds_at_def sub_def)
next
  assume "\<exists>x. json_wf x \<and> json_sized x \<and> json_depth x \<le> MAX_DEPTH \<and> doc = encode_node x"
  then obtain x where x: "json_wf x" "json_sized x" "json_depth x \<le> MAX_DEPTH" "doc = encode_node x" by blast
  have "validate_node doc 0 0 = Inr (0 + length (encode_node x))"
    using x by (intro validate_node_at) simp_all
  then show "pj1_validate doc = Inr ()"
    using x(4) by (simp add: pj1_validate_def)
qed

end
