(* ===== verification/Pj1_Correct.thy ===== *)
theory Pj1_Correct
  imports Pj1_Order Pj1_Validate
begin

text \<open>
  The properties of PJ1 documents: canonicalisation, exact validation, extraction and the total order.
\<close>

subsection \<open>Canonical objects\<close>

lemma bytes_le_total: "bytes_cmp k l \<noteq> Less \<Longrightarrow> bytes_cmp l k \<noteq> Greater"
  using bytes_cmp_flip [of l k] by simp

definition keys_le :: "(bytes \<times> 'a) list \<Rightarrow> bool" where
  "keys_le ps \<longleftrightarrow> sorted_wrt (\<lambda>k l. bytes_cmp k l \<noteq> Greater) (map fst ps)"

lemma set_insert_pair: "set (insert_pair qs p) = insert p (set qs)"
  by (induction qs p rule: insert_pair.induct) auto

lemma keys_le_insert: "keys_le qs \<Longrightarrow> keys_le (insert_pair qs p)"
proof (induction qs p rule: insert_pair.induct)
  case (2 q qs p)
  then have q: "\<forall>r \<in> set qs. bytes_cmp (fst q) (fst r) \<noteq> Greater" and s: "keys_le qs"
    by (auto simp: keys_le_def)
  show ?case
  proof (cases "bytes_cmp (fst p) (fst q) = Less")
    case True
    have "bytes_cmp (fst p) (fst r) \<noteq> Greater" if "r \<in> set qs" for r
      using bytes_order.cmp_less_le_trans [of "fst p" "fst q" "fst r"] True q that by simp
    then show ?thesis using True 2 by (auto simp: keys_le_def)
  next
    case False
    then have "bytes_cmp (fst q) (fst p) \<noteq> Greater" by (rule bytes_le_total)
    then show ?thesis using False 2 q s by (auto simp: keys_le_def set_insert_pair)
  qed
qed (simp add: keys_le_def)

text \<open>Insertion is stable: behind a sorted list, the last pair of a key is the inserted one.\<close>

lemma lookup_last_insert:
  "keys_le qs \<Longrightarrow> map_of (rev (insert_pair qs p)) = (map_of (rev qs))(fst p \<mapsto> snd p)"
proof (induction qs p rule: insert_pair.induct)
  case (2 q qs p)
  then have q: "\<forall>r \<in> set qs. bytes_cmp (fst q) (fst r) \<noteq> Greater" and s: "keys_le qs"
    by (auto simp: keys_le_def)
  show ?case
  proof (cases "bytes_cmp (fst p) (fst q) = Less")
    case True
    have less: "bytes_cmp (fst p) (fst r) = Less" if "r \<in> set (q # qs)" for r
      using bytes_order.cmp_less_le_trans [of "fst p" "fst q" "fst r"] True q that by auto
    have "fst p \<noteq> fst r" if "r \<in> set (q # qs)" for r
      using less [OF that] bytes_order.cmp_refl [of "fst p"] by auto
    then have "map_of (rev (q # qs)) (fst p) = None"
      by (auto simp: map_of_eq_None_iff simp del: rev.simps)
    then have "map_of [p] ++ map_of (rev (q # qs)) = (map_of (rev (q # qs)))(fst p \<mapsto> snd p)"
      by (intro ext) (simp add: map_add_def del: rev.simps split: option.split)
    then show ?thesis using True by (simp only: insert_pair.simps simp_thms if_True rev.simps(2) [of p] map_of_append)
  next
    case False
    then show ?thesis
      using "2.IH" [OF False s] by (simp only: insert_pair.simps if_False rev.simps map_of_append map_add_upd)
  qed
qed simp

lemma sort_pairs_snoc: "sort_pairs (ps @ [p]) = insert_pair (sort_pairs ps) p"
  by (simp add: sort_pairs_def)

lemma sort_pairs_keys_le: "keys_le (sort_pairs ps)"
proof (induction ps rule: rev_induct)
  case Nil
  show ?case by (simp add: sort_pairs_def keys_le_def)
qed (simp add: sort_pairs_snoc keys_le_insert)

lemma sort_pairs_last: "map_of (rev (sort_pairs ps)) = map_of (rev ps)"
proof (induction ps rule: rev_induct)
  case (snoc p ps)
  then show ?case
    using lookup_last_insert [OF sort_pairs_keys_le [of ps], of p] by (cases p) (simp add: sort_pairs_snoc)
qed (simp add: sort_pairs_def)

lemma set_sort_pairs: "set (sort_pairs ps) = set ps"
  by (induction ps rule: rev_induct) (simp_all add: sort_pairs_def set_insert_pair)

lemma set_dedup_pairs: "set (dedup_pairs ps) \<subseteq> set ps"
  by (induction ps rule: dedup_pairs.induct) auto

lemma dedup_pairs_strict: "keys_le ps \<Longrightarrow> sorted_wrt (\<lambda>k l. bytes_cmp k l = Less) (map fst (dedup_pairs ps))"
proof (induction ps rule: dedup_pairs.induct)
  case (3 p q ps)
  then have le: "\<forall>r \<in> set (q # ps). bytes_cmp (fst p) (fst r) \<noteq> Greater" "keys_le (q # ps)"
      "\<forall>r \<in> set ps. bytes_cmp (fst q) (fst r) \<noteq> Greater"
    by (auto simp: keys_le_def)
  show ?case
  proof (cases "fst p = fst q")
    case False
    then have pq: "bytes_cmp (fst p) (fst q) = Less"
      using le(1) bytes_cmp_Equal [of "fst p" "fst q"] by (cases "bytes_cmp (fst p) (fst q)") auto
    have "bytes_cmp (fst p) (fst r) = Less" if "r \<in> set (dedup_pairs (q # ps))" for r
    proof -
      have "r \<in> set (q # ps)" using that set_dedup_pairs by blast
      then show ?thesis using pq le(3) bytes_order.cmp_less_le_trans [of "fst p" "fst q" "fst r"] by auto
    qed
    then show ?thesis using False 3 le(2) by auto
  qed (use 3 le in simp)
qed simp_all

lemma dedup_pairs_last: "keys_le ps \<Longrightarrow> map_of (rev (dedup_pairs ps)) = map_of (rev ps)"
proof (induction ps rule: dedup_pairs.induct)
  case (3 p q ps)
  then have "keys_le (q # ps)" by (auto simp: keys_le_def)
  then show ?case
    using 3 by (cases "fst p = fst q") simp_all
qed simp_all


subsection \<open>Key search\<close>

lemma map_of_distinct_rev: "distinct (map fst ps) \<Longrightarrow> map_of (rev ps) = map_of ps"
  by (rule map_of_inject_set [THEN iffD2]) (auto simp flip: rev_map)

lemma strict_keys_distinct: "sorted_wrt (\<lambda>k l. bytes_cmp k l = Less) ks \<Longrightarrow> distinct ks"
  using bytes_order.cmp_refl by (induction ks) auto

lemma map_of_key_nth:
  assumes "sorted_wrt (\<lambda>k l. bytes_cmp k l = Less) (map fst ps)" and "i < length ps"
  shows "map_of ps (fst (ps ! i)) = Some (snd (ps ! i))"
  using assms strict_keys_distinct by (auto intro!: map_of_is_SomeI)

lemma search_key_at:
  assumes h: "holds_at doc 0 (encode_node (JObject ps))" and l: "json_sized (JObject ps)" and w: "json_wf (JObject ps)"
    and "hi \<le> length ps" and "\<And>i. i < length ps \<Longrightarrow> fst (ps ! i) = key \<Longrightarrow> lo \<le> i \<and> i < hi"
  shows "search_key doc key (length ps) lo hi = map_option encode_node (map_of ps key)"
  using assms(4,5)
proof (induction "hi - lo" arbitrary: lo hi rule: less_induct)
  case less
  note at = encode_object_at [OF h l [unfolded json_sized.simps], unfolded add_0]
  have srt: "sorted_wrt (\<lambda>k l. bytes_cmp k l = Less) (map fst ps)" using w by simp
  show ?case
  proof (cases "lo < hi")
    case False
    then have "key \<notin> fst ` set ps"
      using less.prems(2) by (fastforce simp: in_set_conv_nth)
    then have "map_of ps key = None" by (simp add: map_of_eq_None_iff)
    then show ?thesis using False by (simp add: search_key.simps [of doc key "length ps" lo hi])
  next
    case True
    define mid where "mid = (lo + hi) div 2"
    have m: "lo \<le> mid" "mid < hi" "mid < length ps"
      using True less.prems(1) by (auto simp: mid_def)
    have k: "read_str_len doc (key_off ps mid) = Inr (fst (ps ! mid), key_off ps mid + 4 + length (fst (ps ! mid)))"
      using w at(6) [OF m(3)] json_sized_key [OF l m(3)] m(3) by (intro read_str_len_at) auto
    note step = search_key.simps [of doc key "length ps" lo hi] True mid_def [symmetric] Let_def at(3) [OF m(3)] k
    show ?thesis
    proof (cases "bytes_cmp (fst (ps ! mid)) key")
      case Less
      have "mid < i" if "i < length ps" "fst (ps ! i) = key" for i
        using sorted_wrt_nth_less [OF srt, of i mid] that m Less bytes_cmp_flip [of "fst (ps ! i)" "fst (ps ! mid)"]
        by (cases i mid rule: linorder_cases) auto
      then have "search_key doc key (length ps) (mid + 1) hi = map_option encode_node (map_of ps key)"
        using less.prems m by (intro less.hyps) (auto simp: Suc_le_eq)
      then show ?thesis by (simp add: step Less)
    next
      case Greater
      have "i < mid" if "i < length ps" "fst (ps ! i) = key" for i
        using sorted_wrt_nth_less [OF srt, of mid i] that m Greater bytes_order.cmp_refl [of key]
        by (cases i mid rule: linorder_cases) auto
      then have "search_key doc key (length ps) lo mid = map_option encode_node (map_of ps key)"
        using less.prems m by (intro less.hyps) auto
      then show ?thesis by (simp add: step Greater)
    next
      case Equal
      have "(if mid + 1 < length ps then rd_u32 doc (5 + (mid + 1) * 8 + 4) else rd_u32 doc (5 + length ps * 8))
          = Some (val_off ps (Suc mid))"
        using at(4) [of "mid + 1"] at(5) m(3) by (cases "mid + 1 < length ps") (simp_all add: not_less le_Suc_eq)
      moreover have "slice_get doc (val_off ps mid) (val_off ps (Suc mid)) = Some (encode_node (snd (ps ! mid)))"
        by (rule slice_get_at [OF at(7) [OF m(3)] val_off_Suc [OF m(3)]])
      moreover have "map_of ps key = Some (snd (ps ! mid))"
        using map_of_key_nth [OF srt m(3)] Equal by (simp add: bytes_cmp_Equal)
      moreover have "search_key doc key (length ps) lo hi =
          Option.bind (rd_u32 doc (5 + mid * 8 + 4)) (\<lambda>val_off.
          Option.bind (if mid + 1 < length ps then rd_u32 doc (5 + (mid + 1) * 8 + 4) else rd_u32 doc (5 + length ps * 8))
            (\<lambda>nxt. slice_get doc val_off nxt))"
        by (simp only: step if_True option.case sum.case prod.case Equal ordering.case)
      ultimately show ?thesis
        unfolding at(4) [OF m(3)] by (simp only: Option.bind.simps option.map)
    qed
  qed
qed


subsection \<open>Children\<close>

fun json_child :: "json \<Rightarrow> path_seg \<Rightarrow> json option" where
  "json_child (JArray xs) (PIndex i) = (if unat i < length xs then Some (xs ! unat i) else None)"
| "json_child (JObject ps) (PKey k) = map_of ps k"
| "json_child _ _ = None"

fun json_view :: "json \<Rightarrow> pj1_scalar_view" where
  "json_view JNull = SNull"
| "json_view (JBool b) = SBool b"
| "json_view (JInt i) = SInt i"
| "json_view (JFloat f) = SFloat f"
| "json_view (JStr s) = SStr s"
| "json_view _ = SNonScalar"

lemma pj1_get_array:
  assumes l: "json_sized (JArray xs)"
  shows "pj1_get (encode_node (JArray xs)) (PIndex i) = map_option encode_node (json_child (JArray xs) (PIndex i))"
proof -
  let ?doc = "encode_node (JArray xs)"
  note at = encode_array_at [OF holds_at_self l [unfolded json_sized.simps], unfolded add_0]
  show ?thesis
  proof (cases "unat i < length xs")
    case True
    have "slice_get ?doc (arr_off xs (unat i)) (arr_off xs (unat i + 1)) = Some (encode_node (xs ! unat i))"
      using slice_get_at [OF at(4) [OF True]] arr_off_Suc [OF True] by simp
    moreover have "\<not> length xs \<le> unat i" using True by simp
    moreover have "rd_u32 ?doc (5 + unat i * 4) = Some (arr_off xs (unat i))"
      "rd_u32 ?doc (5 + (unat i + 1) * 4) = Some (arr_off xs (unat i + 1))"
      using True by (intro at(3); simp)+
    ultimately show ?thesis
      using True by (simp only: pj1_get_def at(1,2) Option.bind.simps path_seg.case if_True if_False json_child.simps
          option.map simp_thms)
  next
    case False
    then show ?thesis unfolding pj1_get_def at(1,2) by simp
  qed
qed

lemma pj1_get_object:
  assumes "json_sized (JObject ps)" and "json_wf (JObject ps)"
  shows "pj1_get (encode_node (JObject ps)) (PKey k) = map_option encode_node (json_child (JObject ps) (PKey k))"
  using search_key_at [OF holds_at_self assms order.refl, of k 0]
    encode_object_at(1,2) [OF holds_at_self assms(1) [unfolded json_sized.simps]]
  by (simp add: pj1_get_def del: encode_node.simps)

lemma pj1_get_other:
  assumes "json_sized x" and "case x of JArray _ \<Rightarrow> (\<exists>k. seg = PKey k) | JObject _ \<Rightarrow> (\<exists>i. seg = PIndex i) | _ \<Rightarrow> True"
  shows "pj1_get (encode_node x) seg = None"
proof -
  obtain t where "rd_u8 (encode_node x) 0 = Some t" "type_rank t = json_rank x"
    using rd_u8_encode [OF holds_at_self] by blast
  then show ?thesis
    using assms(2) by (cases x; cases seg) (auto simp: pj1_get_def type_rank_def tag_defs simp del: encode_node.simps split: if_splits)
qed

lemma rd_u64_tagged: "rd_u64 (t # u64_to_le w) (Suc 0) = Some w"
  using holds_at_self [of "t # u64_to_le w"] by (intro rd_u64_at) simp

lemma pj1_scalar_encoded:
  assumes "json_wf x" and "json_sized x"
  shows "pj1_scalar (encode_node x) = Inr (json_view x)"
proof (cases x)
  case (JStr s)
  have "read_str (encode_node x) 0 = Inr (s, 0 + 5 + length s)"
    using assms JStr by (intro read_str_at) (simp_all del: encode_node.simps)
  then show ?thesis using JStr by (simp add: pj1_scalar_def or_err_def rd_u8_def tag_defs)
next
  case (JFloat f)
  then show ?thesis using assms(1) by (simp add: pj1_scalar_def or_err_def rd_u8_def rd_u64_tagged tag_defs)
next
  case (JInt i)
  then show ?thesis by (simp add: pj1_scalar_def or_err_def rd_u8_def rd_u64_tagged tag_defs)
qed (simp_all add: pj1_scalar_def or_err_def rd_u8_def tag_defs Let_def)


subsection \<open>Properties\<close>


text \<open>
  C32. On accepted documents the comparison always returns, and it is a total order in which \<open>Equal\<close>
  means equal bytes: swapping the arguments flips the result and \<open>Less\<close> is transitive.
\<close>

theorem pj1_cmp_total_order:
  assumes "pj1_validate a = Inr ()" and "pj1_validate b = Inr ()" and "pj1_validate c = Inr ()"
  shows "\<exists>r s. pj1_cmp a b = Some r \<and> pj1_cmp b a = Some (flip r) \<and> (r = Equal \<longleftrightarrow> a = b) \<and>
           pj1_cmp b c = Some s \<and> (r = Less \<and> s = Less \<longrightarrow> pj1_cmp a c = Some Less)"
proof -
  obtain x y z where w: "json_wf x" "json_sized x" "json_wf y" "json_sized y" "json_wf z" "json_sized z"
    and e: "a = encode_node x" "b = encode_node y" "c = encode_node z"
    using assms unfolding pj1_validate_iff by blast
  note cmp = pj1_cmp_encoded [OF w(1-4)] pj1_cmp_encoded [OF w(3,4,1,2)] pj1_cmp_encoded [OF w(3-6)]
    pj1_cmp_encoded [OF w(1,2,5,6)] pj1_cmp_encoded [OF w(1,2,1,2)]
  have "json_cmp x y = Equal \<longleftrightarrow> a = b"
    using cmp(1,5) e(1,2) json_cmp_Equal [of x x] json_cmp_Equal [of x y] by auto
  then show ?thesis
    unfolding e cmp using json_cmp_trans [of x y z] by (simp add: json_cmp_flip [of y x])
qed

text \<open>
  C33. On the encoding of a document, following a path segment gives the encoding of the child (the last
  binding of a key cannot be missed, an index out of range or of the wrong kind gives nothing), and
  the scalar view is the document's scalar.
\<close>

theorem pj1_get_child:
  assumes "json_wf x" and "json_sized x"
  shows "pj1_get (encode_node x) seg = map_option encode_node (json_child x seg) \<and>
         pj1_scalar (encode_node x) = Inr (json_view x)"
proof -
  have "pj1_get (encode_node x) seg = map_option encode_node (json_child x seg)"
    using assms by (cases "(x, seg)" rule: json_child.cases)
      (auto simp: pj1_get_array pj1_get_object pj1_get_other
        simp del: encode_node.simps json_sized.simps json_wf.simps json_child.simps(1,2))
  then show ?thesis using pj1_scalar_encoded [OF assms] by blast
qed


text \<open>
  C34. Building an object keeps, for every key, the last binding of the source text; the keys of the result are
  strictly increasing and nothing else is in it.
\<close>

theorem canonical_object_last_wins:
  "canonical_object pairs = JObject ps \<Longrightarrow>
     sorted_wrt (\<lambda>k l. bytes_cmp k l = Less) (map fst ps) \<and> map_of ps = map_of (rev pairs) \<and> set ps \<subseteq> set pairs"
proof -
  assume "canonical_object pairs = JObject ps"
  then have ps: "ps = dedup_pairs (sort_pairs pairs)" by (simp add: canonical_object_def)
  have s: "sorted_wrt (\<lambda>k l. bytes_cmp k l = Less) (map fst ps)"
    unfolding ps by (rule dedup_pairs_strict [OF sort_pairs_keys_le])
  have "map_of ps = map_of (rev ps)"
    using map_of_distinct_rev [OF strict_keys_distinct [OF s]] by simp
  also have "\<dots> = map_of (rev pairs)"
    unfolding ps by (simp add: dedup_pairs_last sort_pairs_keys_le sort_pairs_last)
  finally show ?thesis
    using s set_dedup_pairs [of "sort_pairs pairs"] unfolding ps by (simp add: set_sort_pairs)
qed

subsection \<open>Concrete documents\<close>

text \<open>\<open>[1, 1.0]\<close>, \<open>{"a": null}\<close> and \<open>{"b": 1, "a": 2, "b": 3}\<close>.\<close>

definition doc_arr :: json where
  "doc_arr = JArray [JInt 1, JFloat 0x3FF0000000000000]"

definition doc_obj :: json where
  "doc_obj = JObject [([97], JNull)]"

definition doc_pairs :: "(bytes \<times> json) list" where
  "doc_pairs = [([98], JInt 1), ([97], JInt 2), ([98], JInt 3)]"

definition doc_canon :: "(bytes \<times> json) list" where
  "doc_canon = [([97], JInt 2), ([98], JInt 3)]"

lemma validates_doc:
  "json_wf x \<Longrightarrow> json_depth x \<le> MAX_DEPTH \<Longrightarrow> length (encode_node x) < 2 ^ 32 \<Longrightarrow> pj1_validate (encode_node x) = Inr ()"
  unfolding pj1_validate_iff using json_sizedI by blast

theorem pj1_cmp_total_order_witness:
  "pj1_validate (encode_node (JInt 1)) = Inr () \<and> pj1_validate (encode_node doc_arr) = Inr () \<and>
   pj1_validate (encode_node doc_obj) = Inr () \<and>
   (\<exists>r s. pj1_cmp (encode_node (JInt 1)) (encode_node doc_arr) = Some r \<and>
          pj1_cmp (encode_node doc_arr) (encode_node (JInt 1)) = Some (flip r) \<and>
          (r = Equal \<longleftrightarrow> encode_node (JInt 1) = encode_node doc_arr) \<and>
          pj1_cmp (encode_node doc_arr) (encode_node doc_obj) = Some s \<and>
          (r = Less \<and> s = Less \<longrightarrow> pj1_cmp (encode_node (JInt 1)) (encode_node doc_obj) = Some Less))"
proof -
  have wf_obj: "json_wf (JObject [([97], JNull)])" by code_simp
  have v: "pj1_validate (encode_node (JInt 1)) = Inr ()" "pj1_validate (encode_node doc_arr) = Inr ()"
    "pj1_validate (encode_node doc_obj) = Inr ()"
    using wf_obj by (intro validates_doc; simp add: doc_obj_def doc_arr_def is_finite_f64_def MAX_DEPTH_def Let_def interleave_def)+
  show ?thesis using pj1_cmp_total_order [OF v] v by blast
qed

theorem pj1_get_child_witness:
  "json_wf doc_obj \<and> json_sized doc_obj \<and>
   pj1_get (encode_node doc_obj) (PKey [97]) = map_option encode_node (json_child doc_obj (PKey [97])) \<and>
   pj1_scalar (encode_node doc_obj) = Inr (json_view doc_obj)"
proof -
  have w: "json_wf doc_obj" "json_sized doc_obj"
    by (code_simp, rule json_sizedI, simp add: doc_obj_def Let_def interleave_def)
  show ?thesis using pj1_get_child [OF w, of "PKey [97]"] w by blast
qed

theorem canonical_object_last_wins_witness:
  "canonical_object doc_pairs = JObject doc_canon \<and> sorted_wrt (\<lambda>k l. bytes_cmp k l = Less) (map fst doc_canon) \<and>
   map_of doc_canon = map_of (rev doc_pairs) \<and> set doc_canon \<subseteq> set doc_pairs"
proof -
  have c: "canonical_object doc_pairs = JObject doc_canon" by code_simp
  show ?thesis using canonical_object_last_wins [OF c] c by blast
qed

end
