(* ===== verification/Value_Cmp.thy ===== *)
theory Value_Cmp
  imports Pj1_Correct
begin

text \<open>
  \<open>PartialEq\<close> and \<open>Ord\<close> for \<open>Value\<close> (\<^verbatim>\<open>crates/storage/src/types.rs\<close>). Comparing JSON values runs the PJ1
  comparison, which need not return on malformed bytes. Within one type the comparison is a total
  order whose \<open>Equal\<close> is equality; across the numeric types it is not transitive.
\<close>

definition value_eq :: "val \<Rightarrow> val \<Rightarrow> bool" where
  "value_eq a b =
     (case (a, b) of
        (VInt x, VInt y) \<Rightarrow> x = y
      | (VFloat x, VFloat y) \<Rightarrow> total_cmp x y = Equal
      | (VBool x, VBool y) \<Rightarrow> x = y
      | (VStr x, VStr y) \<Rightarrow> x = y
      | (VDateTime x, VDateTime y) \<Rightarrow> x = y
      | (VUuid x, VUuid y) \<Rightarrow> x = y
      | (VBytes x, VBytes y) \<Rightarrow> x = y
      | (VJson x, VJson y) \<Rightarrow> x = y
      | (VEmpty, VEmpty) \<Rightarrow> True
      | _ \<Rightarrow> False)"

definition value_cmp :: "val \<Rightarrow> val \<Rightarrow> ordering run" where
  "value_cmp a b =
     (case (a, b) of
        (VInt x, VInt y) \<Rightarrow> Some (i64_cmp x y)
      | (VFloat x, VFloat y) \<Rightarrow> Some (total_cmp x y)
      | (VInt x, VFloat y) \<Rightarrow> Some (total_cmp (i64_to_f64 x) y)
      | (VFloat x, VInt y) \<Rightarrow> Some (total_cmp x (i64_to_f64 y))
      | (VBool x, VBool y) \<Rightarrow> Some (cmp_of x y)
      | (VStr x, VStr y) \<Rightarrow> Some (bytes_cmp x y)
      | (VDateTime x, VDateTime y) \<Rightarrow> Some (i64_cmp x y)
      | (VDateTime x, VInt y) \<Rightarrow> Some (i64_cmp x y)
      | (VInt x, VDateTime y) \<Rightarrow> Some (i64_cmp x y)
      | (VUuid x, VUuid y) \<Rightarrow> Some (bytes_cmp x y)
      | (VBytes x, VBytes y) \<Rightarrow> Some (bytes_cmp x y)
      | (VJson x, VJson y) \<Rightarrow> pj1_cmp x y
      | (VEmpty, VEmpty) \<Rightarrow> Some Equal
      | (VEmpty, _) \<Rightarrow> Some Less
      | (_, VEmpty) \<Rightarrow> Some Greater
      | _ \<Rightarrow> Some (cmp_of (type_id_to_u8 (type_id_of a)) (type_id_to_u8 (type_id_of b))))"

text \<open>The result of a comparison that returns.\<close>

definition vcmp :: "val \<Rightarrow> val \<Rightarrow> ordering" where
  "vcmp a b = (case value_cmp a b of None \<Rightarrow> Equal | Some r \<Rightarrow> r)"

text \<open>The values of one type, as a column or an index stores them.\<close>

definition keys_of :: "type_id \<Rightarrow> val set" where
  "keys_of t = {v. type_id_of v = t \<and> (\<forall>b. v = VJson b \<longrightarrow> pj1_validate b = Inr ())}"

lemma value_eq_iff: "value_eq a b \<longleftrightarrow> a = b"
  by (cases a; cases b) (simp_all add: value_eq_def f64_order.cmp_Equal)

lemma keys_of_cases:
  assumes "v \<in> keys_of t"
  obtains (Int) i where "t = TInt" "v = VInt i" | (Float) f where "t = TFloat" "v = VFloat f"
    | (Bool) b where "t = TBool" "v = VBool b" | (Str) s where "t = TStr" "v = VStr s"
    | (DateTime) d where "t = TDateTime" "v = VDateTime d" | (Uuid) u where "t = TUuid" "v = VUuid u"
    | (Bytes) b where "t = TBytes" "v = VBytes b"
    | (Json) j where "t = TJson" "v = VJson j" "pj1_validate j = Inr ()" | (Empty) "t = TEmpty" "v = VEmpty"
  using assms by (cases v) (auto simp: keys_of_def)

text \<open>
  Accepted documents are ordered by their trees, so the order of JSON keys is the order of documents.
\<close>

lemma pj1_cmp_accepted:
  assumes "pj1_validate a = Inr ()" and "pj1_validate b = Inr ()"
  obtains x y where "a = encode_node x" "b = encode_node y" "pj1_cmp a b = Some (json_cmp x y)" "a = b \<longleftrightarrow> x = y"
proof -
  obtain x y where w: "json_wf x" "json_sized x" "json_wf y" "json_sized y"
    and e: "a = encode_node x" "b = encode_node y"
    using assms unfolding pj1_validate_iff by blast
  have "a = b \<longleftrightarrow> x = y"
    using pj1_cmp_encoded [OF w] pj1_cmp_encoded [OF w(1,2,1,2)] e json_cmp_Equal [of x x] json_cmp_Equal [of x y] by auto
  then show ?thesis using that e pj1_cmp_encoded [OF w] by blast
qed

lemma value_cmp_returns:
  assumes "a \<in> keys_of t" and "b \<in> keys_of u"
  shows "value_cmp a b = Some (vcmp a b)"
proof (cases "\<exists>i j. a = VJson i \<and> b = VJson j")
  case True
  then obtain i j where e: "a = VJson i" "b = VJson j" by blast
  then have "pj1_validate i = Inr ()" "pj1_validate j = Inr ()"
    using assms by (auto simp: keys_of_def)
  then obtain x y where "pj1_cmp i j = Some (json_cmp x y)" by (rule pj1_cmp_accepted)
  then show ?thesis using e by (simp add: vcmp_def value_cmp_def)
next
  case False
  then have "\<exists>r. value_cmp a b = Some r" by (cases a; cases b) (simp_all add: value_cmp_def)
  then show ?thesis by (auto simp: vcmp_def)
qed

lemma json_keys_order: "cmp_order (\<lambda>a b. case pj1_cmp a b of None \<Rightarrow> Equal | Some r \<Rightarrow> r) {b. pj1_validate b = Inr ()}"
proof
  fix a b c
  assume "a \<in> {b. pj1_validate b = Inr ()}" and "b \<in> {b. pj1_validate b = Inr ()}"
  then have v: "pj1_validate a = Inr ()" "pj1_validate b = Inr ()" by auto
  obtain x y where xy: "a = encode_node x" "b = encode_node y" "json_wf x" "json_sized x" "json_wf y" "json_sized y"
    using v unfolding pj1_validate_iff by blast
  note cmp = pj1_cmp_encoded [OF xy(3-6)] pj1_cmp_encoded [OF xy(5,6,3,4)] pj1_cmp_encoded [OF xy(3,4,3,4)]
  show "(case pj1_cmp a b of None \<Rightarrow> Equal | Some r \<Rightarrow> r) = Equal \<longleftrightarrow> a = b"
    using cmp xy(1,2) json_cmp_Equal [of x x] json_cmp_Equal [of x y] by auto
  show "(case pj1_cmp b a of None \<Rightarrow> Equal | Some r \<Rightarrow> r) = flip (case pj1_cmp a b of None \<Rightarrow> Equal | Some r \<Rightarrow> r)"
    using cmp xy(1,2) json_cmp_flip [of y x] by simp
  assume "c \<in> {b. pj1_validate b = Inr ()}"
  then obtain z where z: "c = encode_node z" "json_wf z" "json_sized z"
    unfolding pj1_validate_iff by blast
  assume "(case pj1_cmp a b of None \<Rightarrow> Equal | Some r \<Rightarrow> r) = Less" "(case pj1_cmp b c of None \<Rightarrow> Equal | Some r \<Rightarrow> r) = Less"
  then show "(case pj1_cmp a c of None \<Rightarrow> Equal | Some r \<Rightarrow> r) = Less"
    using cmp xy(1,2) z pj1_cmp_encoded [OF xy(5,6) z(2,3)] pj1_cmp_encoded [OF xy(3,4) z(2,3)] json_cmp_trans [of x y z]
    by simp
qed

lemma cmp_order_image:
  assumes "cmp_order c K" and "\<And>x y. cmp (f x) (f y) = c x y" and "\<And>x y. f x = f y \<longleftrightarrow> x = y"
  shows "cmp_order cmp (f ` K)"
proof -
  from assms(1) have *: "\<And>a b. a \<in> K \<Longrightarrow> b \<in> K \<Longrightarrow> c a b = Equal \<longleftrightarrow> a = b"
      "\<And>a b. a \<in> K \<Longrightarrow> b \<in> K \<Longrightarrow> c b a = flip (c a b)"
      "\<And>a b d. a \<in> K \<Longrightarrow> b \<in> K \<Longrightarrow> d \<in> K \<Longrightarrow> c a b = Less \<Longrightarrow> c b d = Less \<Longrightarrow> c a d = Less"
    unfolding cmp_order_def by blast+
  show ?thesis
    by unfold_locales (auto simp: assms(2,3) *(1) intro: *(2,3))
qed

lemma keys_of_image:
  "keys_of TInt = range VInt" "keys_of TFloat = range VFloat" "keys_of TBool = range VBool"
  "keys_of TStr = range VStr" "keys_of TDateTime = range VDateTime" "keys_of TUuid = range VUuid"
  "keys_of TBytes = range VBytes" "keys_of TJson = VJson ` {b. pj1_validate b = Inr ()}" "keys_of TEmpty = {VEmpty}"
  by (auto simp: keys_of_def elim!: type_id_of.elims)

text \<open>Within one type, \<open>Value::cmp\<close> is a total order whose \<open>Equal\<close> is \<open>PartialEq\<close>.\<close>

lemma keys_of_order: "cmp_order vcmp (keys_of t)"
proof (cases t)
  case TEmpty
  show ?thesis unfolding TEmpty keys_of_image by unfold_locales (auto simp: vcmp_def value_cmp_def)
next
  case TInt
  show ?thesis
    unfolding TInt keys_of_image by (rule cmp_order_image [OF i64_order.cmp_order_axioms]) (simp_all add: vcmp_def value_cmp_def)
next
  case TFloat
  show ?thesis
    unfolding TFloat keys_of_image by (rule cmp_order_image [OF f64_order.cmp_order_axioms]) (simp_all add: vcmp_def value_cmp_def)
next
  case TBool
  show ?thesis
    unfolding TBool keys_of_image by (rule cmp_order_image [OF cmp_order_cmp_of]) (simp_all add: vcmp_def value_cmp_def)
next
  case TStr
  show ?thesis
    unfolding TStr keys_of_image by (rule cmp_order_image [OF bytes_order.cmp_order_axioms]) (simp_all add: vcmp_def value_cmp_def)
next
  case TDateTime
  show ?thesis
    unfolding TDateTime keys_of_image by (rule cmp_order_image [OF i64_order.cmp_order_axioms]) (simp_all add: vcmp_def value_cmp_def)
next
  case TUuid
  show ?thesis
    unfolding TUuid keys_of_image by (rule cmp_order_image [OF bytes_order.cmp_order_axioms]) (simp_all add: vcmp_def value_cmp_def)
next
  case TBytes
  show ?thesis
    unfolding TBytes keys_of_image by (rule cmp_order_image [OF bytes_order.cmp_order_axioms]) (simp_all add: vcmp_def value_cmp_def)
next
  case TJson
  show ?thesis
    unfolding TJson keys_of_image by (rule cmp_order_image [OF json_keys_order]) (simp_all add: vcmp_def value_cmp_def)
qed

text \<open>
  C35. Within one type, comparing values returns and is a total order whose \<open>Equal\<close> is equality of
  values. Across types it is not an order: the float 100.0, the timestamp 1 and the integer 2 are each
  less than the next, in a cycle.
\<close>

theorem value_cmp_order:
  assumes "a \<in> keys_of t" and "b \<in> keys_of t" and "c \<in> keys_of t"
  shows "(\<exists>r. value_cmp a b = Some r \<and> value_cmp b a = Some (flip r) \<and> (r = Equal \<longleftrightarrow> value_eq a b)) \<and>
         (value_cmp a b = Some Less \<and> value_cmp b c = Some Less \<longrightarrow> value_cmp a c = Some Less) \<and>
         value_cmp (VFloat 0x4059000000000000) (VDateTime 1) = Some Less \<and>
         value_cmp (VDateTime 1) (VInt 2) = Some Less \<and> value_cmp (VInt 2) (VFloat 0x4059000000000000) = Some Less"
proof -
  have "value_cmp (VFloat 0x4059000000000000) (VDateTime 1) = Some Less" "value_cmp (VDateTime 1) (VInt 2) = Some Less"
    by (simp_all add: value_cmp_def i64_cmp_def)
  moreover have "value_cmp (VInt 2) (VFloat 0x4059000000000000) = Some Less"
  proof -
    have "total_key (i64_to_f64 2) = 0x4000000000000000"
      unfolding total_key_i64_to_f64
      by (simp add: promoted_key_def magnitude_bits_def significand_def top_bit.simps [of 2] top_bit.simps [of "Suc 0"])
    moreover have "total_key 0x4059000000000000 = 0x4059000000000000"
      by (simp add: total_key_def)
    ultimately show ?thesis by (simp add: value_cmp_def total_cmp_def)
  qed
  moreover have "vcmp a b = Equal \<longleftrightarrow> a = b" "vcmp b a = flip (vcmp a b)"
      "vcmp a b = Less \<Longrightarrow> vcmp b c = Less \<Longrightarrow> vcmp a c = Less"
    using assms keys_of_order [of t] unfolding cmp_order_def by blast+
  ultimately show ?thesis
    unfolding value_cmp_returns [OF assms(1,2)] value_cmp_returns [OF assms(2,1)] value_cmp_returns [OF assms(2,3)]
      value_cmp_returns [OF assms(1,3)] value_eq_iff by simp
qed


theorem value_cmp_order_witness:
  "VInt 1 \<in> keys_of TInt \<and> VInt 2 \<in> keys_of TInt \<and> VInt 3 \<in> keys_of TInt \<and>
   (\<exists>r. value_cmp (VInt 1) (VInt 2) = Some r \<and> value_cmp (VInt 2) (VInt 1) = Some (flip r) \<and>
        (r = Equal \<longleftrightarrow> value_eq (VInt 1) (VInt 2)))"
proof -
  have k: "VInt 1 \<in> keys_of TInt" "VInt 2 \<in> keys_of TInt" "VInt 3 \<in> keys_of TInt"
    by (simp_all add: keys_of_def)
  show ?thesis using value_cmp_order [OF k] k by blast
qed

end
