(* ===== verification/Slice_Search.thy ===== *)
theory Slice_Search
  imports Value_Cmp
begin

text \<open>
  Binary search on slices as the standard library does it: the loop halves a window of \<open>sz\<close> elements at
  \<open>base\<close>, and \<open>partition_point\<close> is the search for the first element that fails the predicate.
\<close>

function search_loop :: "('a \<Rightarrow> ordering) \<Rightarrow> 'a list \<Rightarrow> nat \<Rightarrow> nat \<Rightarrow> nat" where
  "search_loop f xs base sz =
     (if sz > 1 then
        let half = sz div 2; mid = base + half in
        search_loop f xs (if f (xs ! mid) = Greater then base else mid) (sz - half)
      else base)"
  by pat_completeness auto
termination
  by (relation "measure (\<lambda>(f, xs, base, sz). sz)") auto

declare search_loop.simps [simp del]

text \<open>\<open>Ok(i)\<close> is \<open>Inr i\<close>.\<close>

definition binary_search_by :: "('a \<Rightarrow> ordering) \<Rightarrow> 'a list \<Rightarrow> nat + nat" where
  "binary_search_by f xs =
     (if xs = [] then Inl 0
      else let base = search_loop f xs 0 (length xs); c = f (xs ! base) in
        if c = Equal then Inr base else Inl (base + (if c = Less then 1 else 0)))"

definition partition_point :: "('a \<Rightarrow> bool) \<Rightarrow> 'a list \<Rightarrow> nat" where
  "partition_point P xs = (case binary_search_by (\<lambda>x. if P x then Less else Greater) xs of Inr i \<Rightarrow> i | Inl i \<Rightarrow> i)"

text \<open>A slice that is partitioned: a prefix satisfies the predicate and nothing behind it does.\<close>

definition partitioned :: "('a \<Rightarrow> bool) \<Rightarrow> 'a list \<Rightarrow> bool" where
  "partitioned P xs \<longleftrightarrow> (\<forall>i j. i < j \<and> j < length xs \<and> P (xs ! j) \<longrightarrow> P (xs ! i))"

definition point_of :: "('a \<Rightarrow> bool) \<Rightarrow> 'a list \<Rightarrow> nat" where
  "point_of P xs = length (takeWhile P xs)"

lemma point_of_le: "point_of P xs \<le> length xs"
  by (simp add: point_of_def length_takeWhile_le)

lemma partitioned_iff: "partitioned P xs \<Longrightarrow> i < length xs \<Longrightarrow> P (xs ! i) \<longleftrightarrow> i < point_of P xs"
proof
  assume p: "partitioned P xs" and i: "i < length xs" and "P (xs ! i)"
  show "i < point_of P xs"
  proof (rule ccontr)
    assume "\<not> i < point_of P xs"
    then have l: "point_of P xs \<le> i" by simp
    then have "\<not> P (xs ! point_of P xs)"
      using nth_length_takeWhile [of P xs] i by (simp add: point_of_def)
    then show False
      using p l i \<open>P (xs ! i)\<close> unfolding partitioned_def by (metis le_neq_implies_less)
  qed
next
  assume "i < point_of P xs"
  then show "P (xs ! i)"
    using set_takeWhileD [of "xs ! i" P xs] takeWhile_nth [of i P xs] nth_mem [of i "takeWhile P xs"]
    by (simp add: point_of_def)
qed

text \<open>The loop keeps the last element that is not \<open>Greater\<close> in its window.\<close>

lemma search_loop_spec:
  assumes "\<And>i. i < length xs \<Longrightarrow> f (xs ! i) \<noteq> Greater \<longleftrightarrow> i < n" and "n \<le> length xs"
    and "base + sz \<le> length xs" and "0 < sz" and "base = 0 \<or> base < n" and "n \<le> base + sz"
  shows "search_loop f xs base sz = n - 1"
  using assms(3-)
proof (induction sz arbitrary: base rule: less_induct)
  case (less sz)
  show ?case
  proof (cases "sz > 1")
    case True
    let ?half = "sz div 2"
    have h: "0 < ?half" "?half < sz" "base + ?half < length xs" "sz - ?half \<le> sz" "?half \<le> sz - ?half"
      using True less.prems(1) by auto
    have g: "f (xs ! (base + ?half)) = Greater \<longleftrightarrow> n \<le> base + ?half"
      using assms(1) [OF h(3)] by (auto simp: not_less)
    have "search_loop f xs (if f (xs ! (base + ?half)) = Greater then base else base + ?half) (sz - ?half) = n - 1"
      using h less.prems g by (intro less.IH) auto
    then show ?thesis using True by (simp add: search_loop.simps [of f xs base sz] Let_def)
  next
    case False
    then have "sz = 1" using less.prems(2) by simp
    then have "base = n - 1" using less.prems(3,4) by auto
    moreover have "search_loop f xs base sz = base"
      using False by (subst search_loop.simps) simp
    ultimately show ?thesis by simp
  qed
qed

lemma partition_point_eq: "partitioned P xs \<Longrightarrow> partition_point P xs = point_of P xs"
proof (cases "xs = []")
  case True
  then show ?thesis by (simp add: partition_point_def binary_search_by_def point_of_def)
next
  case False
  assume p: "partitioned P xs"
  let ?f = "\<lambda>x. if P x then Less else Greater" and ?n = "point_of P xs"
  have s: "search_loop ?f xs 0 (length xs) = ?n - 1"
    using partitioned_iff [OF p] point_of_le [of P xs] False by (intro search_loop_spec) auto
  show ?thesis
  proof (cases "?n = 0")
    case True
    then have "\<not> P (xs ! 0)" using partitioned_iff [OF p, of 0] False by simp
    then show ?thesis
      using True s False by (simp add: partition_point_def binary_search_by_def Let_def)
  next
    case n: False
    then have "P (xs ! (?n - 1))"
      using partitioned_iff [OF p, of "?n - 1"] point_of_le [of P xs] False by simp
    then show ?thesis
      using n s False by (simp add: partition_point_def binary_search_by_def Let_def)
  qed
qed

text \<open>In a strictly sorted slice, a binary search finds the position of an element that is there.\<close>

lemma binary_search_by_spec:
  assumes lt: "\<And>i. i < length xs \<Longrightarrow> f (xs ! i) = Less \<longleftrightarrow> i < k" and k: "k \<le> length xs"
    and gt: "\<And>i. i < length xs \<Longrightarrow> f (xs ! i) = Greater \<longleftrightarrow> (if e then k < i else k \<le> i)" and e: "e \<Longrightarrow> k < length xs"
  shows "binary_search_by f xs = (if e then Inr k else Inl k)"
proof (cases "xs = []")
  case True
  then show ?thesis using k e by (auto simp: binary_search_by_def)
next
  case False
  let ?n = "if e then Suc k else k"
  have s: "search_loop f xs 0 (length xs) = ?n - 1"
    using gt k e False by (intro search_loop_spec) (auto simp: not_less)
  show ?thesis
  proof (cases e)
    case True
    then have "f (xs ! k) = Equal"
      using lt [of k] gt [of k] e by (cases "f (xs ! k)") auto
    then show ?thesis using True s False by (simp add: binary_search_by_def Let_def)
  next
    case ne: False
    show ?thesis
    proof (cases "k = 0")
      case True
      then have "f (xs ! 0) = Greater" using gt [of 0] ne False by simp
      then show ?thesis using True ne s False by (simp add: binary_search_by_def Let_def)
    next
      case k0: False
      then have "f (xs ! (k - 1)) = Less" using lt [of "k - 1"] k False by simp
      then show ?thesis using k0 ne s False by (simp add: binary_search_by_def Let_def)
    qed
  qed
qed


lemma take_point: "x \<in> set (take (point_of P xs) xs) \<Longrightarrow> P x"
  unfolding point_of_def by (metis set_takeWhileD takeWhile_eq_take)

lemma drop_point: "partitioned P xs \<Longrightarrow> x \<in> set (drop (point_of P xs) xs) \<Longrightarrow> \<not> P x"
  using partitioned_iff [of P xs] by (auto simp: in_set_conv_nth less_diff_conv add.commute)

end
