(* ===== verification/Btree.thy ===== *)
theory Btree
  imports Slice_Search
begin

text \<open>
  The B+ tree index (\<^verbatim>\<open>crates/storage/src/btree.rs\<close>). Nodes live in a vector and refer to each other by
  index, so a node store is a list and every access is checked: \<open>None\<close> is a panic or a walk that does not
  end. The descent to a leaf, the walk along the leaf chain and the recursive insert follow stored
  indices and are partial functions. Counters are \<open>nat\<close>: they count entries that are in memory. The
  path of the backing file is not part of the state.
\<close>

definition ORDER :: nat where
  "ORDER = 256"

datatype node =
    Internal "val list" "nat list"
  | Leaf "val list" "row_id list" "nat option"

datatype key_kind = Raw | Composite

record btree =
  bt_nodes :: "node list"
  bt_root :: nat
  bt_dirty :: bool
  bt_version :: u16
  bt_empty_rids :: "row_id list"
  bt_total :: nat
  bt_distinct :: nat
  bt_kind :: key_kind

record index_stats =
  st_total :: nat
  st_distinct :: nat
  st_empty :: nat

definition LEGACY_BTREE_VERSION :: u16 where "LEGACY_BTREE_VERSION = 1"
definition EXPRESSION_BTREE_VERSION :: u16 where "EXPRESSION_BTREE_VERSION = 2"
definition BTREE_VERSION :: u16 where "BTREE_VERSION = 3"

definition bt_create :: btree where
  "bt_create = \<lparr>bt_nodes = [Leaf [] [] None], bt_root = 0, bt_dirty = False, bt_version = LEGACY_BTREE_VERSION,
     bt_empty_rids = [], bt_total = 0, bt_distinct = 0, bt_kind = Raw\<rparr>"

definition bt_create_v2 :: btree where
  "bt_create_v2 = bt_create\<lparr>bt_version := EXPRESSION_BTREE_VERSION\<rparr>"

definition bt_create_non_unique :: btree where
  "bt_create_non_unique = bt_create\<lparr>bt_version := BTREE_VERSION, bt_kind := Composite\<rparr>"

definition bt_stats :: "btree \<Rightarrow> index_stats" where
  "bt_stats t = \<lparr>st_total = bt_total t, st_distinct = bt_distinct t, st_empty = length (bt_empty_rids t)\<rparr>"

text \<open>\<open>(page_id, slot_index)\<close> pairs compare lexicographically.\<close>

definition rid_lt :: "row_id \<Rightarrow> row_id \<Rightarrow> bool" where
  "rid_lt a b \<longleftrightarrow> rid_page a < rid_page b \<or> rid_page a = rid_page b \<and> rid_slot a < rid_slot b"

definition rid_cmp :: "row_id \<Rightarrow> row_id \<Rightarrow> ordering" where
  "rid_cmp a b = then_cmp (cmp_of (rid_page a) (rid_page b)) (cmp_of (rid_slot a) (rid_slot b))"

text \<open>\<open>Vec::insert\<close> and \<open>Vec::remove\<close>, which panic out of range.\<close>

definition vec_insert :: "nat \<Rightarrow> 'a \<Rightarrow> 'a list \<Rightarrow> 'a list run" where
  "vec_insert i x xs = (if i \<le> length xs then Some (take i xs @ x # drop i xs) else None)"

definition vec_remove :: "nat \<Rightarrow> 'a list \<Rightarrow> 'a list run" where
  "vec_remove i xs = (if i < length xs then Some (take i xs @ drop (Suc i) xs) else None)"

definition u64_to_be :: "u64 \<Rightarrow> bytes" where
  "u64_to_be w = rev (u64_to_le w)"

definition u64_from_be :: "bytes \<Rightarrow> u64" where
  "u64_from_be bs = u64_from_le (rev bs)"

subsection \<open>Descent and leaf chain\<close>

definition pick_le :: "val \<Rightarrow> val list \<Rightarrow> nat" where
  "pick_le key ks = partition_point (\<lambda>k. vcmp k key \<noteq> Greater) ks"

definition pick_lt :: "val \<Rightarrow> val list \<Rightarrow> nat" where
  "pick_lt key ks = partition_point (\<lambda>k. vcmp k key = Less) ks"

definition pick_first :: "val list \<Rightarrow> nat" where
  "pick_first ks = 0"

partial_function (option) descend :: "(val list \<Rightarrow> nat) \<Rightarrow> node list \<Rightarrow> nat \<Rightarrow> nat run" where
  "descend pick ns i =
     Option.bind (index_run ns i) (\<lambda>n.
     case n of
       Leaf ks vs nxt \<Rightarrow> Some i
     | Internal ks cs \<Rightarrow> Option.bind (index_run cs (pick ks)) (\<lambda>c. descend pick ns c))"

text \<open>
  \<open>while let Some(id) = current\<close> over the leaf chain. The body gets the leaf and answers with the new
  state and whether to stop; \<open>on_internal\<close> is what meeting an internal node does.
\<close>

partial_function (option) walk_leaves ::
  "('s \<Rightarrow> val list \<Rightarrow> row_id list \<Rightarrow> ('s \<times> bool) run) \<Rightarrow> ('s \<Rightarrow> 's run) \<Rightarrow> node list \<Rightarrow> nat option \<Rightarrow> 's \<Rightarrow> 's run" where
  "walk_leaves body on_internal ns cur s =
     (case cur of
        None \<Rightarrow> Some s
      | Some i \<Rightarrow>
          Option.bind (index_run ns i) (\<lambda>n.
          case n of
            Internal ks cs \<Rightarrow> on_internal s
          | Leaf ks vs nxt \<Rightarrow>
              Option.bind (body s ks vs) (\<lambda>(s', stop).
              if stop then Some s' else walk_leaves body on_internal ns nxt s')))"


text \<open>
  A leaf body for loops over \<open>(key, values[i])\<close>: \<open>step\<close> answers with the new state and whether to stop. Every
  leaf has as many values as keys; one that has fewer counts as a panic.
\<close>

fun leaf_loop :: "('s \<Rightarrow> val \<Rightarrow> row_id \<Rightarrow> 's \<times> bool) \<Rightarrow> 's \<Rightarrow> val list \<Rightarrow> row_id list \<Rightarrow> 's \<times> bool" where
  "leaf_loop step s (k # ks) (v # vs) =
     (case step s k v of (s', stop) \<Rightarrow> if stop then (s', True) else leaf_loop step s' ks vs)"
| "leaf_loop step s _ _ = (s, False)"

definition leaf_body :: "('s \<Rightarrow> val \<Rightarrow> row_id \<Rightarrow> 's \<times> bool) \<Rightarrow> 's \<Rightarrow> val list \<Rightarrow> row_id list \<Rightarrow> ('s \<times> bool) run" where
  "leaf_body step s ks vs = (if length vs < length ks then None else Some (leaf_loop step s ks vs))"

definition scan_leaves :: "('s \<Rightarrow> val \<Rightarrow> row_id \<Rightarrow> 's \<times> bool) \<Rightarrow> ('s \<Rightarrow> 's run) \<Rightarrow> node list \<Rightarrow> nat \<Rightarrow> 's \<Rightarrow> 's run" where
  "scan_leaves step on_internal ns start s = walk_leaves (leaf_body step) on_internal ns (Some start) s"

subsection \<open>Counters\<close>

definition composite_prefix_bytes :: "val \<Rightarrow> bytes" where
  "composite_prefix_bytes key =
     (case key of VBytes b \<Rightarrow> if length b \<ge> 8 then take (length b - 8) b else [] | _ \<Rightarrow> [])"

text \<open>The state of \<open>recount\<close>: total, distinct, previous raw key and previous prefix.\<close>

definition recount_step ::
  "key_kind \<Rightarrow> nat \<times> nat \<times> val option \<times> bytes option \<Rightarrow> val \<Rightarrow> row_id \<Rightarrow> (nat \<times> nat \<times> val option \<times> bytes option) \<times> bool" where
  "recount_step kind = (\<lambda>(total, distinct, prev_raw, prev_prefix) key v.
     (case kind of
        Raw \<Rightarrow>
          if (case prev_raw of None \<Rightarrow> True | Some p \<Rightarrow> \<not> value_eq p key)
          then (total + 1, distinct + 1, Some key, prev_prefix)
          else (total + 1, distinct, prev_raw, prev_prefix)
      | Composite \<Rightarrow>
          if prev_prefix \<noteq> Some (composite_prefix_bytes key)
          then (total + 1, distinct + 1, prev_raw, Some (composite_prefix_bytes key))
          else (total + 1, distinct, prev_raw, prev_prefix),
      False))"

definition recount :: "btree \<Rightarrow> btree run" where
  "recount t =
     Option.bind (descend pick_first (bt_nodes t) (bt_root t)) (\<lambda>leaf.
     Option.bind (scan_leaves (recount_step (bt_kind t)) Some (bt_nodes t) leaf (0, 0, None, None))
       (\<lambda>(total, distinct, _, _). Some (t\<lparr>bt_total := total, bt_distinct := distinct\<rparr>)))"

definition mark_composite :: "btree \<Rightarrow> btree run" where
  "mark_composite t = recount (t\<lparr>bt_kind := Composite\<rparr>)"

text \<open>
  \<open>first_at_or_after key\<close>: the walk of \<open>composite_prefix_present\<close> and \<open>raw_key_present\<close> to the first key
  that is not less than \<open>key\<close>.
\<close>

definition first_at_or_after :: "btree \<Rightarrow> val \<Rightarrow> val option run" where
  "first_at_or_after t key =
     Option.bind (descend (pick_lt key) (bt_nodes t) (bt_root t)) (\<lambda>leaf.
     walk_leaves
       (\<lambda>s ks vs. let pos = pick_lt key ks in
          if pos < length ks then Some (Some (ks ! pos), True) else Some (s, False))
       (\<lambda>_. Some None) (bt_nodes t) (Some leaf) None)"

definition composite_prefix_present :: "btree \<Rightarrow> val \<Rightarrow> bool run" where
  "composite_prefix_present t composite =
     (case composite of
        VBytes b \<Rightarrow>
          if length b < 8 then Some False
          else
            let target = take (length b - 8) b in
            Option.bind (first_at_or_after t (VBytes (target @ u64_to_be 0))) (\<lambda>k.
            Some (case k of None \<Rightarrow> False | Some k \<Rightarrow> composite_prefix_bytes k = target))
      | _ \<Rightarrow> Some False)"

definition raw_key_present :: "btree \<Rightarrow> val \<Rightarrow> bool run" where
  "raw_key_present t key =
     Option.bind (first_at_or_after t key) (\<lambda>k. Some (case k of None \<Rightarrow> False | Some k \<Rightarrow> value_eq k key))"

subsection \<open>The side list of missing values\<close>

definition insert_empty :: "btree \<Rightarrow> row_id \<Rightarrow> btree" where
  "insert_empty t rid =
     (let es = bt_empty_rids t; pos = partition_point (\<lambda>e. rid_lt e rid) es in
      if pos < length es \<and> es ! pos = rid then t\<lparr>bt_dirty := True\<rparr>
      else t\<lparr>bt_dirty := True, bt_empty_rids := take pos es @ rid # drop pos es\<rparr>)"

definition delete_empty :: "btree \<Rightarrow> row_id \<Rightarrow> btree \<times> bool" where
  "delete_empty t rid =
     (let es = bt_empty_rids t; pos = partition_point (\<lambda>e. rid_lt e rid) es in
      if pos < length es \<and> es ! pos = rid
      then (t\<lparr>bt_dirty := True, bt_empty_rids := take pos es @ drop (Suc pos) es\<rparr>, True)
      else (t\<lparr>bt_dirty := True\<rparr>, False))"

subsection \<open>Insert\<close>

function dup_pos :: "val \<Rightarrow> row_id \<Rightarrow> val list \<Rightarrow> row_id list \<Rightarrow> nat \<Rightarrow> nat run" where
  "dup_pos key rid ks vs pos =
     (if pos < length ks \<and> value_eq (ks ! pos) key then
        Option.bind (index_run vs pos) (\<lambda>v.
        if rid_lt v rid then dup_pos key rid ks vs (pos + 1) else Some pos)
      else Some pos)"
  by pat_completeness auto
termination
  by (relation "measure (\<lambda>(key, rid, ks, vs, pos). length ks - pos)") auto

declare dup_pos.simps [simp del]

text \<open>
  Inserting at \<open>pos\<close> of leaf \<open>i\<close>, with the split of an overfull leaf: the upper half moves to a new node
  that takes over the leaf's successor. The result is the store and the separator and node to add to
  the parent.
\<close>

definition leaf_put :: "node list \<Rightarrow> nat \<Rightarrow> nat \<Rightarrow> val \<Rightarrow> row_id \<Rightarrow> (node list \<times> (val \<times> nat) option) run" where
  "leaf_put ns i pos key rid =
     Option.bind (index_run ns i) (\<lambda>n.
     case n of
       Internal _ _ \<Rightarrow> None
     | Leaf ks vs nxt \<Rightarrow>
         Option.bind (vec_insert pos key ks) (\<lambda>ks'.
         Option.bind (vec_insert pos rid vs) (\<lambda>vs'.
         if length ks' \<le> ORDER then Some (ns[i := Leaf ks' vs' nxt], None)
         else
           let mid = length ks' div 2; right = length ns in
           if length vs' < mid then None
           else Some (ns[i := Leaf (take mid ks') (take mid vs') (Some right)] @ [Leaf (drop mid ks') (drop mid vs') nxt],
                      Some (ks' ! mid, right)))))"

text \<open>Adding a separator and a child at \<open>pos\<close> of internal node \<open>i\<close>, with its split.\<close>

definition internal_put :: "node list \<Rightarrow> nat \<Rightarrow> nat \<Rightarrow> val \<Rightarrow> nat \<Rightarrow> (node list \<times> (val \<times> nat) option) run" where
  "internal_put ns i pos sep child =
     Option.bind (index_run ns i) (\<lambda>n.
     case n of
       Leaf _ _ _ \<Rightarrow> None
     | Internal ks cs \<Rightarrow>
         Option.bind (vec_insert pos sep ks) (\<lambda>ks'.
         Option.bind (vec_insert (pos + 1) child cs) (\<lambda>cs'.
         if length ks' \<le> ORDER then Some (ns[i := Internal ks' cs'], None)
         else
           let mid = length ks' div 2; right = length ns in
           if length cs' < mid + 1 then None
           else Some (ns[i := Internal (take mid ks') (take (mid + 1) cs')] @ [Internal (drop (mid + 1) ks') (drop (mid + 1) cs')],
                      Some (ks' ! mid, right)))))"

partial_function (option) insert_recursive ::
  "node list \<Rightarrow> nat \<Rightarrow> val \<Rightarrow> row_id \<Rightarrow> bool \<Rightarrow> (node list \<times> (val \<times> nat) option \<times> bool) run" where
  "insert_recursive ns i key rid replace_duplicate =
     Option.bind (index_run ns i) (\<lambda>n.
     case n of
       Leaf ks vs nxt \<Rightarrow>
         Option.bind (if replace_duplicate then Some (pick_lt key ks) else dup_pos key rid ks vs (pick_lt key ks)) (\<lambda>pos.
         if replace_duplicate \<and> pos < length ks \<and> value_eq (ks ! pos) key then
           (if pos < length vs then Some (ns[i := Leaf ks (vs[pos := rid]) nxt], None, True) else None)
         else Option.bind (leaf_put ns i pos key rid) (\<lambda>(ns', up). Some (ns', up, False)))
     | Internal ks cs \<Rightarrow>
         let pos = pick_le key ks in
         Option.bind (index_run cs pos) (\<lambda>c.
         Option.bind (insert_recursive ns c key rid replace_duplicate) (\<lambda>(ns', up, replaced).
         case up of
           None \<Rightarrow> Some (ns', None, replaced)
         | Some (sep, child) \<Rightarrow>
             Option.bind (internal_put ns' i pos sep child) (\<lambda>(ns'', up'). Some (ns'', up', replaced)))))"

text \<open>A split of the root adds a new root above both halves.\<close>

definition grow_root :: "btree \<Rightarrow> node list \<Rightarrow> (val \<times> nat) option \<Rightarrow> btree" where
  "grow_root t ns up =
     (case up of
        None \<Rightarrow> t\<lparr>bt_nodes := ns\<rparr>
      | Some (sep, child) \<Rightarrow> t\<lparr>bt_nodes := ns @ [Internal [sep] [bt_root t, child]], bt_root := length ns\<rparr>)"

definition bt_insert :: "btree \<Rightarrow> val \<Rightarrow> row_id \<Rightarrow> btree run" where
  "bt_insert t key rid =
     Option.bind (case bt_kind t of Raw \<Rightarrow> Some False | Composite \<Rightarrow> composite_prefix_present t key) (\<lambda>prefix_present.
     Option.bind (insert_recursive (bt_nodes t) (bt_root t) key rid True) (\<lambda>(ns, up, replaced).
     let t' = grow_root (t\<lparr>bt_dirty := True\<rparr>) ns up;
         distinct_added = (case bt_kind t of Raw \<Rightarrow> \<not> replaced | Composite \<Rightarrow> \<not> prefix_present)
     in Some (t'\<lparr>bt_total := (if replaced then bt_total t else bt_total t + 1),
                 bt_distinct := (if distinct_added then bt_distinct t + 1 else bt_distinct t)\<rparr>)))"

subsection \<open>Lookup and delete\<close>

definition binary_search :: "val list \<Rightarrow> val \<Rightarrow> nat + nat" where
  "binary_search ks key = binary_search_by (\<lambda>k. vcmp k key) ks"

definition bt_lookup :: "btree \<Rightarrow> val \<Rightarrow> row_id option run" where
  "bt_lookup t key =
     Option.bind (descend (pick_le key) (bt_nodes t) (bt_root t)) (\<lambda>i.
     Option.bind (index_run (bt_nodes t) i) (\<lambda>n.
     case n of
       Internal _ _ \<Rightarrow> None
     | Leaf ks vs nxt \<Rightarrow>
         (case binary_search ks key of
            Inl _ \<Rightarrow> Some None
          | Inr p \<Rightarrow> Option.bind (index_run vs p) (\<lambda>v. Some (Some v)))))"

definition leaf_remove :: "node list \<Rightarrow> nat \<Rightarrow> nat \<Rightarrow> node list run" where
  "leaf_remove ns i pos =
     Option.bind (index_run ns i) (\<lambda>n.
     case n of
       Internal _ _ \<Rightarrow> None
     | Leaf ks vs nxt \<Rightarrow>
         Option.bind (vec_remove pos ks) (\<lambda>ks'.
         Option.bind (vec_remove pos vs) (\<lambda>vs'. Some (ns[i := Leaf ks' vs' nxt]))))"

definition bt_delete :: "btree \<Rightarrow> val \<Rightarrow> (btree \<times> bool) run" where
  "bt_delete t key =
     Option.bind (descend (pick_le key) (bt_nodes t) (bt_root t)) (\<lambda>i.
     Option.bind (index_run (bt_nodes t) i) (\<lambda>n.
     case n of
       Internal _ _ \<Rightarrow> None
     | Leaf ks vs nxt \<Rightarrow>
         (case binary_search ks key of
            Inl _ \<Rightarrow> Some (t\<lparr>bt_dirty := True\<rparr>, False)
          | Inr p \<Rightarrow>
              Option.bind (leaf_remove (bt_nodes t) i p) (\<lambda>ns.
              let t' = t\<lparr>bt_dirty := True, bt_nodes := ns, bt_total := bt_total t - 1\<rparr> in
              Option.bind (case bt_kind t of
                             Raw \<Rightarrow> Some True
                           | Composite \<Rightarrow> Option.bind (composite_prefix_present t' key) (\<lambda>p. Some (\<not> p)))
                (\<lambda>distinct_gone.
              Some (t'\<lparr>bt_distinct := (if distinct_gone then bt_distinct t - 1 else bt_distinct t)\<rparr>, True))))))"

end
