(* ===== verification/Btree_Dup.thy ===== *)
theory Btree_Dup
  imports Btree
begin

text \<open>
  The operations of the B+ tree that allow equal keys (expression indexes), the scans, the fast paths for
  integer keys and the composite keys of non-unique column indexes.
\<close>

subsection \<open>Scans\<close>

definition range_step :: "val \<Rightarrow> val \<Rightarrow> (val \<times> row_id) list \<Rightarrow> val \<Rightarrow> row_id \<Rightarrow> (val \<times> row_id) list \<times> bool" where
  "range_step start stop acc k v =
     (if vcmp k stop = Greater then (acc, True)
      else if vcmp k start \<noteq> Less then (acc @ [(k, v)], False) else (acc, False))"

definition bt_range :: "btree \<Rightarrow> val \<Rightarrow> val \<Rightarrow> (val \<times> row_id) list run" where
  "bt_range t start stop =
     Option.bind (descend (pick_le start) (bt_nodes t) (bt_root t)) (\<lambda>leaf.
     scan_leaves (range_step start stop) Some (bt_nodes t) leaf [])"

definition range_from :: "btree \<Rightarrow> val \<Rightarrow> (val \<times> row_id) list run" where
  "range_from t start =
     Option.bind (descend (pick_le start) (bt_nodes t) (bt_root t)) (\<lambda>leaf.
     scan_leaves (\<lambda>acc k v. if vcmp k start \<noteq> Less then (acc @ [(k, v)], False) else (acc, False))
       Some (bt_nodes t) leaf [])"

definition range_to :: "btree \<Rightarrow> val \<Rightarrow> (val \<times> row_id) list run" where
  "range_to t stop =
     Option.bind (descend pick_first (bt_nodes t) (bt_root t)) (\<lambda>leaf.
     scan_leaves (\<lambda>acc k v. if vcmp k stop = Greater then (acc, True) else (acc @ [(k, v)], False))
       Some (bt_nodes t) leaf [])"

definition bt_len :: "btree \<Rightarrow> nat run" where
  "bt_len t =
     Option.bind (descend pick_first (bt_nodes t) (bt_root t)) (\<lambda>leaf.
     walk_leaves (\<lambda>n ks vs. Some (n + length ks, False)) Some (bt_nodes t) (Some leaf) 0)"

definition bt_is_empty :: "btree \<Rightarrow> bool run" where
  "bt_is_empty t = Option.bind (bt_len t) (\<lambda>n. Some (n = 0))"

text \<open>\<open>count_range_capped\<close>: the count, and whether the walk returned early.\<close>

definition count_range_capped :: "btree \<Rightarrow> val \<Rightarrow> val \<Rightarrow> nat \<Rightarrow> nat run" where
  "count_range_capped t start stop cap =
     (if cap = 0 then Some 0
      else
        Option.bind (descend (pick_le start) (bt_nodes t) (bt_root t)) (\<lambda>leaf.
        scan_leaves (\<lambda>n k v.
            if vcmp k stop = Greater then (n, True)
            else if vcmp k start \<noteq> Less then (n + 1, n + 1 \<ge> cap) else (n, False))
          Some (bt_nodes t) leaf 0))"

definition count_key_capped :: "btree \<Rightarrow> val \<Rightarrow> nat \<Rightarrow> nat run" where
  "count_key_capped t key cap = count_range_capped t key key cap"

subsection \<open>Equal keys\<close>

definition lookup_all :: "btree \<Rightarrow> val \<Rightarrow> row_id list run" where
  "lookup_all t key =
     (if value_is_empty key then Some []
      else
        Option.bind (descend (pick_lt key) (bt_nodes t) (bt_root t)) (\<lambda>leaf.
        scan_leaves (\<lambda>acc k v.
            case vcmp k key of Less \<Rightarrow> (acc, False) | Equal \<Rightarrow> (acc @ [v], False) | Greater \<Rightarrow> (acc, True))
          (\<lambda>_. None) (bt_nodes t) leaf []))"

text \<open>\<open>sort_by\<close> is stable; the comparison is by key, then row id.\<close>

definition pair_cmp :: "val \<times> row_id \<Rightarrow> val \<times> row_id \<Rightarrow> ordering" where
  "pair_cmp a b = then_cmp (vcmp (fst a) (fst b)) (rid_cmp (snd a) (snd b))"

fun insert_by :: "('a \<Rightarrow> 'a \<Rightarrow> ordering) \<Rightarrow> 'a \<Rightarrow> 'a list \<Rightarrow> 'a list" where
  "insert_by c x [] = [x]"
| "insert_by c x (y # ys) = (if c x y = Greater then y # insert_by c x ys else x # y # ys)"

definition sort_by :: "('a \<Rightarrow> 'a \<Rightarrow> ordering) \<Rightarrow> 'a list \<Rightarrow> 'a list" where
  "sort_by c xs = foldr (insert_by c) xs []"

definition ordered_pairs :: "btree \<Rightarrow> (val \<times> row_id) list run" where
  "ordered_pairs t =
     Option.bind (descend pick_first (bt_nodes t) (bt_root t)) (\<lambda>leaf.
     Option.bind (scan_leaves (\<lambda>acc k v. (acc @ [(k, v)], False)) (\<lambda>_. None) (bt_nodes t) leaf []) (\<lambda>pairs.
     Some (sort_by pair_cmp pairs)))"

definition ordered_pairs_nulls_last :: "btree \<Rightarrow> (val \<times> row_id) list run" where
  "ordered_pairs_nulls_last t =
     Option.bind (ordered_pairs t) (\<lambda>pairs. Some (pairs @ map (\<lambda>rid. (VEmpty, rid)) (bt_empty_rids t)))"

definition raw_range_rids :: "btree \<Rightarrow> val option \<Rightarrow> val option \<Rightarrow> row_id list run" where
  "raw_range_rids t start stop =
     Option.bind (ordered_pairs t) (\<lambda>pairs.
     Some (map snd (filter (\<lambda>(k, _). case stop of None \<Rightarrow> True | Some b \<Rightarrow> vcmp k b \<noteq> Greater)
                   (filter (\<lambda>(k, _). case start of None \<Rightarrow> True | Some b \<Rightarrow> vcmp k b \<noteq> Less) pairs))))"

definition ordered_rids_nulls_last :: "btree \<Rightarrow> row_id list run" where
  "ordered_rids_nulls_last t = Option.bind (ordered_pairs_nulls_last t) (\<lambda>pairs. Some (map snd pairs))"

definition last_rid_for_raw_key :: "btree \<Rightarrow> val \<Rightarrow> row_id option run" where
  "last_rid_for_raw_key t key =
     Option.bind (descend (pick_le key) (bt_nodes t) (bt_root t)) (\<lambda>i.
     Option.bind (index_run (bt_nodes t) i) (\<lambda>n.
     case n of
       Internal _ _ \<Rightarrow> None
     | Leaf ks vs nxt \<Rightarrow>
         let pos = pick_le key ks in
         if pos = 0 \<or> \<not> value_eq (ks ! (pos - 1)) key then Some None
         else Option.bind (index_run vs (pos - 1)) (\<lambda>v. Some (Some v))))"

text \<open>The loop that inserts sorted pairs into a fresh tree.\<close>

fun rebuild :: "btree \<Rightarrow> (val \<times> row_id) list \<Rightarrow> btree run" where
  "rebuild t [] = Some t"
| "rebuild t ((key, rid) # pairs) =
     Option.bind (insert_recursive (bt_nodes t) (bt_root t) key rid False) (\<lambda>(ns, up, _).
     rebuild (grow_root t ns up) pairs)"

definition insert_duplicate :: "btree \<Rightarrow> val \<Rightarrow> row_id \<Rightarrow> btree run" where
  "insert_duplicate t key rid =
     (if value_is_empty key then Some (insert_empty t rid)
      else
        Option.bind (last_rid_for_raw_key t key) (\<lambda>last_rid.
        if last_rid = Some rid then Some t
        else if (case last_rid of None \<Rightarrow> False | Some l \<Rightarrow> rid_lt rid l) then
          Option.bind (lookup_all t key) (\<lambda>existing.
          if rid \<in> set existing then Some t
          else
            Option.bind (ordered_pairs t) (\<lambda>pairs.
            Option.bind (rebuild (t\<lparr>bt_nodes := [Leaf [] [] None], bt_root := 0\<rparr>) (sort_by pair_cmp (pairs @ [(key, rid)]))) (\<lambda>t'.
            recount (t'\<lparr>bt_dirty := True\<rparr>))))
        else
          Option.bind (raw_key_present t key) (\<lambda>present.
          Option.bind (insert_recursive (bt_nodes t) (bt_root t) key rid False) (\<lambda>(ns, up, _).
          let t' = grow_root (t\<lparr>bt_dirty := True\<rparr>) ns up in
          Some (t'\<lparr>bt_total := bt_total t + 1,
                  bt_distinct := (if present then bt_distinct t else bt_distinct t + 1)\<rparr>)))))"

text \<open>The walk of \<open>delete_pair\<close>: whether the pair is found, and its leaf and position.\<close>

partial_function (option) find_pair :: "node list \<Rightarrow> nat option \<Rightarrow> val \<Rightarrow> row_id \<Rightarrow> (bool \<times> nat \<times> nat) run" where
  "find_pair ns cur key rid =
     (case cur of
        None \<Rightarrow> Some (False, 0, 0)
      | Some i \<Rightarrow>
          Option.bind (index_run ns i) (\<lambda>n.
          case n of
            Internal ks cs \<Rightarrow> None
          | Leaf ks vs nxt \<Rightarrow>
              (case position_of (\<lambda>p. value_eq (fst p) key \<and> snd p = rid) (zip ks vs) of
                 Some p \<Rightarrow> Some (True, i, p)
               | None \<Rightarrow>
                   if ks \<noteq> [] \<and> vcmp (last ks) key = Greater then Some (False, 0, 0)
                   else find_pair ns nxt key rid)))"

definition delete_pair :: "btree \<Rightarrow> val \<Rightarrow> row_id \<Rightarrow> (btree \<times> bool) run" where
  "delete_pair t key rid =
     (if value_is_empty key then Some (delete_empty t rid)
      else
        Option.bind (descend (pick_lt key) (bt_nodes t) (bt_root t)) (\<lambda>leaf.
        Option.bind (find_pair (bt_nodes t) (Some leaf) key rid) (\<lambda>(found, i, p).
        if found then
          Option.bind (leaf_remove (bt_nodes t) i p) (\<lambda>ns.
          let t' = t\<lparr>bt_dirty := True, bt_nodes := ns, bt_total := bt_total t - 1\<rparr> in
          Option.bind (raw_key_present t' key) (\<lambda>present.
          Some (t'\<lparr>bt_distinct := (if present then bt_distinct t else bt_distinct t - 1)\<rparr>, True)))
        else Some (t\<lparr>bt_dirty := True\<rparr>, False))))"

end
