(* ===== verification/Btree_Fast.thy ===== *)
theory Btree_Fast
  imports Btree_Dup
begin

text \<open>
  The fast paths of the B+ tree for integer keys, the bounded ordered scan, and the composite keys of
  non-unique column indexes.
\<close>

subsection \<open>Integer keys\<close>

definition int_le :: "u64 \<Rightarrow> val \<Rightarrow> bool" where
  "int_le key k = (case k of VInt i \<Rightarrow> i64_cmp i key \<noteq> Greater | _ \<Rightarrow> False)"

definition int_lt :: "u64 \<Rightarrow> val \<Rightarrow> bool" where
  "int_lt key k = (case k of VInt i \<Rightarrow> i64_cmp i key = Less | _ \<Rightarrow> False)"

definition int_cmp :: "u64 \<Rightarrow> val \<Rightarrow> ordering" where
  "int_cmp key k = (case k of VInt i \<Rightarrow> i64_cmp i key | _ \<Rightarrow> Less)"

definition lookup_int :: "btree \<Rightarrow> u64 \<Rightarrow> row_id option run" where
  "lookup_int t key =
     Option.bind (descend (partition_point (int_le key)) (bt_nodes t) (bt_root t)) (\<lambda>i.
     Option.bind (index_run (bt_nodes t) i) (\<lambda>n.
     case n of
       Internal _ _ \<Rightarrow> None
     | Leaf ks vs nxt \<Rightarrow>
         (case binary_search_by (int_cmp key) ks of
            Inl _ \<Rightarrow> Some None
          | Inr p \<Rightarrow> Option.bind (index_run vs p) (\<lambda>v. Some (Some v)))))"

text \<open>The promoted key of a split must be an integer; anything else is unreachable.\<close>

definition int_up :: "(node list \<times> (val \<times> nat) option) run \<Rightarrow> (node list \<times> (u64 \<times> nat) option) run" where
  "int_up m =
     Option.bind m (\<lambda>(ns, up).
     case up of
       None \<Rightarrow> Some (ns, None)
     | Some (k, child) \<Rightarrow> (case k of VInt i \<Rightarrow> Some (ns, Some (i, child)) | _ \<Rightarrow> None))"

partial_function (option) insert_recursive_int ::
  "node list \<Rightarrow> nat \<Rightarrow> u64 \<Rightarrow> row_id \<Rightarrow> (node list \<times> (u64 \<times> nat) option \<times> bool) run" where
  "insert_recursive_int ns i key rid =
     Option.bind (index_run ns i) (\<lambda>n.
     case n of
       Leaf ks vs nxt \<Rightarrow>
         let pos = partition_point (int_lt key) ks in
         if pos < length ks \<and> ks ! pos = VInt key then
           (if pos < length vs then Some (ns[i := Leaf ks (vs[pos := rid]) nxt], None, True) else None)
         else Option.bind (int_up (leaf_put ns i pos (VInt key) rid)) (\<lambda>(ns', up). Some (ns', up, False))
     | Internal ks cs \<Rightarrow>
         let pos = partition_point (int_le key) ks in
         Option.bind (index_run cs pos) (\<lambda>c.
         Option.bind (insert_recursive_int ns c key rid) (\<lambda>(ns', up, replaced).
         case up of
           None \<Rightarrow> Some (ns', None, replaced)
         | Some (sep, child) \<Rightarrow>
             Option.bind (int_up (internal_put ns' i pos (VInt sep) child)) (\<lambda>(ns'', up'). Some (ns'', up', replaced)))))"

definition insert_int :: "btree \<Rightarrow> u64 \<Rightarrow> row_id \<Rightarrow> btree run" where
  "insert_int t key rid =
     Option.bind (insert_recursive_int (bt_nodes t) (bt_root t) key rid) (\<lambda>(ns, up, replaced).
     let t' = grow_root (t\<lparr>bt_dirty := True\<rparr>) ns (map_option (\<lambda>(k, c). (VInt k, c)) up) in
     Some (t'\<lparr>bt_total := (if replaced then bt_total t else bt_total t + 1),
             bt_distinct := (if replaced then bt_distinct t else bt_distinct t + 1)\<rparr>))"

definition delete_int :: "btree \<Rightarrow> u64 \<Rightarrow> (btree \<times> bool) run" where
  "delete_int t key =
     Option.bind (descend (partition_point (int_le key)) (bt_nodes t) (bt_root t)) (\<lambda>i.
     Option.bind (index_run (bt_nodes t) i) (\<lambda>n.
     case n of
       Internal _ _ \<Rightarrow> None
     | Leaf ks vs nxt \<Rightarrow>
         (case binary_search_by (int_cmp key) ks of
            Inl _ \<Rightarrow> Some (t\<lparr>bt_dirty := True\<rparr>, False)
          | Inr p \<Rightarrow>
              Option.bind (leaf_remove (bt_nodes t) i p) (\<lambda>ns.
              Some (t\<lparr>bt_dirty := True, bt_nodes := ns, bt_total := bt_total t - 1, bt_distinct := bt_distinct t - 1\<rparr>,
                    True)))))"

text \<open>
  One leaf of \<open>delete_many_int\<close>: the delete keys that are still ahead are the cursor. The entries that
  stay keep their order; the result has the kept keys and values, the cursor and the number removed.
\<close>

fun compact_leaf :: "u64 list \<Rightarrow> val list \<Rightarrow> row_id list \<Rightarrow> val list \<times> row_id list \<times> u64 list \<times> nat" where
  "compact_leaf cursor (k # ks) (v # vs) =
     (case k of
        VInt i \<Rightarrow>
          let cursor' = dropWhile (\<lambda>d. i64_cmp d i = Less) cursor in
          (if cursor' \<noteq> [] \<and> hd cursor' = i then
             let (ks', vs', c, n) = compact_leaf (tl cursor') ks vs in (ks', vs', c, n + 1)
           else
             let (ks', vs', c, n) = compact_leaf cursor' ks vs in (k # ks', v # vs', c, n))
      | _ \<Rightarrow> let (ks', vs', c, n) = compact_leaf cursor ks vs in (k # ks', v # vs', c, n))"
| "compact_leaf cursor _ _ = ([], [], cursor, 0)"

partial_function (option) compact_leaves :: "node list \<Rightarrow> nat option \<Rightarrow> u64 list \<Rightarrow> nat \<Rightarrow> (node list \<times> nat) run" where
  "compact_leaves ns cur cursor removed =
     (case cur of
        None \<Rightarrow> Some (ns, removed)
      | Some i \<Rightarrow>
          if cursor = [] then Some (ns, removed)
          else
            Option.bind (index_run ns i) (\<lambda>n.
            case n of
              Internal ks cs \<Rightarrow> Some (ns, removed)
            | Leaf ks vs nxt \<Rightarrow>
                if length vs < length ks then None
                else
                  (case compact_leaf cursor ks vs of (ks', vs', cursor', m) \<Rightarrow>
                     compact_leaves (ns[i := Leaf ks' vs' nxt]) nxt cursor' (removed + m))))"

definition delete_many_int :: "btree \<Rightarrow> u64 list \<Rightarrow> (btree \<times> nat) run" where
  "delete_many_int t sorted_keys =
     (if sorted_keys = [] then Some (t, 0)
      else
        Option.bind (descend pick_first (bt_nodes t) (bt_root t)) (\<lambda>leaf.
        Option.bind (compact_leaves (bt_nodes t) (Some leaf) sorted_keys 0) (\<lambda>(ns, removed).
        Some (t\<lparr>bt_dirty := True, bt_nodes := ns, bt_total := bt_total t - removed,
                bt_distinct := bt_distinct t - removed\<rparr>, removed))))"

subsection \<open>Bounded ordered scan\<close>

text \<open>\<open>ReverseKeyGroup\<close> with the offset, the result and the counter that the visit threads along.\<close>

record rev_state =
  rv_offset :: nat
  rv_result :: "row_id list"
  rv_visited :: nat
  rv_key :: "val option"
  rv_group :: "row_id list"
  rv_peak :: nat

text \<open>Popping the group from the back; \<open>True\<close> when the limit is reached.\<close>

function flush_reverse_key_group :: "nat \<Rightarrow> rev_state \<Rightarrow> rev_state \<times> bool" where
  "flush_reverse_key_group limit s =
     (if rv_group s = [] then (s, False)
      else
        let rid = last (rv_group s); s = s\<lparr>rv_group := butlast (rv_group s)\<rparr> in
        if rv_offset s > 0 then flush_reverse_key_group limit (s\<lparr>rv_offset := rv_offset s - 1\<rparr>)
        else
          let s = s\<lparr>rv_result := rv_result s @ [rid]\<rparr> in
          if length (rv_result s) = limit then (s, True) else flush_reverse_key_group limit s)"
  by pat_completeness auto
termination
  by (relation "measure (\<lambda>(limit, s). length (rv_group s))") (auto simp: Let_def)

declare flush_reverse_key_group.simps [simp del]

definition reverse_entry :: "nat \<Rightarrow> val \<times> row_id \<Rightarrow> rev_state \<Rightarrow> (rev_state \<times> bool) run" where
  "reverse_entry limit entry s =
     (case entry of (key, rid) \<Rightarrow>
        let s = s\<lparr>rv_visited := rv_visited s + 1\<rparr>;
            (s, stop) = (case rv_key s of
                           None \<Rightarrow> (s\<lparr>rv_key := Some key\<rparr>, False)
                         | Some current \<Rightarrow>
                             if \<not> value_eq current key then
                               (case flush_reverse_key_group limit s of (s, stop) \<Rightarrow>
                                  if stop then (s, True) else (s\<lparr>rv_key := Some key\<rparr>, False))
                             else (s, False))
        in if stop then Some (s, True)
           else
             let window = rv_offset s + (limit - length (rv_result s));
                 group = (if length (rv_group s) = window then tl (rv_group s) else rv_group s) @ [rid]
             in Some (s\<lparr>rv_group := group, rv_peak := max (rv_peak s) (length group)\<rparr>, False))"

text \<open>A loop that returns as soon as its body says so.\<close>

fun loop_until :: "('a \<Rightarrow> 's \<Rightarrow> ('s \<times> bool) run) \<Rightarrow> 'a list \<Rightarrow> 's \<Rightarrow> ('s \<times> bool) run" where
  "loop_until body [] s = Some (s, False)"
| "loop_until body (x # xs) s =
     Option.bind (body x s) (\<lambda>r. if snd r then Some r else loop_until body xs (fst r))"

lemma loop_until_mono [partial_function_mono]:
  assumes "\<And>x s. mono_option (\<lambda>f. body f x s)"
  shows "mono_option (\<lambda>f. loop_until (body f) xs s)"
proof (induction xs arbitrary: s)
  case Nil
  show ?case by (simp add: option.const_mono)
next
  case (Cons x xs)
  show ?case
    unfolding loop_until.simps by (intro bind_mono assms if_mono Cons option.const_mono)
qed

partial_function (option) visit_reverse_bounded :: "node list \<Rightarrow> nat \<Rightarrow> nat \<Rightarrow> rev_state \<Rightarrow> (rev_state \<times> bool) run" where
  "visit_reverse_bounded ns i limit s =
     Option.bind (index_run ns i) (\<lambda>n.
     case n of
       Internal ks cs \<Rightarrow> loop_until (\<lambda>c s. visit_reverse_bounded ns c limit s) (rev cs) s
     | Leaf ks vs nxt \<Rightarrow> loop_until (reverse_entry limit) (rev (zip ks vs)) s)"

text \<open>Skipping \<open>offset\<close> row ids and collecting up to \<open>limit\<close> in the forward direction.\<close>

definition take_step :: "nat \<Rightarrow> nat \<times> row_id list \<times> nat \<Rightarrow> val \<Rightarrow> row_id \<Rightarrow> (nat \<times> row_id list \<times> nat) \<times> bool" where
  "take_step limit = (\<lambda>(offset, result, visited) k rid.
     if offset > 0 then ((offset - 1, result, visited + 1), False)
     else ((offset, result @ [rid], visited + 1), length result + 1 = limit))"

fun take_empty :: "nat \<Rightarrow> nat \<Rightarrow> row_id list \<Rightarrow> row_id list \<Rightarrow> row_id list" where
  "take_empty limit offset result [] = result"
| "take_empty limit offset result (rid # rids) =
     (if offset > 0 then take_empty limit (offset - 1) result rids
      else if length result + 1 = limit then result @ [rid]
      else take_empty limit offset (result @ [rid]) rids)"

definition bounded_ordered_rids_with_stats :: "btree \<Rightarrow> bool \<Rightarrow> nat \<Rightarrow> nat \<Rightarrow> (row_id list \<times> nat \<times> nat) run" where
  "bounded_ordered_rids_with_stats t descending offset limit =
     (if limit = 0 then Some ([], 0, 0)
      else if descending then
        Option.bind (visit_reverse_bounded (bt_nodes t) (bt_root t) limit
            \<lparr>rv_offset = offset, rv_result = [], rv_visited = 0, rv_key = None, rv_group = [], rv_peak = 0\<rparr>) (\<lambda>(s, stop).
        if stop then Some (rv_result s, rv_visited s, rv_peak s)
        else
          case flush_reverse_key_group limit s of (s, stop) \<Rightarrow>
            if stop then Some (rv_result s, rv_visited s, rv_peak s)
            else Some (take_empty limit (rv_offset s) (rv_result s) (bt_empty_rids t), rv_visited s, rv_peak s))
      else
        Option.bind (descend pick_first (bt_nodes t) (bt_root t)) (\<lambda>leaf.
        Option.bind (scan_leaves (take_step limit) (\<lambda>_. None) (bt_nodes t) leaf (offset, [], 0)) (\<lambda>(offset, result, visited).
        if length result = limit then Some (result, visited, 0)
        else Some (take_empty limit offset result (bt_empty_rids t), visited, 0))))"

definition bounded_ordered_rids_nulls_last :: "btree \<Rightarrow> bool \<Rightarrow> nat \<Rightarrow> nat \<Rightarrow> row_id list run" where
  "bounded_ordered_rids_nulls_last t descending offset limit =
     map_option fst (bounded_ordered_rids_with_stats t descending offset limit)"

end
