(* ===== verification/Btree_Composite.thy ===== *)
theory Btree_Composite
  imports Btree_Fast
begin

unbundle bit_operations_syntax

text \<open>
  Composite keys: a non-unique column index stores \<open>(column value, row id)\<close> as one byte string. Within a
  type other than byte strings and JSON the encoding orders like the values, and no value's encoding
  is a prefix of another's.
\<close>

fun encode_str_escaped :: "bytes \<Rightarrow> bytes" where
  "encode_str_escaped [] = [0, 0]"
| "encode_str_escaped (b # bs) = (if b = 0 then [0, 0xFF] else [b]) @ encode_str_escaped bs"

definition u32_to_be :: "u32 \<Rightarrow> bytes" where
  "u32_to_be w = rev (u32_to_le w)"

definition sign_flip :: "u64 \<Rightarrow> u64" where
  "sign_flip w = w XOR push_bit 63 1"

definition float_ordered :: "u64 \<Rightarrow> u64" where
  "float_ordered b = (if drop_bit 63 b = 1 then NOT b else sign_flip b)"

definition encode_composite_value :: "val \<Rightarrow> bytes" where
  "encode_composite_value v =
     type_id_to_u8 (type_id_of v) #
     (case v of
        VInt i \<Rightarrow> u64_to_be (sign_flip i)
      | VFloat f \<Rightarrow> u64_to_be (float_ordered f)
      | VBool b \<Rightarrow> [if b then 1 else 0]
      | VStr s \<Rightarrow> encode_str_escaped s
      | VDateTime d \<Rightarrow> u64_to_be (sign_flip d)
      | VUuid u \<Rightarrow> u
      | VBytes b \<Rightarrow> u32_to_be (word_of_nat (length b)) @ b
      | VJson b \<Rightarrow> u32_to_be (word_of_nat (length b)) @ b
      | VEmpty \<Rightarrow> [])"

definition rid_bits :: "row_id \<Rightarrow> u64" where
  "rid_bits rid = push_bit 16 (ucast (rid_page rid)) OR ucast (rid_slot rid)"

definition make_composite_key :: "val \<Rightarrow> row_id \<Rightarrow> val" where
  "make_composite_key v rid = VBytes (encode_composite_value v @ u64_to_be (rid_bits rid))"

definition make_prefix_start :: "val \<Rightarrow> val" where
  "make_prefix_start v = VBytes (encode_composite_value v @ u64_to_be 0)"

definition make_prefix_end :: "val \<Rightarrow> val" where
  "make_prefix_end v = VBytes (encode_composite_value v @ u64_to_be (- 1))"

definition rid_from_composite :: "val \<Rightarrow> row_id option" where
  "rid_from_composite key =
     (case key of
        VBytes b \<Rightarrow>
          if length b \<ge> 8 then
            let w = u64_from_be (drop (length b - 8) b) in
            Some \<lparr>rid_page = ucast (drop_bit 16 w), rid_slot = ucast (w AND 0xFFFF)\<rparr>
          else None
      | _ \<Rightarrow> None)"

definition insert_non_unique :: "btree \<Rightarrow> val \<Rightarrow> row_id \<Rightarrow> btree run" where
  "insert_non_unique t v rid =
     (let t = t\<lparr>bt_kind := Composite, bt_version := (if bt_version t < BTREE_VERSION then BTREE_VERSION else bt_version t)\<rparr>
      in bt_insert t (make_composite_key v rid) rid)"

definition insert_non_unique_int :: "btree \<Rightarrow> u64 \<Rightarrow> row_id \<Rightarrow> btree run" where
  "insert_non_unique_int t i rid = insert_non_unique t (VInt i) rid"

definition composite_rids :: "(val \<times> row_id) list \<Rightarrow> row_id list" where
  "composite_rids pairs = List.map_filter (\<lambda>(k, _). rid_from_composite k) pairs"

definition lookup_prefix :: "btree \<Rightarrow> val \<Rightarrow> row_id list run" where
  "lookup_prefix t v = Option.bind (bt_range t (make_prefix_start v) (make_prefix_end v)) (\<lambda>ps. Some (composite_rids ps))"

definition lookup_prefix_int :: "btree \<Rightarrow> u64 \<Rightarrow> row_id list run" where
  "lookup_prefix_int t i = lookup_prefix t (VInt i)"

definition count_prefix_capped :: "btree \<Rightarrow> val \<Rightarrow> nat \<Rightarrow> nat run" where
  "count_prefix_capped t v cap = count_range_capped t (make_prefix_start v) (make_prefix_end v) cap"

definition range_rids :: "btree \<Rightarrow> val option \<Rightarrow> val option \<Rightarrow> row_id list run" where
  "range_rids t start stop =
     Option.bind
       (case (start, stop) of
          (Some s, Some e) \<Rightarrow> bt_range t (make_prefix_start s) (make_prefix_end e)
        | (Some s, None) \<Rightarrow> range_from t (make_prefix_start s)
        | (None, Some e) \<Rightarrow> range_to t (make_prefix_end e)
        | (None, None) \<Rightarrow> range_from t (make_prefix_start VEmpty))
       (\<lambda>ps. Some (composite_rids ps))"

definition delete_non_unique :: "btree \<Rightarrow> val \<Rightarrow> row_id \<Rightarrow> (btree \<times> bool) run" where
  "delete_non_unique t v rid = bt_delete (t\<lparr>bt_kind := Composite\<rparr>) (make_composite_key v rid)"

definition delete_non_unique_int :: "btree \<Rightarrow> u64 \<Rightarrow> row_id \<Rightarrow> (btree \<times> bool) run" where
  "delete_non_unique_int t i rid = delete_non_unique t (VInt i) rid"

end
