(* ===== verification/Btree_Repr.thy ===== *)
theory Btree_Repr
  imports Btree_Composite
begin

text \<open>
  The tree that a node store represents: its leaves are chained from left to right, keys increase
  strictly, and each separator bounds the subtrees on its two sides. The lemmas say where a descent
  ends and what a walk along the leaf chain sees.
\<close>

subsection \<open>Trees in a node store\<close>

datatype bt = TLeaf nat "val list" "row_id list" "nat option" | TNode nat "val list" "bt list"

fun bt_id :: "bt \<Rightarrow> nat" where
  "bt_id (TLeaf i _ _ _) = i"
| "bt_id (TNode i _ _) = i"

type_synonym leaf = "nat \<times> val list \<times> row_id list \<times> nat option"

fun leaves :: "bt \<Rightarrow> leaf list" where
  "leaves (TLeaf i ks vs nxt) = [(i, ks, vs, nxt)]"
| "leaves (TNode i ks ts) = concat (map leaves ts)"

fun ids :: "bt \<Rightarrow> nat list" where
  "ids (TLeaf i ks vs nxt) = [i]"
| "ids (TNode i ks ts) = i # concat (map ids ts)"

fun repr :: "node list \<Rightarrow> bt \<Rightarrow> bool" where
  "repr ns (TLeaf i ks vs nxt) \<longleftrightarrow> i < length ns \<and> ns ! i = Leaf ks vs nxt \<and> length vs = length ks"
| "repr ns (TNode i ks ts) \<longleftrightarrow> i < length ns \<and> ns ! i = Internal ks (map bt_id ts) \<and> (\<forall>t \<in> set ts. repr ns t)"

definition leaf_pairs :: "leaf \<Rightarrow> (val \<times> row_id) list" where
  "leaf_pairs l = (case l of (i, ks, vs, nxt) \<Rightarrow> zip ks vs)"

definition pairs_of :: "leaf list \<Rightarrow> (val \<times> row_id) list" where
  "pairs_of ls = concat (map leaf_pairs ls)"

definition entries :: "bt \<Rightarrow> (val \<times> row_id) list" where
  "entries t = pairs_of (leaves t)"

text \<open>Each leaf points at the next, and the last one at \<open>stop\<close>.\<close>

fun chain :: "leaf list \<Rightarrow> nat option \<Rightarrow> bool" where
  "chain [] stop \<longleftrightarrow> True"
| "chain [(i, ks, vs, nxt)] stop \<longleftrightarrow> nxt = stop"
| "chain ((i, ks, vs, nxt) # l # ls) stop \<longleftrightarrow> nxt = Some (fst l) \<and> chain (l # ls) stop"

lemma pairs_of_simps [simp]:
  "pairs_of [] = []" "pairs_of (l # ls) = leaf_pairs l @ pairs_of ls" "pairs_of (ls @ ls') = pairs_of ls @ pairs_of ls'"
  "leaf_pairs (i, ks, vs, nxt) = zip ks vs"
  by (simp_all add: pairs_of_def leaf_pairs_def)

lemma chain_append:
  "chain (ls @ l # ls') stop \<longleftrightarrow> chain ls (Some (fst l)) \<and> chain (l # ls') stop"
proof (induction ls)
  case Nil
  show ?case by simp
next
  case (Cons m ls)
  obtain i ks vs nxt where m: "m = (i, ks, vs, nxt)" by (cases m)
  show ?case using Cons unfolding m by (cases ls) auto
qed

lemma bt_id_in_ids: "bt_id t \<in> set (ids t)"
  by (cases t) simp_all

lemma leaves_ids: "fst ` set (leaves t) \<subseteq> set (ids t)"
  by (induction t) auto

lemma repr_leaf:
  "repr ns t \<Longrightarrow> (i, ks, vs, nxt) \<in> set (leaves t) \<Longrightarrow> i < length ns \<and> ns ! i = Leaf ks vs nxt \<and> length vs = length ks"
  by (induction t) auto

text \<open>A tree is untouched by changes to other nodes.\<close>

lemma repr_frame:
  assumes "repr ns t" and "\<And>i. i \<in> set (ids t) \<Longrightarrow> i < length ns' \<and> ns' ! i = ns ! i"
  shows "repr ns' t"
  using assms
proof (induction t)
  case (TNode i ks ts)
  have "repr ns' t" if "t \<in> set ts" for t
    using that TNode.prems by (intro TNode.IH) auto
  then show ?case using TNode.prems(1) TNode.prems(2) [of i] by simp
qed simp

subsection \<open>Order\<close>

fun lo_le :: "val option \<Rightarrow> val \<Rightarrow> bool" where
  "lo_le None k \<longleftrightarrow> True"
| "lo_le (Some l) k \<longleftrightarrow> vcmp l k \<noteq> Greater"

fun lt_hi :: "val \<Rightarrow> val option \<Rightarrow> bool" where
  "lt_hi k None \<longleftrightarrow> True"
| "lt_hi k (Some h) \<longleftrightarrow> vcmp k h = Less"

fun le_hi :: "val \<Rightarrow> val option \<Rightarrow> bool" where
  "le_hi k None \<longleftrightarrow> True"
| "le_hi k (Some h) \<longleftrightarrow> vcmp k h \<noteq> Greater"

fun ordered :: "val set \<Rightarrow> val option \<Rightarrow> bt \<Rightarrow> val option \<Rightarrow> bool"
  and ordered_list :: "val set \<Rightarrow> val option \<Rightarrow> val list \<Rightarrow> bt list \<Rightarrow> val option \<Rightarrow> bool" where
  "ordered K lo (TLeaf i ks vs nxt) hi \<longleftrightarrow>
     sorted_wrt (\<lambda>a b. vcmp a b = Less) ks \<and> (\<forall>k \<in> set ks. k \<in> K \<and> lo_le lo k \<and> lt_hi k hi)"
| "ordered K lo (TNode i ks ts) hi \<longleftrightarrow> ordered_list K lo ks ts hi"
| "ordered_list K lo [] [t] hi \<longleftrightarrow> ordered K lo t hi"
| "ordered_list K lo (k # ks) (t # ts) hi \<longleftrightarrow>
     k \<in> K \<and> lo_le lo k \<and> le_hi k hi \<and> ordered K lo t (Some k) \<and> ordered_list K (Some k) ks ts hi"
| "ordered_list K lo _ _ hi \<longleftrightarrow> False"

lemma ordered_list_length: "ordered_list K lo ks ts hi \<Longrightarrow> length ts = Suc (length ks)"
proof (induction ks arbitrary: lo ts)
  case Nil
  then show ?case by (cases ts rule: remdups_adj.cases) auto
next
  case (Cons k ks)
  then show ?case by (cases ts) auto
qed

definition lo_at :: "val option \<Rightarrow> val list \<Rightarrow> val option" where
  "lo_at lo ks = (if ks = [] then lo else Some (last ks))"

definition hi_at :: "val list \<Rightarrow> val option \<Rightarrow> val option" where
  "hi_at ks hi = (if ks = [] then hi else Some (hd ks))"

lemma bound_at_simps [simp]:
  "lo_at lo [] = lo" "lo_at lo (k # ks) = lo_at (Some k) ks" "hi_at [] hi = hi" "hi_at (k # ks) hi = Some k"
  by (simp_all add: lo_at_def hi_at_def)

fun bound_ok :: "val set \<Rightarrow> val option \<Rightarrow> bool" where
  "bound_ok K None \<longleftrightarrow> True"
| "bound_ok K (Some k) \<longleftrightarrow> k \<in> K"

lemma ordered_list_child:
  assumes "length ts1 = length ks1" and "ordered_list K lo (ks1 @ ks2) (ts1 @ t # ts2) hi"
  shows "ordered K (lo_at lo ks1) t (hi_at ks2 hi)"
  using assms
proof (induction ts1 ks1 arbitrary: lo rule: list_induct2)
  case Nil
  then show ?case using ordered_list_length [OF Nil] by (cases ks2; cases ts2) auto
qed auto

lemma ordered_list_drop:
  assumes "length ts1 = length ks1" and "ordered_list K lo (ks1 @ ks2) (ts1 @ ts2) hi"
  shows "ordered_list K (lo_at lo ks1) ks2 ts2 hi"
  using assms by (induction ts1 ks1 arbitrary: lo rule: list_induct2) auto

lemma ordered_list_replace:
  assumes "length ts1 = length ks1" and "ordered_list K lo (ks1 @ ks2) (ts1 @ t # ts2) hi"
    and "ordered K (lo_at lo ks1) t' (hi_at ks2 hi)"
  shows "ordered_list K lo (ks1 @ ks2) (ts1 @ t' # ts2) hi"
  using assms
proof (induction ts1 ks1 arbitrary: lo rule: list_induct2)
  case Nil
  then show ?case using ordered_list_length [OF Nil(1)] by (cases ks2; cases ts2) auto
qed auto

text \<open>The keys of an ordered tree lie between its bounds and increase strictly.\<close>

definition between :: "val set \<Rightarrow> val option \<Rightarrow> val list \<Rightarrow> val option \<Rightarrow> bool" where
  "between K lo ks hi \<longleftrightarrow>
     sorted_wrt (\<lambda>a b. vcmp a b = Less) ks \<and> (\<forall>k \<in> set ks. k \<in> K \<and> lo_le lo k \<and> lt_hi k hi)"

text \<open>Where a descent ends: nothing to the left is beyond \<open>L\<close>, nothing to the right is short of \<open>R\<close>.\<close>

definition picks :: "val set \<Rightarrow> (val list \<Rightarrow> nat) \<Rightarrow> (val \<Rightarrow> bool) \<Rightarrow> (val \<Rightarrow> bool) \<Rightarrow> bool" where
  "picks K pick L R \<longleftrightarrow>
     (\<forall>ks. sorted_wrt (\<lambda>a b. vcmp a b \<noteq> Greater) ks \<longrightarrow> set ks \<subseteq> K \<longrightarrow>
        pick ks \<le> length ks \<and>
        (\<forall>s \<in> set (take (pick ks) ks). \<forall>k \<in> K. vcmp k s = Less \<longrightarrow> L k) \<and>
        (\<forall>s \<in> set (drop (pick ks) ks). \<forall>k \<in> K. vcmp s k \<noteq> Greater \<longrightarrow> R k))"

subsection \<open>The leaf chain\<close>

fun fold_leaves :: "('s \<Rightarrow> val list \<Rightarrow> row_id list \<Rightarrow> ('s \<times> bool) run) \<Rightarrow> leaf list \<Rightarrow> 's \<Rightarrow> 's run" where
  "fold_leaves body [] s = Some s"
| "fold_leaves body ((i, ks, vs, nxt) # ls) s =
     Option.bind (body s ks vs) (\<lambda>(s', stop). if stop then Some s' else fold_leaves body ls s')"

lemma walk_chain:
  assumes "chain (l # ls) None"
    and "\<And>i ks vs nxt. (i, ks, vs, nxt) \<in> set (l # ls) \<Longrightarrow> i < length ns \<and> ns ! i = Leaf ks vs nxt \<and> length vs = length ks"
  shows "walk_leaves body on_internal ns (Some (fst l)) s = fold_leaves body (l # ls) s"
  using assms
proof (induction ls arbitrary: l s)
  case Nil
  obtain i ks vs nxt where l: "l = (i, ks, vs, nxt)" by (cases l)
  show ?case
    using Nil(1) Nil(2) [of i ks vs nxt] unfolding l
    by (cases "body s ks vs")
      (auto simp: walk_leaves.simps [of body on_internal ns "Some i"] walk_leaves.simps [of body on_internal ns None]
        index_run_def split: prod.splits)
next
  case (Cons m ls)
  obtain i ks vs nxt where l: "l = (i, ks, vs, nxt)" by (cases l)
  have "walk_leaves body on_internal ns (Some (fst m)) s' = fold_leaves body (m # ls) s'" for s'
    using Cons.prems unfolding l by (intro Cons.IH) auto
  then show ?case
    using Cons.prems(1) Cons.prems(2) [of i ks vs nxt] unfolding l
    by (cases "body s ks vs")
      (auto simp: walk_leaves.simps [of body on_internal ns "Some i"] index_run_def split: prod.splits)
qed

fun scan_list :: "('s \<Rightarrow> val \<Rightarrow> row_id \<Rightarrow> 's \<times> bool) \<Rightarrow> 's \<Rightarrow> (val \<times> row_id) list \<Rightarrow> 's \<times> bool" where
  "scan_list step s [] = (s, False)"
| "scan_list step s ((k, v) # ps) = (case step s k v of (s', stop) \<Rightarrow> if stop then (s', True) else scan_list step s' ps)"

lemma scan_list_append:
  "scan_list step s (ps @ qs) = (case scan_list step s ps of (s', stop) \<Rightarrow> if stop then (s', True) else scan_list step s' qs)"
  by (induction step s ps rule: scan_list.induct) (auto split: prod.splits)

lemma leaf_loop_zip: "length vs = length ks \<Longrightarrow> leaf_loop step s ks vs = scan_list step s (zip ks vs)"
  by (induction vs ks arbitrary: s rule: list_induct2) (auto split: prod.split)

lemma fold_leaves_scan:
  assumes "\<And>i ks vs nxt. (i, ks, vs, nxt) \<in> set ls \<Longrightarrow> length vs = length ks"
  shows "fold_leaves (leaf_body step) ls s = Some (fst (scan_list step s (pairs_of ls)))"
  using assms
proof (induction ls arbitrary: s)
  case (Cons l ls)
  obtain i ks vs nxt where l: "l = (i, ks, vs, nxt)" by (cases l)
  have e: "length vs = length ks" using Cons.prems [of i ks vs nxt] unfolding l by simp
  have "fold_leaves (leaf_body step) ls s' = Some (fst (scan_list step s' (pairs_of ls)))" for s'
    using Cons.prems by (intro Cons.IH) auto
  moreover have "leaf_body step s ks vs = Some (scan_list step s (zip ks vs))"
    using e by (simp add: leaf_body_def leaf_loop_zip)
  ultimately show ?case
    unfolding l by (auto simp: scan_list_append split: prod.split)
qed simp

lemma scan_chain:
  assumes "chain (l # ls) None"
    and "\<And>i ks vs nxt. (i, ks, vs, nxt) \<in> set (l # ls) \<Longrightarrow> i < length ns \<and> ns ! i = Leaf ks vs nxt \<and> length vs = length ks"
  shows "scan_leaves step on_internal ns (fst l) s = Some (fst (scan_list step s (pairs_of (l # ls))))"
proof -
  have "fold_leaves (leaf_body step) (l # ls) s = Some (fst (scan_list step s (pairs_of (l # ls))))"
    using assms(2) by (intro fold_leaves_scan) blast
  then show ?thesis
    unfolding scan_leaves_def using walk_chain [OF assms, where body = "leaf_body step" and on_internal = on_internal and s = s]
    by (rule trans [rotated])
qed

subsection \<open>Ordered trees\<close>

text \<open>The total order of the keys of an index, with the tree operations that rely on it.\<close>

locale key_order = cmp_order vcmp K for K :: "val set"
begin

lemma le_hi_trans: "a \<in> K \<Longrightarrow> b \<in> K \<Longrightarrow> bound_ok K hi \<Longrightarrow> vcmp a b \<noteq> Greater \<Longrightarrow> le_hi b hi \<Longrightarrow> le_hi a hi"
  using cmp_le_trans [of a b "the hi"] by (cases hi) simp_all

lemma lo_le_trans: "a \<in> K \<Longrightarrow> b \<in> K \<Longrightarrow> bound_ok K lo \<Longrightarrow> lo_le lo a \<Longrightarrow> vcmp a b \<noteq> Greater \<Longrightarrow> lo_le lo b"
  using cmp_le_trans [of "the lo" a b] by (cases lo) simp_all

lemma ordered_list_split_child:
  assumes "length ts1 = length ks1" and "ordered_list K lo (ks1 @ ks2) (ts1 @ t # ts2) hi"
    and "ordered K (lo_at lo ks1) t1 (Some s)" and "ordered K (Some s) t2 (hi_at ks2 hi)"
    and "s \<in> K" and "lo_le (lo_at lo ks1) s" and "le_hi s (hi_at ks2 hi)" and "bound_ok K hi"
  shows "ordered_list K lo (ks1 @ s # ks2) (ts1 @ t1 # t2 # ts2) hi"
  using assms
proof (induction ts1 ks1 arbitrary: lo rule: list_induct2)
  case Nil
  show ?case
  proof (cases ks2)
    case Nil': Nil
    then have "ts2 = []" using ordered_list_length [OF Nil(1)] by simp
    then show ?thesis using Nil Nil' by simp
  next
    case (Cons k ks)
    then obtain t' ts where ts2: "ts2 = t' # ts"
      using ordered_list_length [OF Nil(1)] by (cases ts2) auto
    have "le_hi s hi"
      using Nil le_hi_trans [of s k hi] unfolding Cons by auto
    then show ?thesis using Nil unfolding Cons ts2 by auto
  qed
qed auto

lemma ordered_list_halves:
  assumes "length ts1 = Suc (length ks1)" and "ordered_list K lo (ks1 @ m # ks2) (ts1 @ ts2) hi" and "bound_ok K lo"
  shows "ordered_list K lo ks1 ts1 (Some m) \<and> m \<in> K \<and> lo_le lo m \<and> le_hi m hi \<and> ordered_list K (Some m) ks2 ts2 hi"
  using assms
proof (induction ks1 arbitrary: lo ts1)
  case Nil
  then show ?case by (cases ts1) auto
next
  case (Cons k ks1)
  then obtain t ts where ts1: "ts1 = t # ts" by (cases ts1) auto
  from Cons.prems have k: "k \<in> K" "lo_le lo k" "ordered K lo t (Some k)"
    and IH: "ordered_list K (Some k) ks1 ts (Some m) \<and> m \<in> K \<and> lo_le (Some k) m \<and> le_hi m hi \<and> ordered_list K (Some m) ks2 ts2 hi"
    using Cons.IH [of ts "Some k"] unfolding ts1 by auto
  then show ?case
    unfolding ts1 using lo_le_trans [of k m lo] Cons.prems(3) by auto
qed

lemma lt_hi_trans: "a \<in> K \<Longrightarrow> b \<in> K \<Longrightarrow> bound_ok K hi \<Longrightarrow> vcmp a b = Less \<Longrightarrow> le_hi b hi \<Longrightarrow> lt_hi a hi"
  using cmp_less_le_trans [of a b "the hi"] by (cases hi) simp_all

lemma between_append:
  assumes "between K lo ps (Some k)" and "between K (Some k) qs hi" and "k \<in> K" and "lo_le lo k" and "le_hi k hi"
    and "bound_ok K lo" and "bound_ok K hi"
  shows "between K lo (ps @ qs) hi"
proof -
  have p: "a \<in> K" "lo_le lo a" "vcmp a k = Less" "lt_hi a hi" if "a \<in> set ps" for a
    using assms(1,3,5,7) that lt_hi_trans [of a k hi] by (auto simp: between_def)
  have q: "a \<in> K" "vcmp k a \<noteq> Greater" "lo_le lo a" "lt_hi a hi" if "a \<in> set qs" for a
    using assms(2,3,4,6) that lo_le_trans [of k a lo] by (auto simp: between_def)
  have "vcmp a b = Less" if "a \<in> set ps" "b \<in> set qs" for a b
    using p [OF that(1)] q [OF that(2)] assms(3) cmp_less_le_trans [of a k b] by blast
  then show ?thesis
    using assms(1,2) p q by (auto simp: between_def sorted_wrt_append)
qed

lemma ordered_entries: "ordered K lo t hi \<Longrightarrow> repr ns t \<Longrightarrow> bound_ok K lo \<Longrightarrow> bound_ok K hi \<Longrightarrow> between K lo (map fst (entries t)) hi"
proof (induction t arbitrary: lo hi)
  case (TLeaf i ks vs nxt)
  then show ?case by (simp add: between_def entries_def)
next
  case (TNode i ks ts)
  have "ordered_list K lo ks ts hi \<Longrightarrow> \<forall>t \<in> set ts. repr ns t \<Longrightarrow> bound_ok K lo \<Longrightarrow> bound_ok K hi \<Longrightarrow>
      (\<And>t lo hi. t \<in> set ts \<Longrightarrow> ordered K lo t hi \<Longrightarrow> repr ns t \<Longrightarrow> bound_ok K lo \<Longrightarrow> bound_ok K hi \<Longrightarrow> between K lo (map fst (entries t)) hi) \<Longrightarrow>
      between K lo (map fst (pairs_of (concat (map leaves ts)))) hi" for lo
  proof (induction ks arbitrary: ts lo)
    case Nil
    then obtain t where "ts = [t]" using ordered_list_length [OF Nil(1)] by (cases ts) auto
    then show ?case using Nil by (simp add: entries_def)
  next
    case (Cons k ks)
    then obtain t ts' where ts: "ts = t # ts'" by (cases ts) auto
    have k: "k \<in> K" "lo_le lo k" "le_hi k hi" and t: "ordered K lo t (Some k)" and r: "ordered_list K (Some k) ks ts' hi"
      using Cons.prems(1) unfolding ts by auto
    have "between K lo (map fst (entries t)) (Some k)"
      using Cons.prems(2,3) t k unfolding ts by (intro Cons.prems(5)) (auto simp: ts)
    moreover have "between K (Some k) (map fst (pairs_of (concat (map leaves ts')))) hi"
      using Cons.prems k r unfolding ts by (intro Cons.IH) auto
    ultimately show ?case
      using between_append k Cons.prems(3,4) by (simp add: ts entries_def)
  qed
  from this [of lo] show ?case
    using TNode by (simp add: entries_def)
qed


lemma ordered_list_seps:
  "ordered_list K lo ks ts hi \<Longrightarrow> bound_ok K lo \<Longrightarrow>
     sorted_wrt (\<lambda>a b. vcmp a b \<noteq> Greater) ks \<and> set ks \<subseteq> K \<and> (\<forall>k \<in> set ks. lo_le lo k)"
proof (induction ks arbitrary: lo ts)
  case (Cons k ks)
  then obtain t ts' where ts: "ts = t # ts'" by (cases ts) auto
  have k: "k \<in> K" "lo_le lo k" and r: "ordered_list K (Some k) ks ts' hi"
    using Cons.prems(1) unfolding ts by auto
  have "sorted_wrt (\<lambda>a b. vcmp a b \<noteq> Greater) ks \<and> set ks \<subseteq> K \<and> (\<forall>l \<in> set ks. vcmp k l \<noteq> Greater)"
    using Cons.IH [OF r] k by simp
  moreover from this have "\<forall>l \<in> set ks. lo_le lo l"
    using lo_le_trans [OF k(1)] k(2) Cons.prems(2) by blast
  ultimately show ?case using k by auto
qed simp

lemma ordered_list_left:
  assumes "length ts1 = length ks1" and "ordered_list K lo (ks1 @ ks2) (ts1 @ ts2) hi" and "bound_ok K lo"
    and "\<forall>t \<in> set ts1. repr ns t" and "k \<in> set (map fst (pairs_of (concat (map leaves ts1))))"
  shows "k \<in> K \<and> (\<exists>s \<in> set ks1. vcmp k s = Less)"
  using assms
proof (induction ts1 ks1 arbitrary: lo rule: list_induct2)
  case (Cons t ts1 s ks1)
  then have s: "s \<in> K" "ordered K lo t (Some s)" and r: "ordered_list K (Some s) (ks1 @ ks2) (ts1 @ ts2) hi"
    by auto
  have "between K lo (map fst (entries t)) (Some s)"
    using s Cons.prems by (intro ordered_entries) auto
  then show ?case
    using Cons.prems Cons.IH [OF r] s(1) by (auto simp: between_def entries_def)
qed simp

lemma ordered_list_right:
  assumes "ordered_list K lo ks2 (t # ts2) hi" and "bound_ok K lo" and "bound_ok K hi"
    and "\<forall>t \<in> set ts2. repr ns t" and "k \<in> set (map fst (pairs_of (concat (map leaves ts2))))"
  shows "k \<in> K \<and> (\<exists>s \<in> set ks2. vcmp s k \<noteq> Greater)"
  using assms
proof (induction ks2 arbitrary: lo t ts2)
  case Nil
  then show ?case using ordered_list_length [OF Nil(1)] by auto
next
  case (Cons s ks)
  then obtain t' ts' where ts: "ts2 = t' # ts'" using ordered_list_length [OF Cons.prems(1)] by (cases ts2) auto
  have r: "ordered_list K (Some s) ks (t' # ts') hi" and s: "s \<in> K"
    using Cons.prems(1) unfolding ts by auto
  have "ordered K (Some s) t' (hi_at ks hi)"
    using ordered_list_child [of "[]" "[]" K "Some s" ks t' ts' hi] r by simp
  moreover have "bound_ok K (hi_at ks hi)"
    using ordered_list_seps [OF r] s Cons.prems(3) by (cases ks) auto
  ultimately have "between K (Some s) (map fst (entries t')) (hi_at ks hi)"
    using Cons.prems(4) s unfolding ts by (intro ordered_entries) auto
  then show ?case
    using Cons.IH [OF r _ Cons.prems(3)] Cons.prems(4,5) s unfolding ts by (auto simp: between_def entries_def)
qed

lemma descend_spec:
  assumes pick: "picks K pick L R"
  shows "ordered K lo t hi \<Longrightarrow> repr ns t \<Longrightarrow> bound_ok K lo \<Longrightarrow> bound_ok K hi \<Longrightarrow>
    \<exists>pre i ks vs nxt post. leaves t = pre @ (i, ks, vs, nxt) # post \<and> descend pick ns (bt_id t) = Some i \<and>
      (\<forall>k \<in> set (map fst (pairs_of pre)). L k) \<and> (\<forall>k \<in> set (map fst (pairs_of post)). R k)"
proof (induction t arbitrary: lo hi)
  case (TLeaf i ks vs nxt)
  then show ?case
    by (intro exI [of _ "[]"] exI [of _ i] exI [of _ ks] exI [of _ vs] exI [of _ nxt])
      (simp add: descend.simps [of pick ns i] index_run_def)
next
  case (TNode i ks ts)
  note ol = TNode.prems(1) [unfolded ordered.simps]
  note seps = ordered_list_seps [OF ol TNode.prems(3)]
  define p where "p = pick ks"
  have p: "p \<le> length ks" "\<forall>s \<in> set (take p ks). \<forall>k \<in> K. vcmp k s = Less \<longrightarrow> L k"
      "\<forall>s \<in> set (drop p ks). \<forall>k \<in> K. vcmp s k \<noteq> Greater \<longrightarrow> R k"
    using pick seps unfolding picks_def p_def by blast+
  have pl: "p < length ts" using ordered_list_length [OF ol] p(1) by simp
  define ks1 ks2 ts1 ts2 c where d: "ks1 = take p ks" "ks2 = drop p ks" "ts1 = take p ts" "ts2 = drop (Suc p) ts" "c = ts ! p"
  have split: "ks = ks1 @ ks2" "ts = ts1 @ c # ts2" "length ts1 = length ks1"
    using p(1) pl by (simp_all add: d id_take_nth_drop)
  have rep: "\<forall>t \<in> set ts1. repr ns t" "repr ns c" "\<forall>t \<in> set ts2. repr ns t"
    using TNode.prems(2) split(2) by auto
  have b: "bound_ok K (lo_at lo ks1)" "bound_ok K (hi_at ks2 hi)"
    using seps TNode.prems(3,4) split(1) by (auto simp: lo_at_def hi_at_def)
  have oc: "ordered K (lo_at lo ks1) c (hi_at ks2 hi)"
    using ordered_list_child [OF split(3)] ol split(1,2) by simp
  obtain pre j ks' vs nxt post where c: "leaves c = pre @ (j, ks', vs, nxt) # post" "descend pick ns (bt_id c) = Some j"
      "\<forall>k \<in> set (map fst (pairs_of pre)). L k" "\<forall>k \<in> set (map fst (pairs_of post)). R k"
    using TNode.IH [OF _ oc rep(2) b] split(2) by auto
  have "L k" if "k \<in> set (map fst (pairs_of (concat (map leaves ts1))))" for k
    using ordered_list_left [OF split(3) ol [unfolded split(1,2)] TNode.prems(3) rep(1) that] p(2) unfolding d by blast
  moreover have "R k" if "k \<in> set (map fst (pairs_of (concat (map leaves ts2))))" for k
  proof -
    have "ordered_list K (lo_at lo ks1) ks2 (c # ts2) hi"
      using ordered_list_drop [OF split(3) ol [unfolded split(1,2)]] .
    from ordered_list_right [OF this b(1) TNode.prems(4) rep(3) that] show ?thesis
      using p(3) unfolding d by blast
  qed
  moreover have "descend pick ns i = descend pick ns (bt_id c)"
    using TNode.prems(2) pl by (simp add: descend.simps [of pick ns i] index_run_def p_def d(5))
  ultimately show ?case
    using c by (intro exI [of _ "concat (map leaves ts1) @ pre"] exI [of _ j] exI [of _ ks'] exI [of _ vs] exI [of _ nxt]
        exI [of _ "post @ concat (map leaves ts2)"]) (auto simp: split(2))
qed

end

end
