(* ===== verification/Btree_Insert.thy ===== *)
theory Btree_Insert
  imports Btree_Repr
begin

text \<open>
  Inserting into an ordered tree: the store afterwards represents a tree whose entries are those of the
  sorted association list \<open>kput\<close>, with leaves still chained, all at the same depth, and no node above
  \<open>ORDER\<close> keys.
\<close>

subsection \<open>Sorted association lists\<close>

fun kput :: "val \<Rightarrow> row_id \<Rightarrow> (val \<times> row_id) list \<Rightarrow> (val \<times> row_id) list" where
  "kput k v [] = [(k, v)]"
| "kput k v ((k', v') # ps) =
     (case vcmp k' k of Less \<Rightarrow> (k', v') # kput k v ps | Equal \<Rightarrow> (k', v) # ps | Greater \<Rightarrow> (k, v) # (k', v') # ps)"

lemma kput_skip: "\<forall>k' \<in> set (map fst pre). vcmp k' k = Less \<Longrightarrow> kput k v (pre @ ps) = pre @ kput k v ps"
  by (induction pre) auto

lemma kput_stop:
  "\<forall>k' \<in> set (map fst post). vcmp k' k = Greater \<Longrightarrow> kput k v (ps @ post) = kput k v ps @ post"
proof (induction ps)
  case Nil
  then show ?case by (cases post) auto
next
  case (Cons p ps)
  then show ?case by (cases p) (auto split: ordering.split)
qed

subsection \<open>Shape\<close>

fun bal :: "nat \<Rightarrow> bt \<Rightarrow> bool" where
  "bal 0 (TLeaf i ks vs nxt) \<longleftrightarrow> True"
| "bal (Suc h) (TNode i ks ts) \<longleftrightarrow> (\<forall>t \<in> set ts. bal h t)"
| "bal _ _ \<longleftrightarrow> False"

fun fits :: "bt \<Rightarrow> bool" where
  "fits (TLeaf i ks vs nxt) \<longleftrightarrow> length ks \<le> ORDER"
| "fits (TNode i ks ts) \<longleftrightarrow> length ks \<le> ORDER \<and> (\<forall>t \<in> set ts. fits t)"

lemma ordered_leaves: "ordered K lo t hi \<Longrightarrow> leaves t \<noteq> []"
proof (induction t arbitrary: lo hi)
  case (TNode i ks ts)
  then obtain u us where ts: "ts = u # us" using ordered_list_length [of K lo ks ts hi] by (cases ts) auto
  have "\<exists>hi. ordered K lo u hi"
    using TNode.prems unfolding ts by (cases ks; cases us) auto
  then show ?case using TNode.IH [of u] unfolding ts by auto
qed simp

lemma chain_replace:
  assumes "chain (A @ M @ B) stop" and "\<And>s. chain M s \<Longrightarrow> chain M' s" and "M \<noteq> []" and "M' \<noteq> []"
    and "fst (hd M') = fst (hd M)"
  shows "chain (A @ M' @ B) stop"
proof -
  obtain m ms m' ms' where M: "M = m # ms" "M' = m' # ms'" using assms(3,4) by (meson list.exhaust)
  have a: "chain A (Some (fst m))" "chain (M @ B) stop"
    using assms(1) chain_append [of A m "ms @ B" stop] M(1) by simp_all
  have "chain (M' @ B) stop"
  proof (cases B)
    case Nil
    then show ?thesis using a(2) assms(2) by simp
  next
    case (Cons b bs)
    then show ?thesis using a(2) assms(2) chain_append [of M b bs stop] chain_append [of M' b bs stop] by simp
  qed
  then show ?thesis
    using a(1) assms(5) chain_append [of A m' "ms' @ B" stop] M by simp
qed

text \<open>
  What an insert leaves behind: the store changes only at nodes of the tree and at new ones, and the tree
  becomes one tree or two trees with a separator between them.
\<close>

definition placed ::
  "val set \<Rightarrow> nat \<Rightarrow> val option \<Rightarrow> val option \<Rightarrow> node list \<Rightarrow> bt \<Rightarrow> (val \<times> row_id) list \<Rightarrow> node list \<Rightarrow> (val \<times> nat) option \<Rightarrow> val list \<Rightarrow> bt list \<Rightarrow> bool" where
  "placed K h lo hi ns t ps ns' up seps us \<longleftrightarrow>
     length ns \<le> length ns' \<and> (\<forall>i < length ns. i \<notin> set (ids t) \<longrightarrow> ns' ! i = ns ! i) \<and>
     (up = None \<and> seps = [] \<and> length us = 1 \<or> (\<exists>sep c u v. up = Some (sep, c) \<and> seps = [sep] \<and> us = [u, v] \<and> bt_id v = c)) \<and>
     bt_id (hd us) = bt_id t \<and> ordered_list K lo seps us hi \<and> (\<forall>u \<in> set us. repr ns' u \<and> bal h u \<and> fits u) \<and>
     distinct (concat (map ids us)) \<and> set (concat (map ids us)) \<subseteq> set (ids t) \<union> {length ns..<length ns'} \<and>
     pairs_of (concat (map leaves us)) = ps \<and>
     (\<forall>stop. chain (leaves t) stop \<longrightarrow> chain (concat (map leaves us)) stop) \<and>
     fst (hd (concat (map leaves us))) = fst (hd (leaves t))"


text \<open>The store between the insert into a child and the update of its parent \<open>TNode i ks ts\<close>.\<close>

definition node_ready ::
  "val set \<Rightarrow> nat \<Rightarrow> val option \<Rightarrow> val option \<Rightarrow> node list \<Rightarrow> bt \<Rightarrow> node list \<Rightarrow> val list \<Rightarrow> bt list \<Rightarrow> bool" where
  "node_ready K h lo hi ns t ns' ks' ts' \<longleftrightarrow>
     bt_id t < length ns \<and> length ns \<le> length ns' \<and> (\<forall>j < length ns. j \<notin> set (ids t) \<longrightarrow> ns' ! j = ns ! j) \<and>
     ordered_list K lo ks' ts' hi \<and> (\<forall>u \<in> set ts'. repr ns' u \<and> bal h u \<and> fits u) \<and>
     distinct (bt_id t # concat (map ids ts')) \<and> set (concat (map ids ts')) \<subseteq> set (ids t) \<union> {length ns..<length ns'} \<and>
     (\<forall>stop. chain (leaves t) stop \<longrightarrow> chain (concat (map leaves ts')) stop) \<and>
     fst (hd (concat (map leaves ts'))) = fst (hd (leaves t))"

lemma placedD:
  assumes "placed K h lo hi ns t ps ns' up seps us"
  shows "length ns \<le> length ns'" and "\<And>i. i < length ns \<Longrightarrow> i \<notin> set (ids t) \<Longrightarrow> ns' ! i = ns ! i"
    and "bt_id (hd us) = bt_id t" and "ordered_list K lo seps us hi" and "length us = 1 \<or> length us = 2"
    and "\<forall>u \<in> set us. repr ns' u \<and> bal h u \<and> fits u" and "distinct (concat (map ids us))"
    and "set (concat (map ids us)) \<subseteq> set (ids t) \<union> {length ns..<length ns'}"
    and "pairs_of (concat (map leaves us)) = ps" and "\<And>stop. chain (leaves t) stop \<Longrightarrow> chain (concat (map leaves us)) stop"
    and "fst (hd (concat (map leaves us))) = fst (hd (leaves t))"
  using assms unfolding placed_def by (blast | force)+

lemma distinct_splice:
  fixes n :: nat
  assumes "distinct (i # A @ C @ B)" and "distinct U" and "set U \<subseteq> set C \<union> {n..<m}" and "\<forall>j \<in> set (i # A @ B). j < n"
  shows "distinct (i # A @ U @ B)"
proof -
  have "j \<notin> set U" if "j \<in> set (i # A @ B)" for j
  proof -
    have "j < n" "j \<notin> set C" using assms(1,4) that by auto
    then show ?thesis using subsetD [OF assms(3), of j] by auto
  qed
  then show ?thesis using assms(1,2) by auto
qed

lemma hd_splice: "U \<noteq> [] \<Longrightarrow> C \<noteq> [] \<Longrightarrow> f (hd U) = f (hd C) \<Longrightarrow> f (hd (A @ U @ B)) = f (hd (A @ C @ B))"
  by (cases A) simp_all

lemma repr_ids: "repr ns u \<Longrightarrow> j \<in> set (ids u) \<Longrightarrow> j < length ns"
  by (induction u) auto

lemma repr_update: "repr ns u \<Longrightarrow> i \<notin> set (ids u) \<Longrightarrow> repr (ns[i := n] @ ms) u"
proof (rule repr_frame)
  assume r: "repr ns u" and i: "i \<notin> set (ids u)"
  fix j
  assume j: "j \<in> set (ids u)"
  then have "j < length ns" using repr_ids [OF r] by blast
  then show "j < length (ns[i := n] @ ms) \<and> (ns[i := n] @ ms) ! j = ns ! j"
    using i j by (cases "i = j") (auto simp: nth_append)
qed

lemma placed_node:
  assumes r: "node_ready K h lo hi ns t ns' ks' ts'" and t: "t = TNode i ks ts" and l: "length ks' \<le> ORDER"
  shows "placed K (Suc h) lo hi ns t (pairs_of (concat (map leaves ts')))
     (ns'[i := Internal ks' (map bt_id ts')]) None [] [TNode i ks' ts']"
proof -
  have "repr (ns'[i := Internal ks' (map bt_id ts')]) u" if "u \<in> set ts'" for u
    using r that repr_update [of ns' u i _ "[]"] by (auto simp: node_ready_def t)
  then show ?thesis
    using r l unfolding t by (auto simp: node_ready_def placed_def)
qed

lemma placed_node_split:
  assumes r: "node_ready K h lo hi ns t ns' (kl @ m # kr) (tsl @ tsr)" and t: "t = TNode i ks ts"
    and ol: "ordered_list K lo [m] [TNode i kl tsl, TNode (length ns') kr tsr] hi"
    and l: "length kl \<le> ORDER" "length kr \<le> ORDER" and ne: "concat (map leaves tsl) \<noteq> []"
  shows "placed K (Suc h) lo hi ns t (pairs_of (concat (map leaves (tsl @ tsr))))
     (ns'[i := Internal kl (map bt_id tsl)] @ [Internal kr (map bt_id tsr)]) (Some (m, length ns')) [m]
     [TNode i kl tsl, TNode (length ns') kr tsr]"
proof -
  let ?ns = "ns'[i := Internal kl (map bt_id tsl)] @ [Internal kr (map bt_id tsr)]"
  have "repr ?ns u" if "u \<in> set (tsl @ tsr)" for u
    using r that repr_update [of ns' u i] by (auto simp: node_ready_def t)
  moreover have "j < length ns'" if "u \<in> set (tsl @ tsr)" "j \<in> set (ids u)" for u j
    using r that repr_ids [of ns' u j] by (auto simp: node_ready_def)
  then have "length ns' \<notin> set (concat (map ids (tsl @ tsr)))" by fastforce
  ultimately show ?thesis
    using r l ol ne unfolding t by (auto simp: node_ready_def placed_def nth_append)
qed

lemma zip_insert:
  "length vs = length ks \<Longrightarrow> zip (take p ks @ k # drop p ks) (take p vs @ v # drop p vs)
     = zip (take p ks) (take p vs) @ (k, v) # zip (drop p ks) (drop p vs)"
  by (subst zip_append) auto

lemma lt_hi_le: "lt_hi k hi \<Longrightarrow> le_hi k hi"
  by (cases hi) simp_all

context key_order
begin

lemma ordered_list_splice:
  assumes "length ts1 = length ks1" and "ordered_list K lo (ks1 @ ks2) (ts1 @ c # ts2) hi" and "bound_ok K hi"
    and "ordered_list K (lo_at lo ks1) seps us (hi_at ks2 hi)" and "length us = 1 \<or> length us = 2"
  shows "ordered_list K lo (ks1 @ seps @ ks2) (ts1 @ us @ ts2) hi"
  using assms(5)
proof
  assume "length us = 1"
  then obtain u where "us = [u]" "seps = []"
    using ordered_list_length [OF assms(4)] by (cases us) auto
  then show ?thesis using ordered_list_replace [OF assms(1,2), of u] assms(4) by simp
next
  assume "length us = 2"
  then obtain u v s where "us = [u, v]" "seps = [s]"
    using ordered_list_length [OF assms(4)] by (cases us rule: remdups_adj.cases; cases seps) auto
  then show ?thesis using ordered_list_split_child [OF assms(1,2), of u s v] assms(3,4) by simp
qed

lemma child_ready:
  assumes t: "t = TNode i ks ts" and o: "ordered K lo t hi" and r: "repr ns t" and d: "distinct (ids t)"
    and b: "bal (Suc h) t" and f: "fits t" and ks: "ks = ks1 @ ks2" and ts: "ts = ts1 @ c # ts2"
    and l: "length ts1 = length ks1" and bo: "bound_ok K hi"
    and p: "placed K h (lo_at lo ks1) (hi_at ks2 hi) ns c ps ns' up seps us"
  shows "node_ready K h lo hi ns t ns' (ks1 @ seps @ ks2) (ts1 @ us @ ts2)"
    and "pairs_of (concat (map leaves (ts1 @ us @ ts2)))
       = pairs_of (concat (map leaves ts1)) @ ps @ pairs_of (concat (map leaves ts2))"
    and "ns' ! i = Internal ks (map bt_id ts)"
proof -
  note pl = placedD [OF p]
  have oc: "ordered K (lo_at lo ks1) c (hi_at ks2 hi)" "ordered_list K lo (ks1 @ ks2) (ts1 @ c # ts2) hi"
    using ordered_list_child [OF l] o unfolding t ks ts by simp_all
  have ol: "ordered_list K lo (ks1 @ seps @ ks2) (ts1 @ us @ ts2) hi"
    by (rule ordered_list_splice [OF l oc(2) bo pl(4,5)])
  have d': "distinct (i # concat (map ids (ts1 @ ts2)) @ ids c)"
    using d unfolding t ts by auto
  have i: "i < length ns" "i \<notin> set (ids c)" using r d' unfolding t by simp_all
  have rep: "repr ns' u" if u: "u \<in> set (ts1 @ ts2)" for u
  proof (rule repr_frame)
    show ru: "repr ns u" using r u unfolding t ts by auto
    fix j
    assume j: "j \<in> set (ids u)"
    then have "j \<in> set (concat (map ids (ts1 @ ts2)))" using u by auto
    then have "j \<notin> set (ids c)" using d' by (meson disjoint_iff distinct_append distinct.simps(2))
    then show "j < length ns' \<and> ns' ! j = ns ! j"
      using repr_ids [OF ru j] pl(1,2) by simp
  qed
  show "ns' ! i = Internal ks (map bt_id ts)"
    using pl(2) i(1,2) r unfolding t by simp
  show "pairs_of (concat (map leaves (ts1 @ us @ ts2)))
       = pairs_of (concat (map leaves ts1)) @ ps @ pairs_of (concat (map leaves ts2))"
    using pl(9) by simp
  have old: "j < length ns" if "j \<in> set (concat (map ids (ts1 @ ts2)))" for j
    using that r repr_ids unfolding t ts by fastforce
  have "distinct (i # concat (map ids ts1) @ concat (map ids us) @ concat (map ids ts2))"
  proof (rule distinct_splice [OF _ pl(7,8)])
    show "distinct (i # concat (map ids ts1) @ ids c @ concat (map ids ts2))"
      using d unfolding t ts by simp
    show "\<forall>j \<in> set (i # concat (map ids ts1) @ concat (map ids ts2)). j < length ns"
      using old i(1) by simp
  qed
  then have dis: "distinct (bt_id t # concat (map ids (ts1 @ us @ ts2)))"
    unfolding t by simp
  have sub: "set (concat (map ids (ts1 @ us @ ts2))) \<subseteq> set (ids t) \<union> {length ns..<length ns'}"
    using pl(8) unfolding t ts by auto
  have ne: "leaves c \<noteq> []" "concat (map leaves us) \<noteq> []"
    using ordered_leaves [OF oc(1)] ordered_leaves [of K _ "TNode 0 seps us"] pl(4) by auto
  have ch: "chain (concat (map leaves (ts1 @ us @ ts2))) stop" if "chain (leaves t) stop" for stop
    using chain_replace [OF _ pl(10) ne pl(11), of "concat (map leaves ts1)" "concat (map leaves ts2)" stop] that
    unfolding t ts by simp
  have fh: "fst (hd (concat (map leaves (ts1 @ us @ ts2)))) = fst (hd (leaves t))"
    using hd_splice [OF ne(2,1) pl(11)] unfolding t ts by simp
  have all: "\<forall>u \<in> set (ts1 @ us @ ts2). repr ns' u \<and> bal h u \<and> fits u"
    using rep b f pl(6) unfolding t ts by auto
  show "node_ready K h lo hi ns t ns' (ks1 @ seps @ ks2) (ts1 @ us @ ts2)"
    unfolding node_ready_def using ol all dis sub ch fh pl(1,2) i(1) unfolding t ts by simp
qed

lemma leaf_split_ordered:
  assumes "ordered K lo (TLeaf i ks vs nxt) hi" and m: "m < length ks"
  shows "ordered_list K lo [ks ! m] [TLeaf i (take m ks) us n, TLeaf j (drop m ks) ws n'] hi"
proof -
  have s: "sorted_wrt (\<lambda>a b. vcmp a b = Less) (take m ks @ ks ! m # drop (Suc m) ks)"
    and k: "\<And>k. k \<in> set ks \<Longrightarrow> k \<in> K \<and> lo_le lo k \<and> lt_hi k hi"
    using assms(1) id_take_nth_drop [OF m] by simp_all
  have d: "drop m ks = ks ! m # drop (Suc m) ks"
    using Cons_nth_drop_Suc [OF m] by simp
  have c: "ks ! m \<in> K" "lo_le lo (ks ! m)" "lt_hi (ks ! m) hi"
    using k [of "ks ! m"] m by simp_all
  have "\<forall>k \<in> set (take m ks). k \<in> K \<and> lo_le lo k" "\<forall>k \<in> set (drop (Suc m) ks). k \<in> K \<and> lt_hi k hi"
    using k by (meson in_set_takeD in_set_dropD)+
  then show ?thesis
    using s c lt_hi_le [OF c(3)] cmp_refl [OF c(1)] unfolding d by (auto simp: sorted_wrt_append)
qed

lemma placed_leaf:
  assumes "repr ns (TLeaf i ks vs nxt)" and "ordered K lo (TLeaf i ks' vs' nxt) hi" and "length vs' = length ks'"
    and "length ks' \<le> ORDER"
  shows "placed K 0 lo hi ns (TLeaf i ks vs nxt) (zip ks' vs') (ns[i := Leaf ks' vs' nxt]) None [] [TLeaf i ks' vs' nxt]"
  using assms by (simp add: placed_def)

lemma placed_leaf_split:
  assumes "repr ns (TLeaf i ks vs nxt)" and "length vl = length kl" and "length vr = length kr"
    and "ordered_list K lo [sep] [TLeaf i kl vl (Some (length ns)), TLeaf (length ns) kr vr nxt] hi"
    and "length kl \<le> ORDER" and "length kr \<le> ORDER"
  shows "placed K 0 lo hi ns (TLeaf i ks vs nxt) (zip kl vl @ zip kr vr)
     (ns[i := Leaf kl vl (Some (length ns))] @ [Leaf kr vr nxt]) (Some (sep, length ns)) [sep]
     [TLeaf i kl vl (Some (length ns)), TLeaf (length ns) kr vr nxt]"
  using assms by (simp add: placed_def nth_append)

lemma leaf_put_placed:
  assumes r: "repr ns (TLeaf i ks vs nxt)" and p: "pos \<le> length ks" and f: "length ks \<le> ORDER"
    and o: "ordered K lo (TLeaf i (take pos ks @ key # drop pos ks) w n) hi"
  shows "\<exists>ns' up seps us. leaf_put ns i pos key rid = Some (ns', up) \<and>
     placed K 0 lo hi ns (TLeaf i ks vs nxt) (zip (take pos ks) (take pos vs) @ (key, rid) # zip (drop pos ks) (drop pos vs))
       ns' up seps us"
proof -
  let ?ks = "take pos ks @ key # drop pos ks" and ?vs = "take pos vs @ rid # drop pos vs" and ?mid = "Suc (length ks) div 2"
  have n: "i < length ns" "ns ! i = Leaf ks vs nxt" "length vs = length ks" using r by simp_all
  have l: "length ?ks = Suc (length ks)" "length ?vs = Suc (length ks)" using p n(3) by simp_all
  note z = zip_insert [OF n(3), of pos key rid]
  show ?thesis
  proof (cases "Suc (length ks) \<le> ORDER")
    case True
    let ?ns = "ns[i := Leaf ?ks ?vs nxt]" and ?t = "TLeaf i ?ks ?vs nxt"
    have "leaf_put ns i pos key rid = Some (?ns, None)"
      using n p True by (simp add: leaf_put_def index_run_def vec_insert_def)
    moreover have "placed K 0 lo hi ns (TLeaf i ks vs nxt) (zip ?ks ?vs) ?ns None [] [?t]"
      using r o l True by (intro placed_leaf) simp_all
    ultimately show ?thesis unfolding z by blast
  next
    case False
    let ?t = "TLeaf i (take ?mid ?ks) (take ?mid ?vs) (Some (length ns))"
    let ?u = "TLeaf (length ns) (drop ?mid ?ks) (drop ?mid ?vs) nxt"
    let ?ns = "ns[i := Leaf (take ?mid ?ks) (take ?mid ?vs) (Some (length ns))] @ [Leaf (drop ?mid ?ks) (drop ?mid ?vs) nxt]"
    have m: "?mid < length ?ks" unfolding l using f by simp
    have "leaf_put ns i pos key rid = Some (?ns, Some (?ks ! ?mid, length ns))"
      using n p False l by (simp add: leaf_put_def index_run_def vec_insert_def Let_def)
    moreover have "ordered_list K lo [?ks ! ?mid] [?t, ?u] hi"
      by (rule leaf_split_ordered [OF o m])
    moreover have "zip ?ks ?vs = zip (take ?mid ?ks) (take ?mid ?vs) @ zip (drop ?mid ?ks) (drop ?mid ?vs)"
      using l zip_append [of "take ?mid ?ks" "take ?mid ?vs"] by (metis append_take_drop_id length_take)
    moreover have "length (take ?mid ?ks) \<le> ORDER" "length (drop ?mid ?ks) \<le> ORDER"
      using f False unfolding length_take length_drop l by (simp_all add: ORDER_def)
    moreover have "length (take ?mid ?vs) = length (take ?mid ?ks)" "length (drop ?mid ?vs) = length (drop ?mid ?ks)"
      unfolding length_take length_drop l by simp_all
    ultimately have "placed K 0 lo hi ns (TLeaf i ks vs nxt) (zip ?ks ?vs) ?ns (Some (?ks ! ?mid, length ns)) [?ks ! ?mid] [?t, ?u]"
      using placed_leaf_split [OF r] by presburger
    then show ?thesis
      using \<open>leaf_put ns i pos key rid = _\<close> unfolding z by blast
  qed
qed


lemma split_node_placed:
  assumes r: "node_ready K h lo hi ns t ns' ks' ts'" and t: "t = TNode i ks ts" and m: "mid < length ks'"
    and f: "length ks' \<le> Suc ORDER" and b: "bound_ok K lo" and m0: "0 < mid"
  shows "placed K (Suc h) lo hi ns t (pairs_of (concat (map leaves ts')))
     (ns'[i := Internal (take mid ks') (map bt_id (take (mid + 1) ts'))] @
       [Internal (drop (mid + 1) ks') (map bt_id (drop (mid + 1) ts'))]) (Some (ks' ! mid, length ns')) [ks' ! mid]
     [TNode i (take mid ks') (take (mid + 1) ts'), TNode (length ns') (drop (mid + 1) ks') (drop (mid + 1) ts')]"
proof -
  let ?tl = "take (mid + 1) ts'" and ?tr = "drop (mid + 1) ts'" and ?kl = "take mid ks'" and ?kr = "drop (mid + 1) ks'"
  have ol: "ordered_list K lo ks' ts' hi" using r unfolding node_ready_def by blast
  have split: "ks' = ?kl @ ks' ! mid # ?kr" "ts' = ?tl @ ?tr"
    using id_take_nth_drop [OF m] by simp_all
  have len: "length ?tl = Suc (length ?kl)" using ordered_list_length [OF ol] m by simp
  have h: "ordered_list K lo ?kl ?tl (Some (ks' ! mid)) \<and> ks' ! mid \<in> K \<and> lo_le lo (ks' ! mid) \<and>
      le_hi (ks' ! mid) hi \<and> ordered_list K (Some (ks' ! mid)) ?kr ?tr hi"
    using ol by (intro ordered_list_halves [OF len _ b]) (simp only: split [symmetric])
  have "placed K (Suc h) lo hi ns t (pairs_of (concat (map leaves (?tl @ ?tr))))
     (ns'[i := Internal ?kl (map bt_id ?tl)] @ [Internal ?kr (map bt_id ?tr)]) (Some (ks' ! mid, length ns')) [ks' ! mid]
     [TNode i ?kl ?tl, TNode (length ns') ?kr ?tr]"
  proof (rule placed_node_split [OF _ t])
    show "node_ready K h lo hi ns t ns' (?kl @ ks' ! mid # ?kr) (?tl @ ?tr)"
      using r by (simp only: split [symmetric])
    show "ordered_list K lo [ks' ! mid] [TNode i ?kl ?tl, TNode (length ns') ?kr ?tr] hi"
      using h by simp
    show "length ?kl \<le> ORDER" "length ?kr \<le> ORDER" using f m m0 by simp_all
    show "concat (map leaves ?tl) \<noteq> []"
      using h ordered_leaves [of K lo "TNode 0 ?kl ?tl"] by (metis leaves.simps(2) ordered.simps(2))
  qed
  then show ?thesis by (simp only: append_take_drop_id)
qed

lemma internal_put_placed:
  assumes t: "t = TNode i ks ts" and r: "node_ready K h lo hi ns t ns' (ks1 @ [sep] @ ks2) (ts1 @ [u, v] @ ts2)"
    and n: "ns' ! i = Internal ks (map bt_id ts)" and ks: "ks = ks1 @ ks2" and ts: "ts = ts1 @ c # ts2"
    and l: "length ts1 = length ks1" and id: "bt_id u = bt_id c" "bt_id v = child" and f: "length ks \<le> ORDER"
    and b: "bound_ok K lo"
  shows "\<exists>ns'' up seps us. internal_put ns' i (length ks1) sep child = Some (ns'', up) \<and>
     placed K (Suc h) lo hi ns t (pairs_of (concat (map leaves (ts1 @ [u, v] @ ts2)))) ns'' up seps us"
proof -
  define ks' ts' where d: "ks' = ks1 @ [sep] @ ks2" "ts' = ts1 @ [u, v] @ ts2"
  note r' = r [folded d]
  have i: "i < length ns'" using r unfolding node_ready_def t by simp
  have ol: "ordered_list K lo ks' ts' hi" using r' unfolding node_ready_def by blast
  have ins: "vec_insert (length ks1) sep ks = Some ks'" "vec_insert (length ks1 + 1) child (map bt_id ts) = Some (map bt_id ts')"
    using l id unfolding ks ts d vec_insert_def by simp_all
  have lk: "length ks' = Suc (length ks)" unfolding d ks by simp
  show ?thesis
  proof (cases "length ks' \<le> ORDER")
    case True
    then have "internal_put ns' i (length ks1) sep child = Some (ns'[i := Internal ks' (map bt_id ts')], None)"
      unfolding internal_put_def index_run_def using i n ins by simp
    then show ?thesis using placed_node [OF r' t True] unfolding d by blast
  next
    case False
    define mid where "mid = length ks' div 2"
    have m: "mid < length ks'" "0 < mid" using False by (simp_all add: mid_def ORDER_def)
    have "length ts' \<ge> mid + 1" using ordered_list_length [OF ol] m by simp
    then have "internal_put ns' i (length ks1) sep child =
        Some (ns'[i := Internal (take mid ks') (map bt_id (take (mid + 1) ts'))] @
               [Internal (drop (mid + 1) ks') (map bt_id (drop (mid + 1) ts'))], Some (ks' ! mid, length ns'))"
      unfolding internal_put_def index_run_def using i n ins False
      by (simp add: Let_def mid_def [symmetric] take_map drop_map)
    then show ?thesis
      using split_node_placed [OF r' t m(1) _ b m(2)] lk f unfolding d by auto
  qed
qed


subsection \<open>Choosing a child\<close>

lemma partitioned_le:
  assumes "key \<in> K" and "set ks \<subseteq> K" and "sorted_wrt (\<lambda>a b. vcmp a b \<noteq> Greater) ks"
  shows "partitioned (\<lambda>k. vcmp k key \<noteq> Greater) ks" and "partitioned (\<lambda>k. vcmp k key = Less) ks"
proof -
  have "vcmp (ks ! i) (ks ! j) \<noteq> Greater \<and> ks ! i \<in> K \<and> ks ! j \<in> K" if "i < j" "j < length ks" for i j
    using that sorted_wrt_nth_less [OF assms(3) that] assms(2) nth_mem [of i ks] nth_mem [of j ks] by auto
  then show "partitioned (\<lambda>k. vcmp k key \<noteq> Greater) ks" "partitioned (\<lambda>k. vcmp k key = Less) ks"
    unfolding partitioned_def using cmp_le_trans [OF _ _ assms(1)] cmp_le_less_trans [OF _ _ assms(1)] by blast+
qed

lemma sorted_lt_le: "sorted_wrt (\<lambda>a b. vcmp a b = Less) ks \<Longrightarrow> sorted_wrt (\<lambda>a b. vcmp a b \<noteq> Greater) ks"
  by (rule sorted_wrt_mono_rel [of ks "\<lambda>a b. vcmp a b = Less"]) simp

lemma pick_le_parts:
  assumes "key \<in> K" and "set ks \<subseteq> K" and "sorted_wrt (\<lambda>a b. vcmp a b \<noteq> Greater) ks"
  shows "pick_le key ks \<le> length ks" and "\<forall>s \<in> set (take (pick_le key ks) ks). vcmp s key \<noteq> Greater"
    and "\<forall>s \<in> set (drop (pick_le key ks) ks). vcmp key s = Less"
proof -
  note p = partitioned_le(1) [OF assms]
  have e: "pick_le key ks = point_of (\<lambda>k. vcmp k key \<noteq> Greater) ks"
    by (simp add: pick_le_def partition_point_eq [OF p])
  show "pick_le key ks \<le> length ks" unfolding e by (rule point_of_le)
  show "\<forall>s \<in> set (take (pick_le key ks) ks). vcmp s key \<noteq> Greater"
    unfolding e by (intro ballI take_point [of _ "\<lambda>k. vcmp k key \<noteq> Greater" ks])
  show "\<forall>s \<in> set (drop (pick_le key ks) ks). vcmp key s = Less"
  proof
    fix x
    assume x: "x \<in> set (drop (pick_le key ks) ks)"
    then have "x \<in> K" using assms(2) in_set_dropD by fastforce
    then show "vcmp key x = Less"
      using drop_point [OF p, of x] x assms(1) cmp_flip [of x key] unfolding e [symmetric] by simp
  qed
qed

lemma pick_lt_parts:
  assumes "key \<in> K" and "set ks \<subseteq> K" and "sorted_wrt (\<lambda>a b. vcmp a b \<noteq> Greater) ks"
  shows "pick_lt key ks \<le> length ks" and "\<forall>s \<in> set (take (pick_lt key ks) ks). vcmp s key = Less"
    and "\<forall>s \<in> set (drop (pick_lt key ks) ks). vcmp key s \<noteq> Greater"
proof -
  note p = partitioned_le(2) [OF assms]
  have e: "pick_lt key ks = point_of (\<lambda>k. vcmp k key = Less) ks"
    by (simp add: pick_lt_def partition_point_eq [OF p])
  show "pick_lt key ks \<le> length ks" unfolding e by (rule point_of_le)
  show "\<forall>s \<in> set (take (pick_lt key ks) ks). vcmp s key = Less"
    unfolding e by (intro ballI take_point [of _ "\<lambda>k. vcmp k key = Less" ks])
  show "\<forall>s \<in> set (drop (pick_lt key ks) ks). vcmp key s \<noteq> Greater"
  proof
    fix x
    assume x: "x \<in> set (drop (pick_lt key ks) ks)"
    then have "x \<in> K" using assms(2) in_set_dropD by fastforce
    then show "vcmp key x \<noteq> Greater"
      using drop_point [OF p, of x] x assms(1) cmp_flip [of x key] unfolding e [symmetric] by simp
  qed
qed

lemma picks_le: "key \<in> K \<Longrightarrow> picks K (pick_le key) (\<lambda>k. vcmp k key = Less) (\<lambda>k. vcmp key k = Less)"
  unfolding picks_def
proof (intro allI impI)
  fix ks
  assume key: "key \<in> K" and s: "sorted_wrt (\<lambda>a b. vcmp a b \<noteq> Greater) ks" "set ks \<subseteq> K"
  note p = pick_le_parts [OF key s(2,1)]
  have "vcmp k key = Less" if "x \<in> set (take (pick_le key ks) ks)" "k \<in> K" "vcmp k x = Less" for x k
    using cmp_less_le_trans [of k x key] p(2) that key subsetD [OF s(2) in_set_takeD [OF that(1)]] by blast
  moreover have "vcmp key k = Less" if "x \<in> set (drop (pick_le key ks) ks)" "k \<in> K" "vcmp x k \<noteq> Greater" for x k
    using cmp_less_le_trans [of key x k] p(3) that key subsetD [OF s(2) in_set_dropD [OF that(1)]] by blast
  ultimately show "pick_le key ks \<le> length ks \<and>
     (\<forall>s \<in> set (take (pick_le key ks) ks). \<forall>k \<in> K. vcmp k s = Less \<longrightarrow> vcmp k key = Less) \<and>
     (\<forall>s \<in> set (drop (pick_le key ks) ks). \<forall>k \<in> K. vcmp s k \<noteq> Greater \<longrightarrow> vcmp key k = Less)"
    using p(1) by blast
qed

lemma picks_lt: "key \<in> K \<Longrightarrow> picks K (pick_lt key) (\<lambda>k. vcmp k key = Less) (\<lambda>k. vcmp key k \<noteq> Greater)"
  unfolding picks_def
proof (intro allI impI)
  fix ks
  assume key: "key \<in> K" and s: "sorted_wrt (\<lambda>a b. vcmp a b \<noteq> Greater) ks" "set ks \<subseteq> K"
  note p = pick_lt_parts [OF key s(2,1)]
  have "vcmp k key = Less" if "x \<in> set (take (pick_lt key ks) ks)" "k \<in> K" "vcmp k x = Less" for x k
    using cmp_trans [of k x key] p(2) that key subsetD [OF s(2) in_set_takeD [OF that(1)]] by blast
  moreover have "vcmp key k \<noteq> Greater" if "x \<in> set (drop (pick_lt key ks) ks)" "k \<in> K" "vcmp x k \<noteq> Greater" for x k
    using cmp_le_trans [of key x k] p(3) that key subsetD [OF s(2) in_set_dropD [OF that(1)]] by blast
  ultimately show "pick_lt key ks \<le> length ks \<and>
     (\<forall>s \<in> set (take (pick_lt key ks) ks). \<forall>k \<in> K. vcmp k s = Less \<longrightarrow> vcmp k key = Less) \<and>
     (\<forall>s \<in> set (drop (pick_lt key ks) ks). \<forall>k \<in> K. vcmp s k \<noteq> Greater \<longrightarrow> vcmp key k \<noteq> Greater)"
    using p(1) by blast
qed

lemma picks_first: "picks K pick_first (\<lambda>k. False) (\<lambda>k. True)"
  by (simp add: picks_def pick_first_def)


subsection \<open>The recursion\<close>

lemma pick_lt_found:
  assumes key: "key \<in> K" and ks: "set ks \<subseteq> K" and s: "sorted_wrt (\<lambda>a b. vcmp a b = Less) ks"
  shows "(pick_lt key ks < length ks \<and> ks ! pick_lt key ks = key) \<longleftrightarrow> key \<in> set ks"
    and "key \<notin> set ks \<Longrightarrow> \<forall>k \<in> set (drop (pick_lt key ks) ks). vcmp k key = Greater"
    and "\<forall>k \<in> set (drop (Suc (pick_lt key ks)) ks). key \<in> set ks \<longrightarrow> vcmp k key = Greater"
proof -
  define p where "p = pick_lt key ks"
  note parts = pick_lt_parts [OF key ks sorted_lt_le [OF s], folded p_def]
  have sd: "sorted_wrt (\<lambda>a b. vcmp a b = Less) (drop p ks)" using s by (rule sorted_wrt_drop)
  have nt: "key \<notin> set (take p ks)"
    using parts(2) cmp_refl [OF key] by auto
  have g: "vcmp k key = Greater" if "k \<in> set (drop p ks)" "k \<noteq> key" for k
  proof -
    have "k \<in> K" using that(1) ks in_set_dropD by fastforce
    then show ?thesis
      using parts(3) that cmp_flip [of key k] cmp_Equal [of key k] key by (cases "vcmp key k") auto
  qed
  have f': "p < length ks \<and> ks ! p = key" if "key \<in> set ks"
  proof -
    have k: "key \<in> set (drop p ks)"
      using that nt set_append [of "take p ks" "drop p ks"] by simp
    then have l: "p < length ks" by (cases "p < length ks") simp_all
    then have d: "drop p ks = ks ! p # drop (Suc p) ks" by (simp add: Cons_nth_drop_Suc)
    have "ks ! p = key \<or> key \<in> set (drop (Suc p) ks)" using k d by auto
    moreover have "\<forall>k \<in> set (drop (Suc p) ks). vcmp (ks ! p) k = Less"
      using sd unfolding d by simp
    moreover have "ks ! p \<noteq> key \<Longrightarrow> vcmp (ks ! p) key = Greater"
      using g [of "ks ! p"] unfolding d by simp
    ultimately show ?thesis using l by (cases "ks ! p = key") auto
  qed
  then show f: "(pick_lt key ks < length ks \<and> ks ! pick_lt key ks = key) \<longleftrightarrow> key \<in> set ks"
    unfolding p_def [symmetric] by auto
  show "key \<notin> set ks \<Longrightarrow> \<forall>k \<in> set (drop (pick_lt key ks) ks). vcmp k key = Greater"
    unfolding p_def [symmetric]
  proof
    fix k
    assume "key \<notin> set ks" and k: "k \<in> set (drop p ks)"
    then show "vcmp k key = Greater" using in_set_dropD [OF k] by (intro g) auto
  qed
  show "\<forall>k \<in> set (drop (Suc (pick_lt key ks)) ks). key \<in> set ks \<longrightarrow> vcmp k key = Greater"
    unfolding p_def [symmetric]
  proof (intro ballI impI)
    fix k
    assume k: "k \<in> set (drop (Suc p) ks)" and "key \<in> set ks"
    then have p: "p < length ks" "ks ! p = key" using f by (simp_all add: p_def)
    then have d: "drop p ks = key # drop (Suc p) ks" using Cons_nth_drop_Suc [of p ks] by simp
    have "vcmp key k = Less" using sd k unfolding d by simp
    moreover have "k \<in> K" using k ks in_set_dropD by fastforce
    ultimately show "vcmp k key = Greater" using cmp_flip [of key k] key by simp
  qed
qed

lemma put_leaf:
  assumes key: "key \<in> K" and ks: "set ks \<subseteq> K" and s: "sorted_wrt (\<lambda>a b. vcmp a b = Less) ks" and l: "length vs = length ks"
  defines "p \<equiv> pick_lt key ks"
  shows "kput key rid (zip ks vs) =
    (if key \<in> set ks then zip ks (vs[p := rid]) else zip (take p ks) (take p vs) @ (key, rid) # zip (drop p ks) (drop p vs))"
proof -
  note parts = pick_lt_parts [OF key ks sorted_lt_le [OF s], folded p_def]
  note found = pick_lt_found [OF key ks s, folded p_def]
  have z: "zip ks vs = zip (take p ks) (take p vs) @ zip (drop p ks) (drop p vs)"
    using l by (metis append_take_drop_id length_take zip_append)
  have "kput key rid (zip ks vs) = zip (take p ks) (take p vs) @ kput key rid (zip (drop p ks) (drop p vs))"
    unfolding z using parts(2) by (intro kput_skip) (auto dest: set_zip_leftD)
  also have "\<dots> = (if key \<in> set ks then zip ks (vs[p := rid]) else zip (take p ks) (take p vs) @ (key, rid) # zip (drop p ks) (drop p vs))"
  proof (cases "key \<in> set ks")
    case True
    then have p: "p < length ks" "ks ! p = key" using found(1) by simp_all
    have d: "drop p ks = key # drop (Suc p) ks" "drop p vs = vs ! p # drop (Suc p) vs"
      using p l by (metis Cons_nth_drop_Suc)+
    have "zip ks (vs[p := rid]) = zip (take p ks @ key # drop (Suc p) ks) (take p vs @ rid # drop (Suc p) vs)"
      using p l d(1) by (metis append_take_drop_id upd_conv_take_nth_drop)
    also have "\<dots> = zip (take p ks) (take p vs) @ (key, rid) # zip (drop (Suc p) ks) (drop (Suc p) vs)"
      using l by (subst zip_append) auto
    finally show ?thesis using True d cmp_refl [OF key] by simp
  next
    case False
    have "kput key rid (zip (drop p ks) (drop p vs)) = (key, rid) # zip (drop p ks) (drop p vs)"
    proof (cases "zip (drop p ks) (drop p vs)")
      case (Cons x xs)
      then have "fst x \<in> set (drop p ks)" by (metis list.set_intros(1) prod.collapse set_zip_leftD)
      then have "vcmp (fst x) key = Greater" using found(2) False by blast
      then show ?thesis using Cons by (cases x) simp
    next
      case Nil
      then show ?thesis by (simp only: kput.simps)
    qed
    then show ?thesis using False by simp
  qed
  finally show ?thesis .
qed


lemma insert_leaf:
  assumes o: "ordered K lo (TLeaf i ks vs nxt) hi" and r: "repr ns (TLeaf i ks vs nxt)" and f: "fits (TLeaf i ks vs nxt)"
    and key: "key \<in> K" "lo_le lo key" "lt_hi key hi"
  shows "\<exists>ns' up seps us. insert_recursive ns i key rid True = Some (ns', up, key \<in> set ks) \<and>
     placed K 0 lo hi ns (TLeaf i ks vs nxt) (kput key rid (zip ks vs)) ns' up seps us"
proof -
  define p where "p = pick_lt key ks"
  have ks: "set ks \<subseteq> K" "sorted_wrt (\<lambda>a b. vcmp a b = Less) ks" and n: "i < length ns" "ns ! i = Leaf ks vs nxt" "length vs = length ks"
    using o r by auto
  note found = pick_lt_found [OF key(1) ks, folded p_def] and parts = pick_lt_parts [OF key(1) ks(1) sorted_lt_le [OF ks(2)], folded p_def]
  note put = put_leaf [OF key(1) ks n(3), of rid, folded p_def]
  have step: "insert_recursive ns i key rid True =
      (if key \<in> set ks then Some (ns[i := Leaf ks (vs[p := rid]) nxt], None, True)
       else Option.bind (leaf_put ns i p key rid) (\<lambda>(ns', up). Some (ns', up, False)))"
    using n by (subst insert_recursive.simps) (simp add: index_run_def p_def [symmetric] value_eq_iff found(1), use found(1) in blast)
  show ?thesis
  proof (cases "key \<in> set ks")
    case True
    have "placed K 0 lo hi ns (TLeaf i ks vs nxt) (zip ks (vs[p := rid])) (ns[i := Leaf ks (vs[p := rid]) nxt]) None []
        [TLeaf i ks (vs[p := rid]) nxt]"
      using r o f n by (intro placed_leaf) simp_all
    then show ?thesis unfolding step put using True by auto
  next
    case False
    have "sorted_wrt (\<lambda>a b. vcmp a b = Less) (take p ks @ key # drop p ks)"
    proof -
      have "sorted_wrt (\<lambda>a b. vcmp a b = Less) (take p ks @ drop p ks)" using ks(2) by simp
      then have "vcmp a b = Less" if "a \<in> set (take p ks)" "b \<in> set (drop p ks)" for a b
        using that unfolding sorted_wrt_append by blast
      moreover have "vcmp key b = Less" if b: "b \<in> set (drop p ks)" for b
        using found(2) [OF False] b cmp_flip [of b key] key(1) subsetD [OF ks(1) in_set_dropD [OF b]] by simp
      ultimately show ?thesis
        using parts(2) ks(2) by (simp add: sorted_wrt_append sorted_wrt_take sorted_wrt_drop)
    qed
    moreover have "\<forall>k \<in> set (take p ks @ key # drop p ks). k \<in> K \<and> lo_le lo k \<and> lt_hi k hi"
    proof
      fix k
      assume "k \<in> set (take p ks @ key # drop p ks)"
      then have "k = key \<or> k \<in> set ks" using in_set_takeD [of k p ks] in_set_dropD [of k p ks] by auto
      then show "k \<in> K \<and> lo_le lo k \<and> lt_hi k hi" using o key by auto
    qed
    ultimately have "ordered K lo (TLeaf i (take p ks @ key # drop p ks) vs nxt) hi" by simp
    moreover have "length ks \<le> ORDER" using f by simp
    ultimately obtain ns' up seps us where "leaf_put ns i p key rid = Some (ns', up)"
        "placed K 0 lo hi ns (TLeaf i ks vs nxt) (zip (take p ks) (take p vs) @ (key, rid) # zip (drop p ks) (drop p vs)) ns' up seps us"
      using leaf_put_placed [OF r parts(1)] by blast
    then show ?thesis unfolding step put using False by auto
  qed
qed

text \<open>The child of an internal node that a key belongs to.\<close>

lemma node_at_key:
  assumes ol: "ordered_list K lo ks ts hi" and r: "\<forall>t \<in> set ts. repr ns t" and lo: "bound_ok K lo" and hi: "bound_ok K hi"
    and key: "key \<in> K" "lo_le lo key" "lt_hi key hi"
  obtains ks1 ks2 ts1 c ts2 where "ks = ks1 @ ks2" "ts = ts1 @ c # ts2" "length ts1 = length ks1" "pick_le key ks = length ks1"
    "bound_ok K (lo_at lo ks1)" "bound_ok K (hi_at ks2 hi)" "ordered K (lo_at lo ks1) c (hi_at ks2 hi)"
    "lo_le (lo_at lo ks1) key" "lt_hi key (hi_at ks2 hi)"
    "\<forall>k \<in> set (map fst (pairs_of (concat (map leaves ts1)))). vcmp k key = Less"
    "\<forall>k \<in> set (map fst (pairs_of (concat (map leaves ts2)))). vcmp k key = Greater"
proof -
  define p where "p = pick_le key ks"
  have sk: "set ks \<subseteq> K" and ss: "sorted_wrt (\<lambda>a b. vcmp a b \<noteq> Greater) ks"
    using ordered_list_seps [OF ol lo] by blast+
  note parts = pick_le_parts [OF key(1) sk ss, folded p_def]
  have pl: "p < length ts" using ordered_list_length [OF ol] parts(1) by simp
  define ks1 ks2 ts1 ts2 c where d: "ks1 = take p ks" "ks2 = drop p ks" "ts1 = take p ts" "ts2 = drop (Suc p) ts" "c = ts ! p"
  have split: "ks = ks1 @ ks2" "ts = ts1 @ c # ts2" "length ts1 = length ks1" "pick_le key ks = length ks1"
    using parts(1) pl by (simp_all add: d id_take_nth_drop p_def [symmetric])
  have sk': "set ks1 \<subseteq> K" "set ks2 \<subseteq> K" using sk split(1) by auto
  have b: "bound_ok K (lo_at lo ks1)" "bound_ok K (hi_at ks2 hi)"
    using sk' lo hi by (auto simp: lo_at_def hi_at_def)
  have kb: "lo_le (lo_at lo ks1) key" "lt_hi key (hi_at ks2 hi)"
    using key(2,3) parts(2,3) unfolding d by (auto simp: lo_at_def hi_at_def)
  have left: "vcmp k key = Less" if k: "k \<in> set (map fst (pairs_of (concat (map leaves ts1))))" for k
  proof -
    have "\<forall>t \<in> set ts1. repr ns t" using r split(2) by simp
    from ordered_list_left [OF split(3) ol [unfolded split(1,2)] lo this k]
    obtain s where s: "k \<in> K" "s \<in> set ks1" "vcmp k s = Less" by blast
    then show ?thesis using cmp_less_le_trans [of k s key] key(1) parts(2) sk'(1) unfolding d by blast
  qed
  have right: "vcmp k key = Greater" if k: "k \<in> set (map fst (pairs_of (concat (map leaves ts2))))" for k
  proof -
    have "\<forall>t \<in> set ts2. repr ns t" using r split(2) by simp
    from ordered_list_right [OF ordered_list_drop [OF split(3) ol [unfolded split(1,2)]] b(1) hi this k]
    obtain s where "k \<in> K" "s \<in> set ks2" "vcmp s k \<noteq> Greater" by blast
    moreover from this have "vcmp key s = Less" "s \<in> K" using parts(3) sk'(2) unfolding d by blast+
    ultimately show ?thesis
      using cmp_less_le_trans [of key s k] cmp_flip [of key k] key(1) by simp
  qed
  show thesis
    using that [OF split b ordered_list_child [OF split(3) ol [unfolded split(1,2)]] kb] left right by blast
qed

lemma insert_recursive_placed:
  assumes "ordered K lo t hi" and "repr ns t" and "distinct (ids t)" and "bal h t" and "fits t"
    and "bound_ok K lo" and "bound_ok K hi" and "key \<in> K" and "lo_le lo key" and "lt_hi key hi"
  shows "\<exists>ns' up seps us. insert_recursive ns (bt_id t) key rid True = Some (ns', up, key \<in> set (map fst (entries t))) \<and>
     placed K h lo hi ns t (kput key rid (entries t)) ns' up seps us"
  using assms
proof (induction t arbitrary: lo hi h)
  case (TLeaf i ks vs nxt)
  then have "h = 0" by (cases h) auto
  then show ?case using insert_leaf [of lo i ks vs nxt hi ns key rid] TLeaf.prems by (simp add: entries_def)
next
  case (TNode i ks ts)
  obtain h' where h: "h = Suc h'" using TNode.prems(4) by (cases h) auto
  have ts: "\<forall>t \<in> set ts. repr ns t" using TNode.prems(2) by simp
  obtain ks1 ks2 ts1 c ts2 where split: "ks = ks1 @ ks2" "ts = ts1 @ c # ts2" "length ts1 = length ks1" "pick_le key ks = length ks1"
    and b: "bound_ok K (lo_at lo ks1)" "bound_ok K (hi_at ks2 hi)" "ordered K (lo_at lo ks1) c (hi_at ks2 hi)"
      "lo_le (lo_at lo ks1) key" "lt_hi key (hi_at ks2 hi)"
    and left: "\<forall>k \<in> set (map fst (pairs_of (concat (map leaves ts1)))). vcmp k key = Less"
    and right: "\<forall>k \<in> set (map fst (pairs_of (concat (map leaves ts2)))). vcmp k key = Greater"
    by (rule node_at_key [OF TNode.prems(1) [unfolded ordered.simps] ts TNode.prems(6-10)])
  have cp: "repr ns c" "distinct (ids c)" "bal h' c" "fits c" "c \<in> set ts"
    using TNode.prems(2-5) split(2) h by simp_all
  obtain ns' up sp us where ih: "insert_recursive ns (bt_id c) key rid True = Some (ns', up, key \<in> set (map fst (entries c)))"
      and pc: "placed K h' (lo_at lo ks1) (hi_at ks2 hi) ns c (kput key rid (entries c)) ns' up sp us"
    using TNode.IH [OF cp(5) b(3) cp(1-4) b(1,2) TNode.prems(8) b(4,5)] by blast
  note ready = child_ready [OF refl TNode.prems(1-3) TNode.prems(4) [unfolded h] TNode.prems(5) split(1-3) TNode.prems(7) pc]
  have e: "entries (TNode i ks ts) = pairs_of (concat (map leaves ts1)) @ entries c @ pairs_of (concat (map leaves ts2))"
    using split(2) by (simp add: entries_def)
  have kp: "kput key rid (entries (TNode i ks ts)) = pairs_of (concat (map leaves (ts1 @ us @ ts2)))"
    unfolding e ready(2) by (simp only: kput_skip [OF left] kput_stop [OF right])
  have "key \<notin> set (map fst (pairs_of (concat (map leaves ts1))))" "key \<notin> set (map fst (pairs_of (concat (map leaves ts2))))"
    using left right cmp_refl [OF TNode.prems(8)] by auto
  then have mem: "key \<in> set (map fst (entries (TNode i ks ts))) \<longleftrightarrow> key \<in> set (map fst (entries c))"
    unfolding e map_append set_append by blast
  have i: "index_run ns i = Some (Internal ks (map bt_id ts))" "index_run (map bt_id ts) (length ks1) = Some (bt_id c)"
    using TNode.prems(2) split(2,3) by (simp_all add: index_run_def nth_append)
  have step: "insert_recursive ns i key rid True =
      (case up of
         None \<Rightarrow> Some (ns', None, key \<in> set (map fst (entries c)))
       | Some (sep, child) \<Rightarrow> Option.bind (internal_put ns' i (length ks1) sep child) (\<lambda>(ns'', up'). Some (ns'', up', key \<in> set (map fst (entries c)))))"
    by (subst insert_recursive.simps) (simp only: i ih split(4) Option.bind.simps node.case Let_def prod.case)
  have len: "length ks \<le> ORDER" and lo: "bound_ok K lo" using TNode.prems(5,6) by simp_all
  show ?case
  proof (cases up)
    case None
    then obtain c' where us: "us = [c']" "sp = []" "bt_id c' = bt_id c"
      using pc unfolding placed_def by (cases us) auto
    have same: "ns'[i := Internal ks (map bt_id (ts1 @ us @ ts2))] = ns'"
      using list_update_id [of ns' i] ready(3) split(2) us by simp
    from placed_node [OF ready(1) refl] len split(1)
    have "placed K (Suc h') lo hi ns (TNode i ks ts) (pairs_of (concat (map leaves (ts1 @ us @ ts2)))) ns' None []
        [TNode i ks (ts1 @ us @ ts2)]"
      using same us(2) by simp
    then show ?thesis unfolding h kp mem bt_id.simps step None option.case by blast
  next
    case (Some x)
    then obtain sep child u v where us: "x = (sep, child)" "sp = [sep]" "us = [u, v]" "bt_id v = child"
      using pc unfolding placed_def by auto
    have "bt_id u = bt_id c" using placedD(3) [OF pc] us(3) by simp
    from internal_put_placed [OF refl ready(1) [unfolded us(2,3)] ready(3) split(1-3) this us(4) len lo]
    obtain ns'' up' seps us' where put: "internal_put ns' i (length ks1) sep child = Some (ns'', up')"
        "placed K (Suc h') lo hi ns (TNode i ks ts) (pairs_of (concat (map leaves (ts1 @ [u, v] @ ts2)))) ns'' up' seps us'"
      by blast
    show ?thesis
      unfolding h kp mem bt_id.simps step Some us(1) option.case prod.case put(1) us(3) Option.bind.simps using put(2) by blast
  qed
qed

end

end
