(* ===== verification/Btree_Map.thy ===== *)
theory Btree_Map
  imports Btree_Insert "HOL-Library.Sublist"
begin

text \<open>
  The B+ tree as a sorted association list: \<open>bt_rel K t ps\<close> says that the node store of \<open>t\<close> is a balanced,
  ordered and chained tree over keys in \<open>K\<close> whose leaves hold exactly the pairs \<open>ps\<close>. Each operation is
  an operation on that list.
\<close>

definition tree_in :: "val set \<Rightarrow> node list \<Rightarrow> nat \<Rightarrow> bt \<Rightarrow> bool" where
  "tree_in K ns root tr \<longleftrightarrow>
     root = bt_id tr \<and> repr ns tr \<and> distinct (ids tr) \<and> ordered K None tr None \<and> (\<exists>h. bal h tr) \<and> fits tr \<and> chain (leaves tr) None"

definition bt_rel :: "val set \<Rightarrow> btree \<Rightarrow> (val \<times> row_id) list \<Rightarrow> bool" where
  "bt_rel K t ps \<longleftrightarrow> (\<exists>tr. tree_in K (bt_nodes t) (bt_root t) tr \<and> entries tr = ps)"

lemma bt_rel_cong:
  "bt_nodes t = bt_nodes t' \<Longrightarrow> bt_root t = bt_root t' \<Longrightarrow> bt_rel K t ps \<longleftrightarrow> bt_rel K t' ps"
  by (simp add: bt_rel_def)

lemma bt_rel_update [simp]:
  "bt_rel K (t\<lparr>bt_dirty := d\<rparr>) ps \<longleftrightarrow> bt_rel K t ps" "bt_rel K (t\<lparr>bt_version := v\<rparr>) ps \<longleftrightarrow> bt_rel K t ps"
  "bt_rel K (t\<lparr>bt_kind := c\<rparr>) ps \<longleftrightarrow> bt_rel K t ps" "bt_rel K (t\<lparr>bt_total := n\<rparr>) ps \<longleftrightarrow> bt_rel K t ps"
  "bt_rel K (t\<lparr>bt_distinct := n\<rparr>) ps \<longleftrightarrow> bt_rel K t ps" "bt_rel K (t\<lparr>bt_empty_rids := es\<rparr>) ps \<longleftrightarrow> bt_rel K t ps"
  by (simp_all add: bt_rel_def)

lemma bt_rel_create [simp]: "bt_rel K bt_create []"
  unfolding bt_rel_def tree_in_def
  by (intro exI [of _ "TLeaf 0 [] [] None"] conjI exI [of _ 0]) (simp_all add: bt_create_def entries_def)

subsection \<open>Changing the contents of leaves\<close>

fun tmap :: "(nat \<Rightarrow> val list \<times> row_id list) \<Rightarrow> bt \<Rightarrow> bt" where
  "tmap f (TLeaf i ks vs nxt) = TLeaf i (fst (f i)) (snd (f i)) nxt"
| "tmap f (TNode i ks ts) = TNode i ks (map (tmap f) ts)"

definition upd_leaf :: "(nat \<Rightarrow> val list \<times> row_id list) \<Rightarrow> leaf \<Rightarrow> leaf" where
  "upd_leaf f l = (case l of (i, ks, vs, nxt) \<Rightarrow> (i, fst (f i), snd (f i), nxt))"

definition shrinks :: "(nat \<Rightarrow> val list \<times> row_id list) \<Rightarrow> leaf list \<Rightarrow> bool" where
  "shrinks f ls \<longleftrightarrow> (\<forall>(i, ks, vs, nxt) \<in> set ls. subseq (fst (f i)) ks \<and> length (snd (f i)) = length (fst (f i)))"

lemma shrinks_simps [simp]:
  "shrinks f []" "shrinks f ((i, ks, vs, nxt) # ls) \<longleftrightarrow> subseq (fst (f i)) ks \<and> length (snd (f i)) = length (fst (f i)) \<and> shrinks f ls"
  "shrinks f (ls @ ms) \<longleftrightarrow> shrinks f ls \<and> shrinks f ms"
  by (simp_all add: shrinks_def ball_Un)

lemma shrinks_concat: "shrinks f (concat lss) \<longleftrightarrow> (\<forall>ls \<in> set lss. shrinks f ls)"
  by (induction lss) auto

lemma upd_leaf_simps [simp]: "upd_leaf f (i, ks, vs, nxt) = (i, fst (f i), snd (f i), nxt)" "fst (upd_leaf f l) = fst l"
  by (simp_all add: upd_leaf_def split: prod.split)

lemma tmap_id [simp]: "bt_id (tmap f t) = bt_id t"
  by (cases t) simp_all

lemma tmap_ids [simp]: "ids (tmap f t) = ids t"
  by (induction t) (auto simp: comp_def cong: map_cong intro: arg_cong [of _ _ concat])

lemma tmap_leaves: "leaves (tmap f t) = map (upd_leaf f) (leaves t)"
  by (induction t) (auto simp: map_concat comp_def cong: map_cong intro: arg_cong [of _ _ concat])

lemma chain_upd_leaf: "chain (map (upd_leaf f) ls) stop \<longleftrightarrow> chain ls stop"
  by (induction ls stop rule: chain.induct) auto

lemma subseq_sorted_wrt: "subseq xs ys \<Longrightarrow> sorted_wrt P ys \<Longrightarrow> sorted_wrt P xs"
  by (induction rule: list_emb.induct) (auto dest: list_emb_set)

lemma ordered_tmap:
  shows "shrinks f (leaves t) \<Longrightarrow> ordered K lo t hi \<Longrightarrow> ordered K lo (tmap f t) hi"
    and "\<forall>t \<in> set ts. shrinks f (leaves t) \<Longrightarrow> ordered_list K lo ks ts hi \<Longrightarrow> ordered_list K lo ks (map (tmap f) ts) hi"
proof (induction K lo t hi and K lo ks ts hi rule: ordered_ordered_list.induct)
  case (1 K lo i ks vs nxt hi)
  then have s: "subseq (fst (f i)) ks" by simp
  have "k \<in> set ks" if "k \<in> set (fst (f i))" for k
    using list_emb_set [OF s that] by auto
  then show ?case using subseq_sorted_wrt [OF s] 1(2) by auto
next
  case (2 K lo i ks ts hi)
  then show ?case by (simp add: shrinks_concat)
qed simp_all

lemma bal_tmap: "bal h t \<Longrightarrow> bal h (tmap f t)"
  by (induction h t rule: bal.induct) auto

lemma fits_tmap: "shrinks f (leaves t) \<Longrightarrow> fits t \<Longrightarrow> fits (tmap f t)"
  by (induction t) (auto simp: shrinks_concat dest: list_emb_length)

text \<open>The store after the update: leaves hold their new contents, internal nodes are as before.\<close>

definition leaves_set :: "(nat \<Rightarrow> val list \<times> row_id list) \<Rightarrow> node list \<Rightarrow> leaf list \<Rightarrow> node list \<Rightarrow> bool" where
  "leaves_set f ns ls ns' \<longleftrightarrow>
     (\<forall>(i, ks, vs, nxt) \<in> set ls. i < length ns' \<and> ns' ! i = Leaf (fst (f i)) (snd (f i)) nxt) \<and>
     (\<forall>i ks cs. i < length ns \<longrightarrow> ns ! i = Internal ks cs \<longrightarrow> i < length ns' \<and> ns' ! i = Internal ks cs)"

lemma repr_tmap: "repr ns t \<Longrightarrow> shrinks f (leaves t) \<Longrightarrow> leaves_set f ns (leaves t) ns' \<Longrightarrow> repr ns' (tmap f t)"
proof (induction t)
  case (TNode i ks ts)
  have "repr ns' (tmap f t)" if "t \<in> set ts" for t
    using TNode.prems that by (intro TNode.IH) (auto simp: leaves_set_def shrinks_concat)
  then show ?case using TNode.prems by (auto simp: leaves_set_def comp_def)
qed (simp add: leaves_set_def)

lemma tree_in_tmap:
  assumes "tree_in K ns root tr" and "shrinks f (leaves tr)" and "leaves_set f ns (leaves tr) ns'"
  shows "tree_in K ns' root (tmap f tr)"
  using assms repr_tmap [of ns tr f ns'] ordered_tmap(1) [of f tr K None None] bal_tmap fits_tmap [of f tr]
  unfolding tree_in_def by (auto simp: tmap_leaves chain_upd_leaf)

lemma leaves_subseq: "subseq (map fst (leaves t)) (ids t)"
proof (induction t)
  case (TNode i ks ts)
  then have "subseq (map fst (concat (map leaves ts))) (concat (map ids ts))"
    by (induction ts) (auto intro: list_emb_append_mono)
  then show ?case by (simp add: list_emb_Cons)
qed simp

lemma subseq_distinct: "subseq xs ys \<Longrightarrow> distinct ys \<Longrightarrow> distinct xs"
  by (induction rule: list_emb.induct) (auto dest: list_emb_set)

lemma distinct_leaves: "distinct (ids t) \<Longrightarrow> distinct (map fst (leaves t))"
  by (rule subseq_distinct [OF leaves_subseq])

text \<open>One leaf at position \<open>pre\<close> of the chain gets new contents.\<close>

lemma tree_in_set_leaf:
  assumes t: "tree_in K ns root tr" and ls: "leaves tr = pre @ (i, ks, vs, nxt) # post"
    and s: "subseq ks' ks" and l: "length vs' = length ks'"
  shows "\<exists>tr'. tree_in K (ns[i := Leaf ks' vs' nxt]) root tr' \<and> entries tr' = pairs_of pre @ zip ks' vs' @ pairs_of post"
proof -
  have r: "j < length ns \<and> ns ! j = Leaf ks0 vs0 n0 \<and> length vs0 = length ks0" if "(j, ks0, vs0, n0) \<in> set (leaves tr)" for j ks0 vs0 n0
    using t repr_leaf that unfolding tree_in_def by blast
  define f where "f j = (if j = i then (ks', vs') else case ns ! j of Leaf a b c \<Rightarrow> (a, b) | _ \<Rightarrow> ([], []))" for j
  have fi: "f i = (ks', vs')" by (simp add: f_def)
  have d: "distinct (map fst (leaves tr))"
    using t unfolding tree_in_def by (simp add: distinct_leaves)
  have other: "f j = (ks0, vs0)" if "(j, ks0, vs0, n0) \<in> set pre \<union> set post" for j ks0 vs0 n0
  proof -
    have "j \<noteq> i" using d that unfolding ls by (auto simp: image_iff)
    then show ?thesis using r [of j ks0 vs0 n0] that unfolding ls f_def by auto
  qed
  have keep: "map (upd_leaf f) ls' = ls'" if "set ls' \<subseteq> set pre \<union> set post" for ls'
  proof (rule map_idI)
    fix l
    assume "l \<in> set ls'"
    moreover obtain j ks0 vs0 n0 where l: "l = (j, ks0, vs0, n0)" by (cases l)
    ultimately show "upd_leaf f l = l" using that other [of j ks0 vs0 n0] unfolding l by auto
  qed
  have sh: "shrinks f (leaves tr)"
  proof -
    have "shrinks f ls'" if "set ls' \<subseteq> set pre \<union> set post" for ls'
      unfolding shrinks_def
    proof
      fix l
      assume "l \<in> set ls'"
      moreover obtain j ks0 vs0 n0 where l: "l = (j, ks0, vs0, n0)" by (cases l)
      ultimately show "case l of (i, ks, vs, nxt) \<Rightarrow> subseq (fst (f i)) ks \<and> length (snd (f i)) = length (fst (f i))"
        using that other [of j ks0 vs0 n0] r [of j ks0 vs0 n0] unfolding l ls by auto
    qed
    then show ?thesis using s l fi unfolding ls by simp
  qed
  have "leaves_set f ns (leaves tr) (ns[i := Leaf ks' vs' nxt])"
    unfolding leaves_set_def
  proof (intro conjI ballI allI impI)
    fix l
    assume "l \<in> set (leaves tr)"
    moreover obtain j ks0 vs0 n0 where l: "l = (j, ks0, vs0, n0)" by (cases l)
    ultimately have j: "(j, ks0, vs0, n0) \<in> set (leaves tr)" by simp
    have ri: "i < length ns" "ns ! i = Leaf ks vs nxt" using r [of i ks vs nxt] unfolding ls by simp_all
    have "j < length ns" "ns ! j = Leaf ks0 vs0 n0" using r [OF j] by simp_all
    then show "case l of (i', ks, vs, nxt') \<Rightarrow> i' < length (ns[i := Leaf ks' vs' nxt]) \<and>
        ns[i := Leaf ks' vs' nxt] ! i' = Leaf (fst (f i')) (snd (f i')) nxt'"
      using ri fi unfolding l by (cases "j = i") (auto simp: f_def)
  next
    fix j ks0 cs
    assume "j < length ns" and "ns ! j = Internal ks0 cs"
    moreover have "ns ! i = Leaf ks vs nxt" using r [of i ks vs nxt] unfolding ls by simp
    ultimately show "j < length (ns[i := Leaf ks' vs' nxt])" "ns[i := Leaf ks' vs' nxt] ! j = Internal ks0 cs"
      by (cases "j = i"; simp)+
  qed
  from tree_in_tmap [OF t sh this] show ?thesis
    using keep [of pre] keep [of post] by (intro exI [of _ "tmap f tr"]) (simp add: entries_def tmap_leaves ls fi)
qed

subsection \<open>Descent and scans\<close>

text \<open>The pairs whose key lies between two bounds, both included.\<close>

definition in_range :: "val \<Rightarrow> val \<Rightarrow> val \<times> row_id \<Rightarrow> bool" where
  "in_range a b p \<longleftrightarrow> vcmp (fst p) a \<noteq> Less \<and> vcmp (fst p) b \<noteq> Greater"

context key_order
begin

lemma rel_between: "bt_rel K t ps \<Longrightarrow> between K None (map fst ps) None"
  using ordered_entries [of None _ None] unfolding bt_rel_def tree_in_def by auto

lemma leaf_of:
  assumes "bt_rel K t ps" and "picks K pick L R"
  obtains tr pre i ks vs nxt post where "tree_in K (bt_nodes t) (bt_root t) tr" "leaves tr = pre @ (i, ks, vs, nxt) # post"
    "ps = pairs_of pre @ zip ks vs @ pairs_of post" "descend pick (bt_nodes t) (bt_root t) = Some i"
    "index_run (bt_nodes t) i = Some (Leaf ks vs nxt)" "length vs = length ks" "between K None ks None"
    "\<forall>k \<in> set (map fst (pairs_of pre)). L k" "\<forall>k \<in> set (map fst (pairs_of post)). R k"
proof -
  obtain tr where tr: "tree_in K (bt_nodes t) (bt_root t) tr" "entries tr = ps"
    using assms(1) unfolding bt_rel_def by blast
  then have o: "ordered K None tr None" "repr (bt_nodes t) tr" "bt_root t = bt_id tr"
    unfolding tree_in_def by blast+
  from descend_spec [OF assms(2) o(1,2)] obtain pre i ks vs nxt post where
    d: "leaves tr = pre @ (i, ks, vs, nxt) # post" "descend pick (bt_nodes t) (bt_id tr) = Some i"
      "\<forall>k \<in> set (map fst (pairs_of pre)). L k" "\<forall>k \<in> set (map fst (pairs_of post)). R k"
    by (auto simp del: set_map)
  have l: "index_run (bt_nodes t) i = Some (Leaf ks vs nxt)" "length vs = length ks"
    using repr_leaf [OF o(2), of i ks vs nxt] unfolding d(1) by (simp_all add: index_run_def)
  have p: "ps = pairs_of pre @ zip ks vs @ pairs_of post"
    using tr(2) d(1) by (simp add: entries_def)
  have "between K None ks None"
    using rel_between [OF assms(1)] l(2) unfolding p by (auto simp: between_def sorted_wrt_append)
  from that [OF tr(1) d(1) p d(2) [folded o(3)] l this d(3,4)] show thesis .
qed

text \<open>What a walk from the leaf of a descent sees.\<close>

lemma walk_from:
  assumes rel: "bt_rel K t ps" and pick: "picks K pick L R"
  obtains ls pre where
    "Option.bind (descend pick (bt_nodes t) (bt_root t)) (\<lambda>leaf. walk_leaves body on_internal (bt_nodes t) (Some leaf) s) = fold_leaves body ls s"
    "ps = pre @ pairs_of ls" "\<forall>k \<in> set (map fst pre). L k" "\<forall>(i, ks, vs, nxt) \<in> set ls. length vs = length ks"
proof -
  from leaf_of [OF rel pick] obtain tr pre i ks vs nxt post where
    l: "tree_in K (bt_nodes t) (bt_root t) tr" "leaves tr = pre @ (i, ks, vs, nxt) # post"
      "ps = pairs_of pre @ zip ks vs @ pairs_of post" "descend pick (bt_nodes t) (bt_root t) = Some i"
      "\<forall>k \<in> set (map fst (pairs_of pre)). L k" .
  have c: "chain ((i, ks, vs, nxt) # post) None"
    using l(1,2) chain_append [of pre "(i, ks, vs, nxt)" post None] unfolding tree_in_def by simp
  have n: "j < length (bt_nodes t) \<and> bt_nodes t ! j = Leaf ks' vs' n \<and> length vs' = length ks'"
    if "(j, ks', vs', n) \<in> set ((i, ks, vs, nxt) # post)" for j ks' vs' n
    using repr_leaf [of "bt_nodes t" tr j ks' vs' n] l(1,2) that unfolding tree_in_def by auto
  show thesis
  proof (rule that [of "(i, ks, vs, nxt) # post" "pairs_of pre", OF _ _ l(5)])
    show "Option.bind (descend pick (bt_nodes t) (bt_root t)) (\<lambda>leaf. walk_leaves body on_internal (bt_nodes t) (Some leaf) s)
        = fold_leaves body ((i, ks, vs, nxt) # post) s"
      using walk_chain [OF c n] l(4) by simp
    show "ps = pairs_of pre @ pairs_of ((i, ks, vs, nxt) # post)" using l(3) by simp
    show "\<forall>(i, ks, vs, nxt) \<in> set ((i, ks, vs, nxt) # post). length vs = length ks" using n by blast
  qed
qed

lemma scan_from:
  assumes rel: "bt_rel K t ps" and pick: "picks K pick L R"
  obtains rest pre where
    "Option.bind (descend pick (bt_nodes t) (bt_root t)) (\<lambda>leaf. scan_leaves step on_internal (bt_nodes t) leaf s)
       = Some (fst (scan_list step s rest))"
    "ps = pre @ rest" "\<forall>k \<in> set (map fst pre). L k"
proof -
  obtain ls pre where w:
      "Option.bind (descend pick (bt_nodes t) (bt_root t)) (\<lambda>leaf. walk_leaves (leaf_body step) on_internal (bt_nodes t) (Some leaf) s)
        = fold_leaves (leaf_body step) ls s"
      "ps = pre @ pairs_of ls" "\<forall>k \<in> set (map fst pre). L k" "\<forall>(i, ks, vs, nxt) \<in> set ls. length vs = length ks"
    by (rule walk_from [OF rel pick])
  have "fold_leaves (leaf_body step) ls s = Some (fst (scan_list step s (pairs_of ls)))"
    using w(4) by (intro fold_leaves_scan) auto
  with w(1) show thesis by (intro that [OF _ w(2,3)]) (simp add: scan_leaves_def)
qed

lemma beyond:
  assumes "sorted_wrt (\<lambda>p q. vcmp (fst p) (fst q) = Less) (p # ps)" and "set (map fst (p # ps)) \<subseteq> K" and "b \<in> K"
    and "vcmp (fst p) b = Greater"
  shows "\<forall>q \<in> set (p # ps). vcmp (fst q) b = Greater"
proof
  fix q
  assume q: "q \<in> set (p # ps)"
  have k: "fst p \<in> K" "fst q \<in> K" using assms(2) q by auto
  have "vcmp b (fst p) = Less" using assms(3,4) k(1) cmp_flip [of "fst p" b] by simp
  moreover have "vcmp (fst p) (fst q) \<noteq> Greater" using assms(1) q cmp_refl [OF k(1)] by auto
  ultimately have "vcmp b (fst q) = Less" using cmp_less_le_trans [of b "fst p" "fst q"] assms(3) k by blast
  then show "vcmp (fst q) b = Greater" using cmp_flip [of b "fst q"] assms(3) k(2) by simp
qed

lemma scan_range:
  assumes "sorted_wrt (\<lambda>p q. vcmp (fst p) (fst q) = Less) ps" and "set (map fst ps) \<subseteq> K" and "a \<in> K" and "b \<in> K"
  shows "fst (scan_list (range_step a b) acc ps) = acc @ filter (in_range a b) ps"
  using assms(1,2)
proof (induction ps arbitrary: acc)
  case (Cons p ps)
  obtain k v where p: "p = (k, v)" by (cases p)
  show ?case
  proof (cases "vcmp k b = Greater")
    case True
    then have "filter (in_range a b) (p # ps) = []"
      using beyond [OF Cons.prems(1,2) assms(4)] unfolding p by (auto simp: in_range_def filter_empty_conv)
    then show ?thesis using True unfolding p by (simp add: range_step_def)
  next
    case False
    then show ?thesis using Cons unfolding p by (simp add: range_step_def in_range_def)
  qed
qed simp

lemma between_sorted:
  "between K lo (map fst ps) hi \<Longrightarrow> sorted_wrt (\<lambda>p q. vcmp (fst p) (fst q) = Less) ps \<and> set (map fst ps) \<subseteq> K"
  by (auto simp: between_def sorted_wrt_map)

lemma range_spec:
  assumes rel: "bt_rel K t ps" and "a \<in> K" and "b \<in> K"
  shows "bt_range t a b = Some (filter (in_range a b) ps)"
proof -
  obtain rest pre where s: "bt_range t a b = Some (fst (scan_list (range_step a b) [] rest))"
      "ps = pre @ rest" "\<forall>k \<in> set (map fst pre). vcmp k a = Less"
    unfolding bt_range_def by (rule scan_from [OF rel picks_le [OF assms(2)]])
  have "filter (in_range a b) pre = []" using s(3) by (auto simp: in_range_def filter_empty_conv)
  moreover have "sorted_wrt (\<lambda>p q. vcmp (fst p) (fst q) = Less) rest" "set (map fst rest) \<subseteq> K"
    using between_sorted [OF rel_between [OF rel]] unfolding s(2) by (auto simp: sorted_wrt_append)
  ultimately show ?thesis
    using scan_range [of rest a b "[]"] assms(2,3) unfolding s(1,2) by simp
qed

lemma search_found:
  assumes key: "key \<in> K" and b: "between K lo ks hi"
  shows "binary_search ks key = (if key \<in> set ks then Inr (pick_lt key ks) else Inl (pick_lt key ks))"
proof -
  define p where "p = pick_lt key ks"
  have ks: "set ks \<subseteq> K" "sorted_wrt (\<lambda>a b. vcmp a b = Less) ks" using b by (auto simp: between_def)
  note parts = pick_lt_parts [OF key ks(1) sorted_lt_le [OF ks(2)], folded p_def]
  note found = pick_lt_found [OF key ks, folded p_def]
  have lt: "vcmp (ks ! i) key = Less \<longleftrightarrow> i < p" if i: "i < length ks" for i
  proof
    assume "i < p"
    then have "ks ! i \<in> set (take p ks)" using i by (auto simp: in_set_conv_nth)
    then show "vcmp (ks ! i) key = Less" using parts(2) by blast
  next
    assume l: "vcmp (ks ! i) key = Less"
    show "i < p"
    proof (rule ccontr)
      assume "\<not> i < p"
      then have "ks ! i \<in> set (drop p ks)" using i by (auto simp: in_set_conv_nth intro: exI [of _ "i - p"])
      then have "vcmp key (ks ! i) \<noteq> Greater" using parts(3) by blast
      then show False using l cmp_flip [of "ks ! i" key] key ks(1) nth_mem [OF i] by auto
    qed
  qed
  have gt: "vcmp (ks ! i) key = Greater \<longleftrightarrow> (if key \<in> set ks then p < i else p \<le> i)" if i: "i < length ks" for i
  proof (cases "key \<in> set ks")
    case True
    then have kp: "p < length ks" "ks ! p = key" using found(1) by blast+
    have "vcmp (ks ! i) key = Greater" if "p < i"
    proof -
      have "ks ! i \<in> set (drop (Suc p) ks)" using i that by (auto simp: in_set_conv_nth intro: exI [of _ "i - Suc p"])
      then show ?thesis using found(3) True by blast
    qed
    moreover have "vcmp (ks ! i) key \<noteq> Greater" if "i \<le> p"
      using lt [OF i] kp cmp_refl [OF key] that by (cases "i = p") auto
    ultimately show ?thesis using True by (cases "p < i") auto
  next
    case False
    have "vcmp (ks ! i) key = Greater" if "p \<le> i"
    proof -
      have "ks ! i \<in> set (drop p ks)" using i that by (auto simp: in_set_conv_nth intro: exI [of _ "i - p"])
      then show ?thesis using found(2) [OF False] by blast
    qed
    then show ?thesis using lt [OF i] False by (cases "p \<le> i") auto
  qed
  show ?thesis
    unfolding binary_search_def p_def [symmetric]
    by (rule binary_search_by_spec [OF lt parts(1) gt]) (use found(1) in auto)
qed

subsection \<open>Point operations\<close>

lemma map_of_middle:
  assumes "\<forall>k \<in> set (map fst pre). vcmp k key = Less" and "\<forall>k \<in> set (map fst post). vcmp key k = Less" and "key \<in> K"
  shows "map_of (pre @ mid @ post) key = map_of mid key" and "key \<in> set (map fst (pre @ mid @ post)) \<longleftrightarrow> key \<in> set (map fst mid)"
    and "filter (\<lambda>p. fst p \<noteq> key) (pre @ mid @ post) = pre @ filter (\<lambda>p. fst p \<noteq> key) mid @ post"
proof -
  have n: "key \<notin> set (map fst pre)" "key \<notin> set (map fst post)" using assms cmp_refl [OF assms(3)] by auto
  have "map_of pre key = None" "map_of post key = None" using n by (simp_all add: map_of_eq_None_iff)
  then show "map_of (pre @ mid @ post) key = map_of mid key"
    by (simp add: map_add_def split: option.split)
  show "key \<in> set (map fst (pre @ mid @ post)) \<longleftrightarrow> key \<in> set (map fst mid)" using n by auto
  show "filter (\<lambda>p. fst p \<noteq> key) (pre @ mid @ post) = pre @ filter (\<lambda>p. fst p \<noteq> key) mid @ post"
  proof -
    have "filter (\<lambda>p. fst p \<noteq> key) pre = pre" "filter (\<lambda>p. fst p \<noteq> key) post = post"
      using n by (force simp: filter_id_conv)+
    then show ?thesis by simp
  qed
qed

lemma between_distinct: "between K lo ks hi \<Longrightarrow> distinct ks"
proof (induction ks)
  case (Cons k ks)
  then have "k \<in> K" and "\<forall>l \<in> set ks. vcmp k l = Less" and "distinct ks" by (auto simp: between_def)
  then show ?case using cmp_refl [of k] by auto
qed simp

lemma found_nth:
  assumes "key \<in> K" and "between K lo ks hi" and "key \<in> set ks"
  shows "pick_lt key ks < length ks" and "ks ! pick_lt key ks = key"
  using pick_lt_found(1) [of key ks] assms by (auto simp: between_def)

lemma lookup_spec:
  assumes rel: "bt_rel K t ps" and key: "key \<in> K"
  shows "bt_lookup t key = Some (map_of ps key)"
proof -
  from leaf_of [OF rel picks_le [OF key]] obtain tr pre i ks vs nxt post where
    l: "ps = pairs_of pre @ zip ks vs @ pairs_of post" "descend (pick_le key) (bt_nodes t) (bt_root t) = Some i"
      "index_run (bt_nodes t) i = Some (Leaf ks vs nxt)" "length vs = length ks" "between K None ks None"
      "\<forall>k \<in> set (map fst (pairs_of pre)). vcmp k key = Less" "\<forall>k \<in> set (map fst (pairs_of post)). vcmp key k = Less" .
  have m: "map_of ps key = map_of (zip ks vs) key" unfolding l(1) by (rule map_of_middle [OF l(6,7) key])
  note d = between_distinct [OF l(5)]
  show ?thesis
  proof (cases "key \<in> set ks")
    case True
    note p = found_nth [OF key l(5) True]
    have "map_of (zip ks vs) key = Some (vs ! pick_lt key ks)"
      using map_of_zip_nth [OF l(4) [symmetric] d, of "pick_lt key ks"] p l(4) by simp
    then show ?thesis
      unfolding bt_lookup_def using l(2-4) m True p by (simp add: search_found [OF key l(5)] index_run_def)
  next
    case False
    then have "map_of (zip ks vs) key = None" using l(4) by (simp add: map_of_zip_is_None)
    then show ?thesis
      unfolding bt_lookup_def using l(2,3) m False by (simp add: search_found [OF key l(5)])
  qed
qed

lemma zip_remove:
  fixes vs :: "row_id list"
  assumes "key \<in> K" and "between K lo ks hi" and "key \<in> set ks" and "length vs = length ks"
  defines "p \<equiv> pick_lt key ks"
  shows "vec_remove p ks = Some (take p ks @ drop (Suc p) ks)" and "vec_remove p vs = Some (take p vs @ drop (Suc p) vs)"
    and "zip (take p ks @ drop (Suc p) ks) (take p vs @ drop (Suc p) vs) = filter (\<lambda>x. fst x \<noteq> key) (zip ks vs)"
    and "subseq (take p ks @ drop (Suc p) ks) ks"
proof -
  have p: "p < length ks" "ks ! p = key" using found_nth [OF assms(1-3)] unfolding p_def by simp_all
  then show "vec_remove p ks = Some (take p ks @ drop (Suc p) ks)" "vec_remove p vs = Some (take p vs @ drop (Suc p) vs)"
    using assms(4) by (simp_all add: vec_remove_def)
  have ks: "ks = take p ks @ key # drop (Suc p) ks" and vs: "vs = take p vs @ vs ! p # drop (Suc p) vs"
    using id_take_nth_drop [OF p(1)] id_take_nth_drop [of p vs] p assms(4) by simp_all
  have n: "key \<notin> set (take p ks)" "key \<notin> set (drop (Suc p) ks)"
    using between_distinct [OF assms(2)] by (subst (asm) ks, simp)+
  have "zip ks vs = zip (take p ks) (take p vs) @ (key, vs ! p) # zip (drop (Suc p) ks) (drop (Suc p) vs)"
    by (subst ks, subst vs, subst zip_append) (simp_all add: assms(4))
  moreover have f: "filter (\<lambda>x. fst x \<noteq> key) (zip xs ys) = zip xs ys" if "key \<notin> set xs" for xs and ys :: "row_id list"
    using that by (auto simp: filter_id_conv dest: set_zip_leftD)
  ultimately show "zip (take p ks @ drop (Suc p) ks) (take p vs @ drop (Suc p) vs) = filter (\<lambda>x. fst x \<noteq> key) (zip ks vs)"
    using f [OF n(1)] f [OF n(2)] assms(4) by simp
  show "subseq (take p ks @ drop (Suc p) ks) ks"
    by (subst (3) ks) (intro list_emb_append_mono list_emb_Cons, simp_all)
qed

text \<open>The part of \<open>delete\<close> that changes the tree.\<close>

lemma remove_key_spec:
  assumes rel: "bt_rel K t ps" and key: "key \<in> K"
  obtains i ks vs nxt where "descend (pick_le key) (bt_nodes t) (bt_root t) = Some i"
    "index_run (bt_nodes t) i = Some (Leaf ks vs nxt)"
    "key \<in> set ks \<longleftrightarrow> key \<in> set (map fst ps)" "between K None ks None"
    "key \<in> set ks \<longrightarrow> (\<exists>ns. leaf_remove (bt_nodes t) i (pick_lt key ks) = Some ns \<and>
       bt_rel K (t\<lparr>bt_nodes := ns\<rparr>) (filter (\<lambda>p. fst p \<noteq> key) ps))"
proof -
  from leaf_of [OF rel picks_le [OF key]] obtain tr pre i ks vs nxt post where
    l: "tree_in K (bt_nodes t) (bt_root t) tr" "leaves tr = pre @ (i, ks, vs, nxt) # post"
      "ps = pairs_of pre @ zip ks vs @ pairs_of post" "descend (pick_le key) (bt_nodes t) (bt_root t) = Some i"
      "index_run (bt_nodes t) i = Some (Leaf ks vs nxt)" "length vs = length ks" "between K None ks None"
      "\<forall>k \<in> set (map fst (pairs_of pre)). vcmp k key = Less" "\<forall>k \<in> set (map fst (pairs_of post)). vcmp key k = Less" .
  note m = map_of_middle [OF l(8,9) key]
  show thesis
  proof (rule that [OF l(4,5) _ l(7)])
    show "key \<in> set ks \<longleftrightarrow> key \<in> set (map fst ps)" using m(2) [of "zip ks vs"] l(6) unfolding l(3) by simp
    have "\<exists>ns. leaf_remove (bt_nodes t) i (pick_lt key ks) = Some ns \<and> bt_rel K (t\<lparr>bt_nodes := ns\<rparr>) (filter (\<lambda>p. fst p \<noteq> key) ps)"
      if k: "key \<in> set ks"
    proof -
      note z = zip_remove [OF key l(7) k l(6)]
      show ?thesis
      using tree_in_set_leaf [OF l(1,2) z(4), of "take (pick_lt key ks) vs @ drop (Suc (pick_lt key ks)) vs"] l(6)
      unfolding leaf_remove_def l(5) bt_rel_def l(3) m(3) by (simp add: z)
    qed
    then show "key \<in> set ks \<longrightarrow> (\<exists>ns. leaf_remove (bt_nodes t) i (pick_lt key ks) = Some ns \<and>
        bt_rel K (t\<lparr>bt_nodes := ns\<rparr>) (filter (\<lambda>p. fst p \<noteq> key) ps))" by blast
  qed
qed

text \<open>\<open>kput\<close> is the update of a map.\<close>

lemma kput_keys:
  "set (map fst ps) \<subseteq> K \<Longrightarrow> k \<in> K \<Longrightarrow> set (map fst (kput k v ps)) = insert k (set (map fst ps))"
proof (induction ps)
  case (Cons p ps)
  obtain k' v' where p: "p = (k', v')" by (cases p)
  have "k' \<in> K" using Cons.prems p by simp
  then show ?case
    using Cons cmp_Equal [of k' k] unfolding p by (cases "vcmp k' k") (auto simp del: set_map)
qed simp

lemma kput_map_of:
  "set (map fst ps) \<subseteq> K \<Longrightarrow> k \<in> K \<Longrightarrow> map_of (kput k v ps) = (map_of ps)(k \<mapsto> v)"
proof (induction ps)
  case (Cons p ps)
  obtain k' v' where p: "p = (k', v')" by (cases p)
  have "k' \<in> K" using Cons.prems p by simp
  then show ?case
    using Cons cmp_Equal [of k' k] cmp_refl [of k] unfolding p by (cases "vcmp k' k") auto
qed simp

lemma kput_length:
  "between K lo (map fst ps) hi \<Longrightarrow> k \<in> K \<Longrightarrow>
     length (kput k v ps) = (if k \<in> set (map fst ps) then length ps else Suc (length ps))"
proof (induction ps arbitrary: lo)
  case (Cons p ps)
  obtain k' v' where p: "p = (k', v')" by (cases p)
  have k': "k' \<in> K" and s: "\<forall>l \<in> set (map fst ps). l \<in> K \<and> vcmp k' l = Less" and b: "between K lo (map fst ps) hi"
    using Cons.prems(1) unfolding p by (auto simp: between_def)
  show ?case
  proof (cases "vcmp k' k")
    case Less
    then have "k \<noteq> k'" using cmp_refl [of k] Cons.prems(2) by auto
    then show ?thesis using Less Cons.IH [OF b Cons.prems(2)] unfolding p by auto
  next
    case Equal
    then show ?thesis using cmp_Equal [of k' k] k' Cons.prems(2) unfolding p by simp
  next
    case Greater
    then have "vcmp k k' = Less" "k \<noteq> k'" using cmp_flip [of k' k] cmp_refl [of k] k' Cons.prems(2) by auto
    then have "k \<notin> set (map fst ps)"
      using s cmp_trans [of k k' k] cmp_refl [of k] k' Cons.prems(2) by auto
    then show ?thesis using Greater \<open>k \<noteq> k'\<close> unfolding p by auto
  qed
qed simp

lemma grow_root_rel:
  assumes t: "tree_in K ns root tr" and p: "placed K h None None ns tr ps ns' up seps us" and r: "root = bt_root t"
  shows "bt_rel K (grow_root t ns' up) ps"
proof -
  note pl = placedD [OF p]
  have c: "chain (concat (map leaves us)) None" using pl(10) t unfolding tree_in_def by blast
  show ?thesis
  proof (cases up)
    case None
    then obtain u where u: "us = [u]" "seps = []" using p unfolding placed_def by (cases us) auto
    then have "tree_in K ns' root u"
      using t pl(3,4,6,7) c unfolding tree_in_def by auto
    then show ?thesis
      using pl(9) u(1) r None unfolding bt_rel_def by (auto simp: grow_root_def entries_def)
  next
    case (Some x)
    then obtain sep u v where u: "x = (sep, bt_id v)" "us = [u, v]" "seps = [sep]" using p unfolding placed_def by auto
    have fresh: "j < length ns'" if "j \<in> set (ids u) \<union> set (ids v)" for j
      using pl(6) that u(2) repr_ids [of ns' u j] repr_ids [of ns' v j] by auto
    have "repr (ns' @ [n]) w" if "w \<in> set us" for n w
      by (rule repr_frame [of ns']) (use pl(6) that fresh u(2) in \<open>auto simp: nth_append\<close>)
    then have "tree_in K (ns' @ [Internal [sep] [root, bt_id v]]) (length ns') (TNode (length ns') [sep] [u, v])"
      using t pl(3,4,6,7) c fresh unfolding tree_in_def u(2,3)
      by (auto simp: ORDER_def intro!: exI [of _ "Suc h"])
    then show ?thesis
      using pl(9) r Some u(1,2) unfolding bt_rel_def
      by (intro exI [of _ "TNode (length ns') [sep] [u, v]"]) (simp add: grow_root_def entries_def)
  qed
qed

lemma insert_tree_spec:
  assumes rel: "bt_rel K t ps" and key: "key \<in> K"
  obtains ns up where "insert_recursive (bt_nodes t) (bt_root t) key rid True = Some (ns, up, key \<in> set (map fst ps))"
    "bt_rel K (grow_root t ns up) (kput key rid ps)"
proof -
  obtain tr h where tr: "tree_in K (bt_nodes t) (bt_root t) tr" "entries tr = ps" "bal h tr"
    using rel unfolding bt_rel_def tree_in_def by blast
  then obtain ns' up seps us where i: "insert_recursive (bt_nodes t) (bt_id tr) key rid True = Some (ns', up, key \<in> set (map fst (entries tr)))"
      "placed K h None None (bt_nodes t) tr (kput key rid (entries tr)) ns' up seps us"
    using insert_recursive_placed [of None tr None "bt_nodes t" h key rid] key unfolding tree_in_def by auto
  have "bt_root t = bt_id tr" using tr(1) unfolding tree_in_def by blast
  then show thesis
    using that [of ns' up] i(1) grow_root_rel [OF tr(1) i(2) refl] tr(2) by simp
qed

end

end
