(* ===== verification/Btree_Ops.thy ===== *)
theory Btree_Ops
  imports Btree_Map
begin

text \<open>
  The public operations of the B+ tree on the list of its pairs: insert and delete with their statistics,
  the scans and the counters.
\<close>

subsection \<open>Keys that are byte strings with a row id\<close>

text \<open>
  The keys of a non-unique index end in an eight-byte row id. What stands before it identifies the value:
  no such prefix is a proper prefix of another.
\<close>

definition composite_set :: "val set \<Rightarrow> bool" where
  "composite_set K \<longleftrightarrow>
     (\<forall>k \<in> K. \<exists>b. k = VBytes b \<and> 8 \<le> length b \<and> VBytes (take (length b - 8) b @ u64_to_be 0) \<in> K) \<and>
     (\<forall>k \<in> K. \<forall>l \<in> K. prefix (composite_prefix_bytes k) (composite_prefix_bytes l) \<longrightarrow> composite_prefix_bytes k = composite_prefix_bytes l)"

lemma vcmp_bytes: "vcmp (VBytes a) (VBytes b) = bytes_cmp a b"
  by (simp add: vcmp_def value_cmp_def)

lemma flip_iff: "flip r = Greater \<longleftrightarrow> r = Less" "flip r = Less \<longleftrightarrow> r = Greater"
  by (cases r; simp)+

lemma bytes_cmp_append: "bytes_cmp (p @ a) (p @ b) = bytes_cmp a b"
  by (induction p) auto

lemma between_prefix:
  "bytes_cmp (p @ a) c \<noteq> Greater \<Longrightarrow> bytes_cmp c (p @ b) \<noteq> Greater \<Longrightarrow> prefix p c"
proof (induction p arbitrary: c)
  case (Cons x p)
  then show ?case by (cases c) (auto split: if_splits)
qed simp

lemma bytes_cmp_zeros: "length b = n \<Longrightarrow> bytes_cmp (replicate n 0) b \<noteq> Greater"
  by (induction n arbitrary: b) (auto simp: length_Suc_conv split: if_splits)

lemma u64_to_be_0: "u64_to_be 0 = replicate 8 0"
proof -
  have "nat_to_le n 0 = replicate n 0" for n by (induction n) simp_all
  then show ?thesis by (simp add: u64_to_be_def u64_to_le_def rev_replicate)
qed

lemma find_append: "find P (xs @ ys) = (case find P xs of None \<Rightarrow> find P ys | Some x \<Rightarrow> Some x)"
  by (induction xs) auto

lemma find_zip:
  "length vs = length ks \<Longrightarrow> find (\<lambda>p. \<not> P (fst p)) (zip ks vs)
     = (if point_of P ks < length ks then Some (ks ! point_of P ks, vs ! point_of P ks) else None)"
  by (induction vs ks rule: list_induct2) (auto simp: point_of_def)

definition distinct_of :: "key_kind \<Rightarrow> (val \<times> row_id) list \<Rightarrow> nat" where
  "distinct_of kind ps =
     (case kind of Raw \<Rightarrow> length ps | Composite \<Rightarrow> card (composite_prefix_bytes ` set (map fst ps)))"

text \<open>The tree holds \<open>ps\<close> and its statistics say so.\<close>

definition bt_state :: "val set \<Rightarrow> btree \<Rightarrow> (val \<times> row_id) list \<Rightarrow> bool" where
  "bt_state K t ps \<longleftrightarrow>
     bt_rel K t ps \<and> bt_total t = length ps \<and> bt_distinct t = distinct_of (bt_kind t) ps \<and>
     (bt_kind t = Composite \<longrightarrow> composite_set K)"

lemma composite_parts:
  assumes "composite_set K" and "k \<in> K"
  shows "\<exists>w. k = VBytes (composite_prefix_bytes k @ w) \<and> length w = 8"
proof -
  obtain c where "k = VBytes c" "8 \<le> length c" using assms unfolding composite_set_def by blast
  then show ?thesis
    by (intro exI [of _ "drop (length c - 8) c"]) (simp add: composite_prefix_bytes_def)
qed

context key_order
begin

lemma first_at_or_after_spec:
  assumes rel: "bt_rel K t ps" and key: "key \<in> K"
  shows "first_at_or_after t key = Some (map_option fst (find (\<lambda>p. vcmp (fst p) key \<noteq> Less) ps))"
proof -
  obtain ls pre where
    w: "first_at_or_after t key = fold_leaves (\<lambda>s ks vs. let pos = pick_lt key ks in
          if pos < length ks then Some (Some (ks ! pos), True) else Some (s, False)) ls None"
      "ps = pre @ pairs_of ls" "\<forall>k \<in> set (map fst pre). vcmp k key = Less" "\<forall>(i, ks, vs, nxt) \<in> set ls. length vs = length ks"
    unfolding first_at_or_after_def by (rule walk_from [OF rel picks_lt [OF key]])
  have f: "find (\<lambda>p. vcmp (fst p) key \<noteq> Less) ps = find (\<lambda>p. vcmp (fst p) key \<noteq> Less) (pairs_of ls)"
    using w(2,3) find_None_iff [of "\<lambda>p. vcmp (fst p) key \<noteq> Less" pre] by (auto simp: find_append)
  have "between K None (map fst (pairs_of ls)) None"
    using rel_between [OF rel] unfolding w(2) by (auto simp: between_def sorted_wrt_append)
  then show ?thesis
    unfolding f w(1) using w(4)
  proof (induction ls)
    case (Cons l ls)
    obtain i ks vs nxt where l: "l = (i, ks, vs, nxt)" by (cases l)
    have lv: "length vs = length ks" using Cons.prems(2) unfolding l by simp
    have b: "between K None ks None" "between K None (map fst (pairs_of ls)) None"
      using Cons.prems(1) lv unfolding l by (auto simp: between_def sorted_wrt_append)
    have e: "pick_lt key ks = point_of (\<lambda>k. vcmp k key = Less) ks"
      using partition_point_eq [OF partitioned_le(2) [OF key]] b(1) sorted_lt_le [of ks] by (auto simp: pick_lt_def between_def)
    show ?case
      using Cons.IH [OF b(2)] Cons.prems(2) find_zip [OF lv, of "\<lambda>k. vcmp k key = Less"]
      unfolding l by (auto simp: find_append e)
  qed simp
qed

lemma prefix_present_spec:
  assumes c: "composite_set K" and rel: "bt_rel K t ps" and key: "key \<in> K"
  shows "composite_prefix_present t key = Some (composite_prefix_bytes key \<in> composite_prefix_bytes ` set (map fst ps))"
proof -
  obtain b where b: "key = VBytes b" "8 \<le> length b" "VBytes (take (length b - 8) b @ u64_to_be 0) \<in> K"
    using c key unfolding composite_set_def by blast
  define p where "p = take (length b - 8) b"
  have pk: "composite_prefix_bytes key = p" by (simp add: b p_def composite_prefix_bytes_def)
  have s: "VBytes (p @ u64_to_be 0) \<in> K" using b(3) p_def by simp
  let ?P = "\<lambda>q. vcmp (fst q) (VBytes (p @ u64_to_be 0)) \<noteq> Less"
  have step: "composite_prefix_present t key = Some (case find ?P ps of None \<Rightarrow> False | Some q \<Rightarrow> composite_prefix_bytes (fst q) = p)"
    unfolding b(1) composite_prefix_present_def using b(2) first_at_or_after_spec [OF rel s]
    by (simp add: p_def Let_def split: option.split)
  have kK: "fst r \<in> K" if "r \<in> set ps" for r
    using between_sorted [OF rel_between [OF rel]] that by auto
  note kp = composite_parts [OF c kK]
  have ge: "?P r" if r: "r \<in> set ps" "composite_prefix_bytes (fst r) = p" for r
  proof -
    obtain w where "fst r = VBytes (p @ w)" "length w = 8" using kp [OF r(1)] r(2) by auto
    then show ?thesis
      using bytes_cmp_zeros [of w 8] bytes_cmp_flip [of "p @ w" "p @ u64_to_be 0"]
      by (simp add: vcmp_bytes bytes_cmp_append u64_to_be_0 flip_iff)
  qed
  have same: "composite_prefix_bytes (fst q) = p"
    if q: "q \<in> set ps" "?P q" "vcmp (fst q) (fst r) \<noteq> Greater" and r: "r \<in> set ps" "composite_prefix_bytes (fst r) = p" for q r
  proof -
    define d where "d = composite_prefix_bytes (fst q)"
    obtain v w where qr: "fst q = VBytes (d @ v)" "fst r = VBytes (p @ w)"
      using kp [OF q(1)] kp [OF r(1)] r(2) unfolding d_def by auto
    have "bytes_cmp (p @ u64_to_be 0) (d @ v) \<noteq> Greater"
      using q(2) bytes_cmp_flip [of "p @ u64_to_be 0" "d @ v"] by (simp add: qr(1) vcmp_bytes flip_iff)
    moreover have "bytes_cmp (d @ v) (p @ w) \<noteq> Greater" using q(3) by (simp add: qr vcmp_bytes)
    ultimately have "prefix p (d @ v)" by (rule between_prefix)
    then have "prefix p d \<or> prefix d p" using prefix_same_cases [of p "d @ v" d] by simp
    then show ?thesis
      using c kK [OF q(1)] key unfolding composite_set_def d_def pk [symmetric] by metis
  qed
  show ?thesis
  proof (cases "find ?P ps")
    case None
    then have "\<forall>r \<in> set ps. composite_prefix_bytes (fst r) \<noteq> p" using ge by (auto simp: find_None_iff)
    then show ?thesis unfolding step pk None by auto
  next
    case (Some q)
    then obtain i where i: "i < length ps" "ps ! i = q" "?P q" "\<forall>j < i. \<not> ?P (ps ! j)"
      by (auto simp: find_Some_iff)
    have "vcmp (fst q) (fst r) \<noteq> Greater" if r: "r \<in> set ps" "?P r" for r
    proof -
      obtain j where j: "j < length ps" "ps ! j = r" using r(1) by (auto simp: in_set_conv_nth)
      then have "i \<le> j" using i(4) r(2) by (cases "i \<le> j") auto
      then show ?thesis
        using sorted_wrt_nth_less [of "\<lambda>p q. vcmp (fst p) (fst q) = Less" ps i j] between_sorted [OF rel_between [OF rel]]
          i(1,2) j cmp_refl [OF kK [OF r(1)]] by (cases "i = j") auto
    qed
    then have "composite_prefix_bytes (fst q) = p \<longleftrightarrow> p \<in> composite_prefix_bytes ` set (map fst ps)"
      using same [of q] ge i(1-3) nth_mem [OF i(1)] by auto
    then show ?thesis unfolding step pk Some by simp
  qed
qed

subsection \<open>Insert and delete\<close>

lemma rel_keys: "bt_rel K t ps \<Longrightarrow> set (map fst ps) \<subseteq> K"
  using between_sorted [OF rel_between] by blast

lemma grow_root_select [simp]:
  "bt_total (grow_root t ns up) = bt_total t" "bt_distinct (grow_root t ns up) = bt_distinct t"
  "bt_kind (grow_root t ns up) = bt_kind t" "bt_dirty (grow_root t ns up) = bt_dirty t"
  "bt_version (grow_root t ns up) = bt_version t" "bt_empty_rids (grow_root t ns up) = bt_empty_rids t"
  by (cases up; force simp: grow_root_def split: prod.split)+

lemma bt_insert_spec:
  assumes st: "bt_state K t ps" and key: "key \<in> K"
  obtains t' where "bt_insert t key rid = Some t'" "bt_state K t' (kput key rid ps)" "bt_kind t' = bt_kind t" "bt_dirty t'"
    "bt_version t' = bt_version t" "bt_empty_rids t' = bt_empty_rids t"
proof -
  have rel: "bt_rel K t ps" and n: "bt_total t = length ps" "bt_distinct t = distinct_of (bt_kind t) ps"
    and c: "bt_kind t = Composite \<Longrightarrow> composite_set K"
    using st unfolding bt_state_def by blast+
  have rel': "bt_rel K (t\<lparr>bt_dirty := True\<rparr>) ps" using rel by simp
  obtain ns up where i: "insert_recursive (bt_nodes t) (bt_root t) key rid True = Some (ns, up, key \<in> set (map fst ps))"
      "bt_rel K (grow_root (t\<lparr>bt_dirty := True\<rparr>) ns up) (kput key rid ps)"
    using insert_tree_spec [OF rel' key, of rid] by auto
  note len = kput_length [OF rel_between [OF rel] key, of rid]
  have card: "card (composite_prefix_bytes ` set (map fst (kput key rid ps))) =
      (if composite_prefix_bytes key \<in> composite_prefix_bytes ` set (map fst ps) then distinct_of Composite ps
       else Suc (distinct_of Composite ps))"
    unfolding kput_keys [OF rel_keys [OF rel] key] image_insert by (simp add: distinct_of_def insert_absorb del: set_map)
  show thesis
  proof (cases "bt_kind t")
    case Raw
    show ?thesis
      by (rule that, unfold bt_insert_def Raw key_kind.case i(1) Option.bind.simps prod.case Let_def, rule refl)
        (use i(2) n len Raw in \<open>simp_all add: bt_state_def distinct_of_def del: set_map\<close>)
  next
    case Composite
    note pp = prefix_present_spec [OF c [OF Composite] rel key]
    show ?thesis
      by (rule that, unfold bt_insert_def Composite key_kind.case pp i(1) Option.bind.simps prod.case Let_def, rule refl)
        (use i(2) n len card c Composite in \<open>simp_all add: bt_state_def distinct_of_def del: set_map\<close>)
  qed
qed

lemma filter_key_length:
  "distinct (map fst ps) \<Longrightarrow> length (filter (\<lambda>p. fst p \<noteq> key) ps) = (if key \<in> set (map fst ps) then length ps - 1 else length ps)"
proof (induction ps)
  case (Cons p ps)
  then show ?case by (cases "fst p = key"; cases ps) (auto simp: image_iff filter_id_conv)
qed simp

lemma bt_delete_spec:
  assumes st: "bt_state K t ps" and key: "key \<in> K"
  obtains t' where "bt_delete t key = Some (t', key \<in> set (map fst ps))" "bt_state K t' (filter (\<lambda>p. fst p \<noteq> key) ps)"
    "bt_kind t' = bt_kind t" "bt_dirty t'" "bt_version t' = bt_version t" "bt_empty_rids t' = bt_empty_rids t"
proof -
  have rel: "bt_rel K t ps" and n: "bt_total t = length ps" "bt_distinct t = distinct_of (bt_kind t) ps"
    and c: "bt_kind t = Composite \<Longrightarrow> composite_set K"
    using st unfolding bt_state_def by blast+
  note dis = between_distinct [OF rel_between [OF rel]]
  obtain i ks vs nxt where l: "descend (pick_le key) (bt_nodes t) (bt_root t) = Some i"
      "index_run (bt_nodes t) i = Some (Leaf ks vs nxt)" "key \<in> set ks \<longleftrightarrow> key \<in> set (map fst ps)" "between K None ks None"
      "key \<in> set ks \<longrightarrow> (\<exists>ns. leaf_remove (bt_nodes t) i (pick_lt key ks) = Some ns \<and>
         bt_rel K (t\<lparr>bt_nodes := ns\<rparr>) (filter (\<lambda>p. fst p \<noteq> key) ps))"
    by (rule remove_key_spec [OF rel key])
  note search = search_found [OF key l(4)]
  show thesis
  proof (cases "key \<in> set ks")
    case False
    then have ps: "key \<notin> set (map fst ps)" "filter (\<lambda>p. fst p \<noteq> key) ps = ps"
      using l(3) by (auto simp: filter_id_conv)
    show ?thesis
      by (rule that [of "t\<lparr>bt_dirty := True\<rparr>"])
        (use l(1,2) False st ps in \<open>simp_all add: bt_delete_def search bt_state_def\<close>)
  next
    case True
    define qs where "qs = filter (\<lambda>p. fst p \<noteq> key) ps"
    obtain ns where ns: "leaf_remove (bt_nodes t) i (pick_lt key ks) = Some ns" "bt_rel K (t\<lparr>bt_nodes := ns\<rparr>) qs"
      using l(5) True unfolding qs_def by blast
    have k: "key \<in> set (map fst ps)" using True l(3) by simp
    have len: "length qs = length ps - 1" using filter_key_length [OF dis, of key] k unfolding qs_def by simp
    have keys: "set (map fst ps) = insert key (set (map fst qs))" using k unfolding qs_def by auto
    define t' where "t' = t\<lparr>bt_dirty := True, bt_nodes := ns, bt_total := bt_total t - 1\<rparr>"
    have rel': "bt_rel K t' qs" using ns(2) unfolding t'_def by (simp add: bt_rel_def)
    have step: "bt_delete t key = Option.bind (case bt_kind t of Raw \<Rightarrow> Some True
         | Composite \<Rightarrow> Option.bind (composite_prefix_present t' key) (\<lambda>p. Some (\<not> p)))
        (\<lambda>gone. Some (t'\<lparr>bt_distinct := (if gone then bt_distinct t - 1 else bt_distinct t)\<rparr>, True))"
      by (simp only: bt_delete_def t'_def l(1,2) Option.bind.simps node.case search True if_True sum.case ns(1) Let_def)
    have sel: "bt_total t' = length qs" "bt_kind t' = bt_kind t" "bt_dirty t'" "bt_version t' = bt_version t" "bt_empty_rids t' = bt_empty_rids t"
      using n(1) len unfolding t'_def by simp_all
    show ?thesis
    proof (cases "bt_kind t")
      case Raw
      show ?thesis
        by (rule that [of "t'\<lparr>bt_distinct := bt_distinct t - 1\<rparr>"], unfold step qs_def [symmetric])
          (use rel' n len sel k Raw in \<open>simp_all add: bt_state_def distinct_of_def del: set_map\<close>)
    next
      case Composite
      note pp = prefix_present_spec [OF c [OF Composite] rel' key]
      let ?gone = "composite_prefix_bytes key \<notin> composite_prefix_bytes ` set (map fst qs)"
      have "distinct_of Composite ps = (if ?gone then Suc (distinct_of Composite qs) else distinct_of Composite qs)"
        unfolding distinct_of_def keys image_insert by (simp add: insert_absorb del: set_map)
      then have d: "(if ?gone then bt_distinct t - 1 else bt_distinct t) = distinct_of Composite qs"
        using n(2) Composite by simp
      show ?thesis
        by (rule that [of "t'\<lparr>bt_distinct := (if ?gone then bt_distinct t - 1 else bt_distinct t)\<rparr>"], unfold step qs_def [symmetric])
          (use rel' d sel k c Composite pp in \<open>simp_all add: bt_state_def del: set_map\<close>)
    qed
  qed
qed

end

end
