(* ===== verification/Btree_Scan.thy ===== *)
theory Btree_Scan
  imports Btree_Ops
begin

text \<open>
  The scans of the B+ tree on the list of its pairs, and the recount of the statistics, which finds the
  numbers the operations maintain.
\<close>

subsection \<open>Loops over pairs\<close>

lemma scan_collect:
  "fst (scan_list (\<lambda>acc k v. (if P k then (acc @ [g k v], False) else (acc, False))) acc ps)
     = acc @ map (\<lambda>p. g (fst p) (snd p)) (filter (\<lambda>p. P (fst p)) ps)"
  by (induction ps arbitrary: acc) auto

lemma fold_leaves_length:
  "\<forall>(i, ks, vs, nxt) \<in> set ls. length vs = length ks \<Longrightarrow>
     fold_leaves (\<lambda>n ks vs. Some (n + length ks, False)) ls n = Some (n + length (pairs_of ls))"
  by (induction ls arbitrary: n) auto


lemma scan_recount_raw:
  "distinct (map fst ps) \<Longrightarrow> (case prev of None \<Rightarrow> True | Some p \<Rightarrow> p \<notin> set (map fst ps)) \<Longrightarrow>
     \<exists>prev'. fst (scan_list (recount_step Raw) (n, d, prev, q) ps) = (n + length ps, d + length ps, prev', q)"
proof (induction ps arbitrary: n d prev)
  case (Cons p ps)
  obtain k v where p: "p = (k, v)" by (cases p)
  have "recount_step Raw (n, d, prev, q) k v = ((n + 1, d + 1, Some k, q), False)"
    using Cons.prems(2) unfolding p by (auto simp: recount_step_def value_eq_iff split: option.splits)
  then show ?case
    using Cons.prems(1) Cons.IH [of "Some k" "n + 1" "d + 1"] unfolding p by simp
qed simp

text \<open>Counting the changes of prefix along an ordered list counts the prefixes.\<close>

lemma scan_recount_composite:
  assumes "sorted_wrt (\<lambda>a b. bytes_cmp a b \<noteq> Greater) (map (composite_prefix_bytes \<circ> fst) ps)"
    and "case prev of None \<Rightarrow> True | Some p \<Rightarrow> \<forall>r \<in> set ps. bytes_cmp p (composite_prefix_bytes (fst r)) \<noteq> Greater"
  shows "\<exists>prev'. fst (scan_list (recount_step Composite) (n, d, q, prev) ps)
      = (n + length ps, d + card (composite_prefix_bytes ` set (map fst ps) - set_option prev), q, prev')"
  using assms
proof (induction ps arbitrary: n d prev)
  case (Cons p ps)
  obtain k v where p: "p = (k, v)" by (cases p)
  let ?x = "composite_prefix_bytes k" and ?S = "composite_prefix_bytes ` set (map fst ps)"
  have later: "\<forall>r \<in> set ps. bytes_cmp ?x (composite_prefix_bytes (fst r)) \<noteq> Greater"
    and s: "sorted_wrt (\<lambda>a b. bytes_cmp a b \<noteq> Greater) (map (composite_prefix_bytes \<circ> fst) ps)"
    using Cons.prems(1) unfolding p by (auto simp: comp_def)
  note IH = Cons.IH [OF s, of "Some ?x"]
  show ?case
  proof (cases "prev = Some ?x")
    case True
    then show ?thesis
      using IH [of "n + 1" d] later unfolding p by (simp add: recount_step_def)
  next
    case False
    have "set_option prev \<inter> insert ?x ?S = {}"
    proof (cases prev)
      case (Some y)
      have "bytes_cmp y ?x = Less" using False Some Cons.prems(2) bytes_cmp_Equal [of y ?x] unfolding p by (cases "bytes_cmp y ?x") auto
      then have "bytes_cmp y (composite_prefix_bytes (fst r)) = Less" if "r \<in> set ps" for r
        using later that bytes_order.cmp_less_le_trans [of y ?x "composite_prefix_bytes (fst r)"] by simp
      then have "y \<notin> ?S" using bytes_order.cmp_refl [of y] by force
      then show ?thesis using False Some by auto
    qed simp
    then have "card (insert ?x ?S - set_option prev) = Suc (card (?S - {?x}))"
      by (simp add: Diff_triv inf_commute card.insert_remove)
    then show ?thesis
      using IH [of "n + 1" "d + 1"] later False unfolding p by (simp add: recount_step_def del: card_Diff_insert)
  qed
qed simp

lemma insert_by_first: "\<forall>y \<in> set ys. c x y \<noteq> Greater \<Longrightarrow> insert_by c x ys = x # ys"
  by (cases ys) auto

lemma sort_by_sorted: "sorted_wrt (\<lambda>a b. c a b \<noteq> Greater) xs \<Longrightarrow> sort_by c xs = xs"
  unfolding sort_by_def by (induction xs) (auto simp: insert_by_first)

lemma bytes_cmp_extend: "bytes_cmp p q = Greater \<Longrightarrow> \<not> prefix q p \<Longrightarrow> bytes_cmp (p @ v) (q @ w) = Greater"
  by (induction p q rule: bytes_cmp.induct) (auto split: if_splits)

context key_order
begin

lemma range_from_spec:
  assumes rel: "bt_rel K t ps" and a: "a \<in> K"
  shows "range_from t a = Some (filter (\<lambda>p. vcmp (fst p) a \<noteq> Less) ps)"
proof -
  obtain rest pre where s: "range_from t a = Some (fst (scan_list
        (\<lambda>acc k v. if vcmp k a \<noteq> Less then (acc @ [(k, v)], False) else (acc, False)) [] rest))"
      "ps = pre @ rest" "\<forall>k \<in> set (map fst pre). vcmp k a = Less"
    unfolding range_from_def by (rule scan_from [OF rel picks_le [OF a]])
  have "filter (\<lambda>p. vcmp (fst p) a \<noteq> Less) pre = []" using s(3) by (auto simp: filter_empty_conv)
  then show ?thesis unfolding s(1,2) scan_collect by simp
qed

lemma from_start:
  assumes rel: "bt_rel K t ps"
  shows "Option.bind (descend pick_first (bt_nodes t) (bt_root t)) (\<lambda>leaf. scan_leaves step on_internal (bt_nodes t) leaf s)
       = Some (fst (scan_list step s ps))"
proof -
  obtain rest pre where "Option.bind (descend pick_first (bt_nodes t) (bt_root t)) (\<lambda>leaf. scan_leaves step on_internal (bt_nodes t) leaf s)
       = Some (fst (scan_list step s rest))" "ps = pre @ rest" "\<forall>k \<in> set (map fst pre). False"
    by (rule scan_from [OF rel picks_first])
  then show ?thesis by (cases pre) auto
qed

lemma range_to_spec:
  assumes rel: "bt_rel K t ps" and b: "b \<in> K"
  shows "range_to t b = Some (filter (\<lambda>p. vcmp (fst p) b \<noteq> Greater) ps)"
proof -
  have "fst (scan_list (\<lambda>acc k v. if vcmp k b = Greater then (acc, True) else (acc @ [(k, v)], False)) acc qs)
      = acc @ filter (\<lambda>p. vcmp (fst p) b \<noteq> Greater) qs"
    if "sorted_wrt (\<lambda>p q. vcmp (fst p) (fst q) = Less) qs" "set (map fst qs) \<subseteq> K" for acc qs
    using that
  proof (induction qs arbitrary: acc)
    case (Cons q qs)
    show ?case
    proof (cases "vcmp (fst q) b = Greater")
      case True
      then have "filter (\<lambda>p. vcmp (fst p) b \<noteq> Greater) (q # qs) = []"
        using beyond [OF Cons.prems b True] by (auto simp: filter_empty_conv)
      then show ?thesis using True by (cases q) simp
    next
      case False
      then show ?thesis using Cons by (cases q) simp
    qed
  qed simp
  then show ?thesis
    unfolding range_to_def from_start [OF rel] using between_sorted [OF rel_between [OF rel]] by simp
qed

lemma len_spec:
  assumes rel: "bt_rel K t ps"
  shows "bt_len t = Some (length ps)" and "bt_is_empty t = Some (ps = [])"
proof -
  obtain ls pre where w: "bt_len t = fold_leaves (\<lambda>n ks vs. Some (n + length ks, False)) ls 0"
      "ps = pre @ pairs_of ls" "\<forall>k \<in> set (map fst pre). False" "\<forall>(i, ks, vs, nxt) \<in> set ls. length vs = length ks"
    unfolding bt_len_def by (rule walk_from [OF rel picks_first])
  then show *: "bt_len t = Some (length ps)" by (cases pre) (auto simp: fold_leaves_length)
  then show "bt_is_empty t = Some (ps = [])" by (simp add: bt_is_empty_def)
qed

lemma count_range_spec:
  assumes rel: "bt_rel K t ps" and a: "a \<in> K" and b: "b \<in> K"
  shows "count_range_capped t a b cap = Some (min cap (length (filter (in_range a b) ps)))"
proof (cases "cap = 0")
  case False
  let ?step = "\<lambda>n k v. if vcmp k b = Greater then (n, True) else if vcmp k a \<noteq> Less then (n + 1, n + 1 \<ge> cap) else (n, False)"
  have count: "fst (scan_list ?step n qs) = min cap (n + length (filter (in_range a b) qs))"
    if "sorted_wrt (\<lambda>p q. vcmp (fst p) (fst q) = Less) qs" "set (map fst qs) \<subseteq> K" "n < cap" for n qs
    using that
  proof (induction qs arbitrary: n)
    case (Cons q qs)
    show ?case
    proof (cases "vcmp (fst q) b = Greater")
      case True
      then have "filter (in_range a b) (q # qs) = []"
        using beyond [OF Cons.prems(1,2) b True] by (auto simp: filter_empty_conv in_range_def)
      then show ?thesis using True Cons.prems(3) by (cases q) simp
    next
      case False
      then show ?thesis using Cons by (cases q; cases "n + 1 < cap") (auto simp: in_range_def)
    qed
  qed simp
  obtain rest pre where s: "Option.bind (descend (pick_le a) (bt_nodes t) (bt_root t))
        (\<lambda>leaf. scan_leaves ?step Some (bt_nodes t) leaf 0) = Some (fst (scan_list ?step 0 rest))"
      "ps = pre @ rest" "\<forall>k \<in> set (map fst pre). vcmp k a = Less"
    by (rule scan_from [OF rel picks_le [OF a]])
  have "filter (in_range a b) pre = []" using s(3) by (auto simp: in_range_def filter_empty_conv)
  moreover have "sorted_wrt (\<lambda>p q. vcmp (fst p) (fst q) = Less) rest" "set (map fst rest) \<subseteq> K"
    using between_sorted [OF rel_between [OF rel]] unfolding s(2) by (auto simp: sorted_wrt_append)
  ultimately show ?thesis
    using count [of rest 0] False s(1,2) by (simp add: count_range_capped_def)
qed (simp add: count_range_capped_def)

lemma ordered_pairs_spec:
  assumes rel: "bt_rel K t ps"
  shows "ordered_pairs t = Some ps"
proof -
  have "fst (scan_list (\<lambda>acc k v. (acc @ [(k, v)], False)) [] ps) = ps"
    using scan_collect [of "\<lambda>_. True" Pair "[]" ps] by simp
  moreover have "sorted_wrt (\<lambda>a b. pair_cmp a b \<noteq> Greater) ps"
    using between_sorted [OF rel_between [OF rel]] by (auto simp: pair_cmp_def intro: sorted_wrt_mono_rel [rotated])
  ultimately show ?thesis
    unfolding ordered_pairs_def
    using from_start [OF rel, of "\<lambda>acc k v. (acc @ [(k, v)], False)" "\<lambda>_. None" "[]"]
    by (auto simp: sort_by_sorted bind_eq_Some_conv)
qed

lemma prefixes_ordered:
  assumes c: "composite_set K" and rel: "bt_rel K t ps"
  shows "sorted_wrt (\<lambda>a b. bytes_cmp a b \<noteq> Greater) (map (composite_prefix_bytes \<circ> fst) ps)"
proof -
  have mono: "bytes_cmp (composite_prefix_bytes k) (composite_prefix_bytes l) \<noteq> Greater"
    if k: "k \<in> K" and l: "l \<in> K" and less: "vcmp k l = Less" for k l
  proof
    assume g: "bytes_cmp (composite_prefix_bytes k) (composite_prefix_bytes l) = Greater"
    define p q where "p = composite_prefix_bytes k" and "q = composite_prefix_bytes l"
    obtain v w where kl: "k = VBytes (p @ v)" "l = VBytes (q @ w)"
      using composite_parts [OF c k] composite_parts [OF c l] unfolding p_def q_def by blast
    have "p \<noteq> q" using g bytes_order.cmp_refl [of p] unfolding p_def q_def by auto
    then have "\<not> prefix q p" using c k l unfolding composite_set_def p_def q_def by metis
    then have "bytes_cmp (p @ v) (q @ w) = Greater"
      using bytes_cmp_extend g unfolding p_def q_def by blast
    then show False using less unfolding kl by (simp add: vcmp_bytes)
  qed
  have s: "sorted_wrt (\<lambda>p q. vcmp (fst p) (fst q) = Less) ps" "set (map fst ps) \<subseteq> K"
    using between_sorted [OF rel_between [OF rel]] by blast+
  show ?thesis
    unfolding sorted_wrt_map comp_def
  proof (rule sorted_wrt_mono_rel [OF _ s(1)])
    fix x y
    assume "x \<in> set ps" and "y \<in> set ps" and "vcmp (fst x) (fst y) = Less"
    then show "bytes_cmp (composite_prefix_bytes (fst x)) (composite_prefix_bytes (fst y)) \<noteq> Greater"
      using s(2) by (intro mono) auto
  qed
qed

lemma recount_spec:
  assumes st: "bt_state K t ps"
  shows "recount t = Some t"
proof -
  have rel: "bt_rel K t ps" and n: "bt_total t = length ps" "bt_distinct t = distinct_of (bt_kind t) ps"
    and c: "bt_kind t = Composite \<Longrightarrow> composite_set K"
    using st unfolding bt_state_def by blast+
  have "\<exists>a b. fst (scan_list (recount_step (bt_kind t)) (0, 0, None, None) ps) = (bt_total t, bt_distinct t, a, b)"
  proof (cases "bt_kind t")
    case Raw
    then show ?thesis
      using scan_recount_raw [of ps None 0 0 None] between_distinct [OF rel_between [OF rel]] n by (auto simp: distinct_of_def)
  next
    case Composite
    then show ?thesis
      using scan_recount_composite [OF prefixes_ordered [OF c rel], of None 0 0 None] n by (auto simp: distinct_of_def)
  qed
  then show ?thesis
    unfolding recount_def
    using from_start [OF rel, of "recount_step (bt_kind t)" Some "(0, 0, None, None)"]
    by (auto simp: bind_eq_Some_conv)
qed

end

end
