(* ===== verification/Btree_Unique.thy ===== *)
theory Btree_Unique
  imports Btree_Scan
begin

text \<open>
  A unique index as a map from keys of one column type to row ids: any sequence of inserts and deletes
  runs to its end and leaves a tree that answers like the map.
\<close>

interpretation typed: key_order "keys_of ty" for ty
  by (rule key_order.intro) (rule keys_of_order)

datatype index_op = IInsert val row_id | IDelete val

fun op_key :: "index_op \<Rightarrow> val" where
  "op_key (IInsert k _) = k"
| "op_key (IDelete k) = k"

fun index_step :: "btree \<Rightarrow> index_op \<Rightarrow> btree run" where
  "index_step t (IInsert k rid) = bt_insert t k rid"
| "index_step t (IDelete k) = map_option fst (bt_delete t k)"

fun run_index :: "btree \<Rightarrow> index_op list \<Rightarrow> btree run" where
  "run_index t [] = Some t"
| "run_index t (op # ops) = Option.bind (index_step t op) (\<lambda>t'. run_index t' ops)"

text \<open>The abstract index.\<close>

fun map_step :: "(val \<rightharpoonup> row_id) \<Rightarrow> index_op \<Rightarrow> (val \<rightharpoonup> row_id)" where
  "map_step m (IInsert k rid) = m(k \<mapsto> rid)"
| "map_step m (IDelete k) = m(k := None)"

lemma map_of_filter_key: "map_of (filter (\<lambda>p. fst p \<noteq> key) ps) = (map_of ps)(key := None)"
  by (induction ps) (auto simp: fun_eq_iff)

lemma index_step_refines:
  assumes "bt_state (keys_of ty) t ps" and "bt_kind t = Raw" and "op_key op \<in> keys_of ty"
  shows "\<exists>t' ps'. index_step t op = Some t' \<and> bt_state (keys_of ty) t' ps' \<and> map_of ps' = map_step (map_of ps) op \<and>
    bt_kind t' = Raw \<and> bt_empty_rids t' = bt_empty_rids t"
proof (cases op)
  case (IInsert k rid)
  have k: "k \<in> keys_of ty" using assms(3) IInsert by simp
  obtain t' where "bt_insert t k rid = Some t'" "bt_state (keys_of ty) t' (kput k rid ps)" "bt_kind t' = bt_kind t" "bt_dirty t'"
      "bt_version t' = bt_version t" "bt_empty_rids t' = bt_empty_rids t"
    by (rule typed.bt_insert_spec [OF assms(1) k])
  moreover have "set (map fst ps) \<subseteq> keys_of ty"
    using typed.rel_keys assms(1) unfolding bt_state_def by blast
  ultimately show ?thesis
    using assms(2) typed.kput_map_of [of ps ty k rid] k IInsert by auto
next
  case (IDelete k)
  have k: "k \<in> keys_of ty" using assms(3) IDelete by simp
  obtain t' where "bt_delete t k = Some (t', k \<in> set (map fst ps))" "bt_state (keys_of ty) t' (filter (\<lambda>p. fst p \<noteq> k) ps)"
      "bt_kind t' = bt_kind t" "bt_dirty t'" "bt_version t' = bt_version t" "bt_empty_rids t' = bt_empty_rids t"
    by (rule typed.bt_delete_spec [OF assms(1) k])
  then show ?thesis using assms(2) IDelete by (auto simp: map_of_filter_key)
qed

lemma run_index_refines:
  assumes "bt_state (keys_of ty) t ps" and "bt_kind t = Raw" and "\<forall>op \<in> set ops. op_key op \<in> keys_of ty"
  shows "\<exists>t' ps'. run_index t ops = Some t' \<and> bt_state (keys_of ty) t' ps' \<and> map_of ps' = foldl map_step (map_of ps) ops \<and>
    bt_kind t' = Raw \<and> bt_empty_rids t' = bt_empty_rids t"
  using assms
proof (induction ops arbitrary: t ps)
  case (Cons op ops)
  obtain t1 ps1 where s: "index_step t op = Some t1" "bt_state (keys_of ty) t1 ps1" "map_of ps1 = map_step (map_of ps) op"
      "bt_kind t1 = Raw" "bt_empty_rids t1 = bt_empty_rids t"
    using index_step_refines [OF Cons.prems(1,2), of op] Cons.prems(3) by auto
  then show ?case using Cons.IH [OF s(2,4)] Cons.prems(3) by (auto simp: s(3,5))
qed auto

lemma bt_state_create: "bt_state K bt_create []"
  by (simp add: bt_state_def distinct_of_def) (simp add: bt_create_def)

lemma typed_sorted:
  assumes "bt_rel (keys_of ty) t ps"
  shows "sorted_wrt (\<lambda>p q. value_cmp (fst p) (fst q) = Some Less) ps"
proof -
  have s: "sorted_wrt (\<lambda>p q. vcmp (fst p) (fst q) = Less) ps" "set (map fst ps) \<subseteq> keys_of ty"
    using typed.between_sorted [OF typed.rel_between [OF assms]] by blast+
  show ?thesis
  proof (rule sorted_wrt_mono_rel [OF _ s(1)])
    fix p q
    assume "p \<in> set ps" and "q \<in> set ps" and "vcmp (fst p) (fst q) = Less"
    then show "value_cmp (fst p) (fst q) = Some Less"
      using s(2) value_cmp_returns [of "fst p" ty "fst q" ty] by auto
  qed
qed

text \<open>
  C36. A unique index is a sorted map. Running any sequence of inserts and deletes with keys of one type
  on a fresh tree returns, and the tree is balanced, has no node above \<open>ORDER\<close> keys and chains its leaves
  in key order. Point lookups, range scans in every form, the length and the snapshot read the map that
  the sequence builds; a delete reports whether the key was there; the statistics are the number of
  keys, and recounting them from the leaves changes nothing.
\<close>

theorem btree_refines_map:
  assumes "\<forall>op \<in> set ops. op_key op \<in> keys_of ty" and "a \<in> keys_of ty" and "b \<in> keys_of ty"
  shows "\<exists>t ps. run_index bt_create ops = Some t \<and>
     bt_rel (keys_of ty) t ps \<and> sorted_wrt (\<lambda>p q. value_cmp (fst p) (fst q) = Some Less) ps \<and>
     map_of ps = foldl map_step Map.empty ops \<and>
     bt_lookup t a = Some (foldl map_step Map.empty ops a) \<and>
     map_option snd (bt_delete t a) = Some (foldl map_step Map.empty ops a \<noteq> None) \<and>
     bt_range t a b = Some (filter (in_range a b) ps) \<and>
     range_from t a = Some (filter (\<lambda>p. vcmp (fst p) a \<noteq> Less) ps) \<and>
     range_to t b = Some (filter (\<lambda>p. vcmp (fst p) b \<noteq> Greater) ps) \<and>
     ordered_pairs t = Some ps \<and> bt_len t = Some (length ps) \<and>
     bt_stats t = \<lparr>st_total = length ps, st_distinct = length ps, st_empty = 0\<rparr> \<and> recount t = Some t"
proof -
  have "bt_kind bt_create = Raw" "bt_empty_rids bt_create = []" by (simp_all add: bt_create_def)
  then obtain t ps where t: "run_index bt_create ops = Some t" "bt_state (keys_of ty) t ps"
      "map_of ps = foldl map_step Map.empty ops" "bt_kind t = Raw" "bt_empty_rids t = []"
    using run_index_refines [OF bt_state_create _ assms(1)] by auto
  then have rel: "bt_rel (keys_of ty) t ps" and st: "bt_stats t = \<lparr>st_total = length ps, st_distinct = length ps, st_empty = 0\<rparr>"
    by (simp_all add: bt_state_def bt_stats_def distinct_of_def)
  note typed_sorted [OF rel]
  moreover have "map_option snd (bt_delete t a) = Some (map_of ps a \<noteq> None)"
    by (rule typed.bt_delete_spec [OF t(2) assms(2)]) (simp add: map_of_eq_None_iff)
  ultimately show ?thesis
    using t(1,3) rel st typed.lookup_spec [OF rel assms(2)] typed.range_spec [OF rel assms(2,3)]
      typed.range_from_spec [OF rel assms(2)] typed.range_to_spec [OF rel assms(3)] typed.ordered_pairs_spec [OF rel]
      typed.len_spec(1) [OF rel] typed.recount_spec [OF t(2)]
    by (intro exI [of _ t] exI [of _ ps]) simp
qed

definition sample_ops :: "index_op list" where
  "sample_ops = [IInsert (VInt 2) \<lparr>rid_page = 1, rid_slot = 0\<rparr>, IInsert (VInt 1) \<lparr>rid_page = 1, rid_slot = 1\<rparr>, IDelete (VInt 2)]"

theorem btree_refines_map_witness:
  "VInt 1 \<in> keys_of TInt \<and> VInt 2 \<in> keys_of TInt \<and>
   (\<exists>t ps. run_index bt_create sample_ops = Some t \<and> map_of ps = [VInt 1 \<mapsto> \<lparr>rid_page = 1, rid_slot = 1\<rparr>] \<and>
      bt_lookup t (VInt 1) = Some (Some \<lparr>rid_page = 1, rid_slot = 1\<rparr>) \<and> ordered_pairs t = Some ps)"
proof -
  have k: "VInt 1 \<in> keys_of TInt" "VInt 2 \<in> keys_of TInt" by (simp_all add: keys_of_def)
  then have "\<forall>op \<in> set sample_ops. op_key op \<in> keys_of TInt" by (simp add: sample_ops_def)
  moreover have m: "foldl map_step Map.empty sample_ops = [VInt 1 \<mapsto> \<lparr>rid_page = 1, rid_slot = 1\<rparr>]"
    by (simp add: sample_ops_def fun_eq_iff)
  ultimately have "\<exists>t ps. run_index bt_create sample_ops = Some t \<and> map_of ps = [VInt 1 \<mapsto> \<lparr>rid_page = 1, rid_slot = 1\<rparr>] \<and>
      bt_lookup t (VInt 1) = Some (([VInt 1 \<mapsto> \<lparr>rid_page = 1, rid_slot = 1\<rparr>]) (VInt 1)) \<and> ordered_pairs t = Some ps"
    using btree_refines_map [of sample_ops TInt "VInt 1" "VInt 2"] k unfolding m by blast
  then show ?thesis using k by simp
qed

end
