(* ===== verification/Btree_Int.thy ===== *)
theory Btree_Int
  imports Btree_Unique
begin

text \<open>
  The integer fast paths of the B+ tree against the generic operations: on an index with integer keys they
  compute the same tree, panics and counters included, and the batch delete removes what deleting key
  by key removes.
\<close>

subsection \<open>Searching integer keys\<close>

lemma search_loop_cong:
  "base + sz \<le> length xs \<Longrightarrow> 0 < sz \<Longrightarrow> \<forall>x \<in> set xs. f x = g x \<Longrightarrow>
     search_loop f xs base sz = search_loop g xs base sz \<and> search_loop f xs base sz < length xs"
proof (induction sz arbitrary: base rule: less_induct)
  case (less sz)
  note unfold = search_loop.simps [of f xs base sz] search_loop.simps [of g xs base sz]
  show ?case
  proof (cases "sz > 1")
    case True
    let ?half = "sz div 2"
    have e: "f (xs ! (base + ?half)) = g (xs ! (base + ?half))" using less.prems True by simp
    have s: "sz - ?half < sz" "0 < sz - ?half" using True by linarith+
    have l: "base + (sz - ?half) \<le> length xs" "base + ?half + (sz - ?half) \<le> length xs" using less.prems(1) by linarith+
    show ?thesis
      using less.IH [OF s(1) l(1) s(2) less.prems(3)] less.IH [OF s(1) l(2) s(2) less.prems(3)] True
      unfolding unfold by (cases "g (xs ! (base + ?half)) = Greater") (simp_all add: Let_def e)
  next
    case False
    then show ?thesis using less.prems unfolding unfold by simp
  qed
qed

lemma binary_search_by_cong: "\<forall>x \<in> set xs. f x = g x \<Longrightarrow> binary_search_by f xs = binary_search_by g xs"
  using search_loop_cong [of 0 "length xs" xs f g] by (cases "xs = []") (auto simp: binary_search_by_def Let_def)

lemma partition_point_cong: "\<forall>x \<in> set xs. P x = Q x \<Longrightarrow> partition_point P xs = partition_point Q xs"
  unfolding partition_point_def by (subst binary_search_by_cong [of xs _ "\<lambda>x. if Q x then Less else Greater"]) auto

lemma keys_of_int: "k \<in> keys_of TInt \<longleftrightarrow> (\<exists>i. k = VInt i)"
  by (simp add: keys_of_image image_iff)

lemma int_search:
  assumes "set ks \<subseteq> keys_of TInt"
  shows "partition_point (int_le i) ks = pick_le (VInt i) ks" and "partition_point (int_lt i) ks = pick_lt (VInt i) ks"
    and "binary_search_by (int_cmp i) ks = binary_search ks (VInt i)"
proof -
  have c: "int_le i k = (vcmp k (VInt i) \<noteq> Greater)" "int_lt i k = (vcmp k (VInt i) = Less)" "int_cmp i k = vcmp k (VInt i)"
    if "k \<in> set ks" for k
    using assms that by (auto simp: keys_of_int subset_iff int_le_def int_lt_def int_cmp_def vcmp_def value_cmp_def)
  then show "partition_point (int_le i) ks = pick_le (VInt i) ks" "partition_point (int_lt i) ks = pick_lt (VInt i) ks"
    unfolding pick_le_def pick_lt_def by (auto intro!: partition_point_cong)
  show "binary_search_by (int_cmp i) ks = binary_search ks (VInt i)"
    unfolding binary_search_def using c(3) by (auto intro!: binary_search_by_cong)
qed

text \<open>All keys of a tree, separators included.\<close>

fun all_keys :: "bt \<Rightarrow> val set" where
  "all_keys (TLeaf i ks vs nxt) = set ks"
| "all_keys (TNode i ks ts) = set ks \<union> (\<Union>t \<in> set ts. all_keys t)"

lemma ordered_all_keys:
  shows "ordered K lo t hi \<Longrightarrow> all_keys t \<subseteq> K" and "ordered_list K lo ks ts hi \<Longrightarrow> set ks \<union> (\<Union>t \<in> set ts. all_keys t) \<subseteq> K"
  by (induction K lo t hi and K lo ks ts hi rule: ordered_ordered_list.induct) auto

lemma descend_int:
  "repr ns t \<Longrightarrow> all_keys t \<subseteq> keys_of TInt \<Longrightarrow> descend (partition_point (int_le i)) ns (bt_id t) = descend (pick_le (VInt i)) ns (bt_id t)"
proof (induction t)
  case (TLeaf j ks vs nxt)
  then show ?case by (simp add: descend.simps [of _ ns j] index_run_def)
next
  case (TNode j ks ts)
  have "partition_point (int_le i) ks = pick_le (VInt i) ks"
    using TNode.prems(2) by (intro int_search(1)) simp
  moreover have "descend (partition_point (int_le i)) ns c = descend (pick_le (VInt i)) ns c" if c: "c \<in> set (map bt_id ts)" for c
  proof -
    obtain t where t: "t \<in> set ts" "c = bt_id t" using c by auto
    show ?thesis unfolding t(2) using TNode.prems t(1) by (intro TNode.IH) auto
  qed
  ultimately show ?case
    using TNode.prems(1) nth_mem [of "pick_le (VInt i) ks" "map bt_id ts"]
    by (simp add: descend.simps [of _ ns j] index_run_def)
qed

subsection \<open>Lookup and delete\<close>

lemma rel_int:
  assumes "bt_rel (keys_of TInt) t ps"
  shows "descend (partition_point (int_le i)) (bt_nodes t) (bt_root t) = descend (pick_le (VInt i)) (bt_nodes t) (bt_root t)"
    and "\<exists>j ks vs nxt. descend (pick_le (VInt i)) (bt_nodes t) (bt_root t) = Some j \<and>
      index_run (bt_nodes t) j = Some (Leaf ks vs nxt) \<and> set ks \<subseteq> keys_of TInt"
proof -
  obtain tr where "tree_in (keys_of TInt) (bt_nodes t) (bt_root t) tr" using assms unfolding bt_rel_def by blast
  then show "descend (partition_point (int_le i)) (bt_nodes t) (bt_root t) = descend (pick_le (VInt i)) (bt_nodes t) (bt_root t)"
    using ordered_all_keys(1) [of "keys_of TInt" None tr None] descend_int [of "bt_nodes t" tr i] unfolding tree_in_def by simp
  have key: "VInt i \<in> keys_of TInt" by (simp add: keys_of_int)
  show "\<exists>j ks vs nxt. descend (pick_le (VInt i)) (bt_nodes t) (bt_root t) = Some j \<and>
      index_run (bt_nodes t) j = Some (Leaf ks vs nxt) \<and> set ks \<subseteq> keys_of TInt"
    by (rule typed.leaf_of [OF assms typed.picks_le [OF key]]) (auto simp: between_def)
qed

lemma lookup_int_eq:
  assumes "bt_rel (keys_of TInt) t ps"
  shows "lookup_int t i = bt_lookup t (VInt i)"
  using rel_int(2) [OF assms, of i]
  by (auto simp: lookup_int_def bt_lookup_def rel_int(1) [OF assms] int_search(3))

lemma delete_int_eq:
  assumes "bt_rel (keys_of TInt) t ps" and "bt_kind t = Raw"
  shows "delete_int t i = bt_delete t (VInt i)"
proof -
  obtain j ks vs nxt where l: "descend (pick_le (VInt i)) (bt_nodes t) (bt_root t) = Some j"
      "index_run (bt_nodes t) j = Some (Leaf ks vs nxt)" "set ks \<subseteq> keys_of TInt"
    using rel_int(2) [OF assms(1), of i] by blast
  show ?thesis
    unfolding delete_int_def bt_delete_def rel_int(1) [OF assms(1)] l(1,2) Option.bind.simps node.case int_search(3) [OF l(3)] assms(2) key_kind.case
    by (cases "binary_search ks (VInt i)"; cases "leaf_remove (bt_nodes t) j (projr (binary_search ks (VInt i)))") (auto simp: Let_def)
qed

subsection \<open>Insert\<close>

abbreviation lift_up :: "(u64 \<times> nat) option \<Rightarrow> (val \<times> nat) option" where
  "lift_up \<equiv> map_option (\<lambda>(k, c). (VInt k, c))"

lemma int_up_spec:
  assumes "\<And>ns sep c. m = Some (ns, Some (sep, c)) \<Longrightarrow> sep \<in> keys_of TInt"
  shows "m = map_option (\<lambda>(ns, up). (ns, lift_up up)) (int_up m)"
proof (cases m)
  case (Some x)
  obtain ns up where x: "x = (ns, up)" by (cases x)
  show ?thesis
  proof (cases up)
    case (Some y)
    obtain sep c where y: "y = (sep, c)" by (cases y)
    then obtain k where "sep = VInt k" using assms [of ns sep c] \<open>m = Some x\<close> x Some by (auto simp: keys_of_int)
    then show ?thesis using \<open>m = Some x\<close> x Some y by (simp add: int_up_def)
  qed (simp add: \<open>m = Some x\<close> x int_up_def)
qed (simp add: int_up_def)

lemma vec_insert_set:
  assumes "vec_insert p x xs = Some ys"
  shows "set ys = insert x (set xs)"
proof -
  have "ys = take p xs @ x # drop p xs" using assms by (simp add: vec_insert_def split: if_splits)
  then show ?thesis using set_append [of "take p xs" "drop p xs"] by simp
qed

lemma leaf_put_up:
  assumes "leaf_put ns i p key rid = Some (ns', Some (sep, c))" and "ns ! i = Leaf ks vs nxt" and "i < length ns"
  shows "sep \<in> insert key (set ks)"
proof -
  obtain ks' where ks': "vec_insert p key ks = Some ks'" "sep = ks' ! (length ks' div 2)" "length ks' > ORDER"
    using assms by (auto simp: leaf_put_def index_run_def bind_eq_Some_conv Let_def split: if_splits)
  then have "sep \<in> set ks'" by (simp add: ORDER_def)
  then show ?thesis using vec_insert_set [OF ks'(1)] by simp
qed

lemma internal_put_up:
  assumes "internal_put ns i p key child = Some (ns', Some (sep, c))" and "ns ! i = Internal ks cs" and "i < length ns"
  shows "sep \<in> insert key (set ks)"
proof -
  obtain ks' where ks': "vec_insert p key ks = Some ks'" "sep = ks' ! (length ks' div 2)" "length ks' > ORDER"
    using assms by (auto simp: internal_put_def index_run_def bind_eq_Some_conv Let_def split: if_splits)
  then have "sep \<in> set ks'" by (simp add: ORDER_def)
  then show ?thesis using vec_insert_set [OF ks'(1)] by simp
qed

lemma leaf_put_int:
  assumes "set ks \<subseteq> keys_of TInt" and "ns ! j = Leaf ks vs nxt" and "j < length ns"
  shows "leaf_put ns j p (VInt i) rid = map_option (\<lambda>(ns, up). (ns, lift_up up)) (int_up (leaf_put ns j p (VInt i) rid))"
proof (rule int_up_spec)
  fix ns' sep c
  assume "leaf_put ns j p (VInt i) rid = Some (ns', Some (sep, c))"
  from leaf_put_up [OF this assms(2,3)] show "sep \<in> keys_of TInt" using assms(1) by (auto simp: keys_of_int subset_iff)
qed

lemma internal_put_int:
  assumes "set ks \<subseteq> keys_of TInt" and "ns ! j = Internal ks cs" and "j < length ns"
  shows "internal_put ns j p (VInt i) child
     = map_option (\<lambda>(ns, up). (ns, lift_up up)) (int_up (internal_put ns j p (VInt i) child))"
proof (rule int_up_spec)
  fix ns' sep c
  assume "internal_put ns j p (VInt i) child = Some (ns', Some (sep, c))"
  from internal_put_up [OF this assms(2,3)] show "sep \<in> keys_of TInt" using assms(1) by (auto simp: keys_of_int subset_iff)
qed

lemma bind_int_up:
  assumes "m = map_option (\<lambda>(ns, up). (ns, lift_up up)) (int_up m)"
  shows "Option.bind m (\<lambda>(ns, up). Some (ns, up, r))
     = map_option (\<lambda>(ns', up, replaced). (ns', lift_up up, replaced)) (Option.bind (int_up m) (\<lambda>(ns, up). Some (ns, up, r)))"
proof (cases "int_up m")
  case None
  then have "m = None" using assms by simp
  then show ?thesis using None by simp
next
  case (Some x)
  then have "m = Some (fst x, lift_up (snd x))" using assms by (cases x) simp
  then show ?thesis unfolding Some by (cases x) simp
qed

text \<open>On a tree with integer keys the two recursions agree.\<close>

lemma insert_recursive_int_eq:
  assumes "ordered (keys_of TInt) lo t hi" and "repr ns t" and "distinct (ids t)" and "bal h t" and "fits t"
    and "bound_ok (keys_of TInt) lo" and "bound_ok (keys_of TInt) hi" and "lo_le lo (VInt i)" and "lt_hi (VInt i) hi"
  shows "insert_recursive ns (bt_id t) (VInt i) rid True
     = map_option (\<lambda>(ns', up, replaced). (ns', lift_up up, replaced)) (insert_recursive_int ns (bt_id t) i rid)"
  using assms
proof (induction t arbitrary: lo hi h)
  case (TLeaf j ks vs nxt)
  have ks: "set ks \<subseteq> keys_of TInt" and n: "j < length ns" "ns ! j = Leaf ks vs nxt" "length vs = length ks"
    using TLeaf.prems(1,2) by auto
  show ?case
    unfolding bt_id.simps insert_recursive.simps [of ns j "VInt i" rid True] insert_recursive_int.simps [of ns j i rid]
    using n(1,2) bind_int_up [OF leaf_put_int [OF ks n(2,1), of "pick_lt (VInt i) ks" i rid], of False]
    by (auto simp: index_run_def int_search(2) [OF ks] value_eq_iff Let_def)
next
  case (TNode j ks ts)
  have key: "VInt i \<in> keys_of TInt" by (simp add: keys_of_int)
  obtain h' where h: "h = Suc h'" using TNode.prems(4) by (cases h) auto
  have ts: "\<forall>t \<in> set ts. repr ns t" using TNode.prems(2) by simp
  have ks: "set ks \<subseteq> keys_of TInt" using ordered_all_keys(1) [OF TNode.prems(1)] by simp
  obtain ks1 ks2 ts1 c ts2 where split: "ks = ks1 @ ks2" "ts = ts1 @ c # ts2" "length ts1 = length ks1" "pick_le (VInt i) ks = length ks1"
    and b: "bound_ok (keys_of TInt) (lo_at lo ks1)" "bound_ok (keys_of TInt) (hi_at ks2 hi)" "ordered (keys_of TInt) (lo_at lo ks1) c (hi_at ks2 hi)"
      "lo_le (lo_at lo ks1) (VInt i)" "lt_hi (VInt i) (hi_at ks2 hi)"
    by (rule typed.node_at_key [OF TNode.prems(1) [unfolded ordered.simps] ts TNode.prems(6,7) key TNode.prems(8,9)])
  have cp: "repr ns c" "distinct (ids c)" "bal h' c" "fits c" "c \<in> set ts"
    using TNode.prems(2-5) split(2) h by simp_all
  note ih = TNode.IH [OF cp(5) b(3) cp(1-4) b(1,2,4,5)]
  obtain ns' up sp us where ins: "insert_recursive ns (bt_id c) (VInt i) rid True = Some (ns', up, VInt i \<in> set (map fst (entries c)))"
      and pc: "placed (keys_of TInt) h' (lo_at lo ks1) (hi_at ks2 hi) ns c (kput (VInt i) rid (entries c)) ns' up sp us"
    using typed.insert_recursive_placed [OF b(3) cp(1-4) b(1,2) key b(4,5)] by blast
  note ready = typed.child_ready [OF refl TNode.prems(1-3) TNode.prems(4) [unfolded h] TNode.prems(5) split(1-3) TNode.prems(7) pc]
  obtain r up' where int: "insert_recursive_int ns (bt_id c) i rid = Some (ns', up', r)" "up = lift_up up'" "VInt i \<in> set (map fst (entries c)) \<longleftrightarrow> r"
    using ih ins by (cases "insert_recursive_int ns (bt_id c) i rid") auto
  have i: "index_run ns j = Some (Internal ks (map bt_id ts))" "index_run (map bt_id ts) (length ks1) = Some (bt_id c)" "j < length ns'"
    using TNode.prems(2) split(2,3) placedD(1) [OF pc] by (simp_all add: index_run_def nth_append)
  show ?case
    unfolding bt_id.simps insert_recursive.simps [of ns j "VInt i" rid True] insert_recursive_int.simps [of ns j i rid]
      i(1,2) Option.bind.simps node.case Let_def int_search(1) [OF ks] split(4) ins int(1) prod.case int(2,3)
    using bind_int_up [OF internal_put_int [OF ks ready(3) i(3)]]
    by (cases up') auto
qed

lemma insert_int_eq:
  assumes "bt_rel (keys_of TInt) t ps" and "bt_kind t = Raw"
  shows "insert_int t i rid = bt_insert t (VInt i) rid"
proof -
  obtain tr h where tr: "tree_in (keys_of TInt) (bt_nodes t) (bt_root t) tr" "bal h tr"
    using assms(1) unfolding bt_rel_def tree_in_def by blast
  then have r: "bt_root t = bt_id tr" "ordered (keys_of TInt) None tr None" "repr (bt_nodes t) tr" "distinct (ids tr)" "fits tr"
    unfolding tree_in_def by blast+
  have "insert_recursive (bt_nodes t) (bt_root t) (VInt i) rid True
     = map_option (\<lambda>(ns', up, replaced). (ns', lift_up up, replaced)) (insert_recursive_int (bt_nodes t) (bt_root t) i rid)"
    unfolding r(1) by (rule insert_recursive_int_eq [OF r(2-4) tr(2) r(5)]) simp_all
  then show ?thesis
    unfolding insert_int_def bt_insert_def assms(2) key_kind.case
    by (cases "insert_recursive_int (bt_nodes t) (bt_root t) i rid") (auto simp: Let_def)
qed

subsection \<open>Batch delete\<close>

text \<open>What a leaf keeps when the keys of \<open>ds\<close> are deleted.\<close>

definition kept :: "u64 list \<Rightarrow> val list \<Rightarrow> row_id list \<Rightarrow> val list \<times> row_id list" where
  "kept ds ks vs = (let ps = filter (\<lambda>p. fst p \<notin> VInt ` set ds) (zip ks vs) in (map fst ps, map snd ps))"

definition ascending :: "u64 list \<Rightarrow> bool" where
  "ascending ds \<longleftrightarrow> sorted_wrt (\<lambda>a b. i64_cmp a b \<noteq> Greater) ds"

lemma kept_cong:
  assumes "\<forall>k \<in> set ks. k \<in> VInt ` set ds \<longleftrightarrow> k \<in> VInt ` set ds'"
  shows "kept ds ks vs = kept ds' ks vs"
proof -
  have "filter (\<lambda>p. fst p \<notin> VInt ` set ds) (zip ks vs) = filter (\<lambda>p. fst p \<notin> VInt ` set ds') (zip ks vs)"
  proof (rule filter_cong [OF refl])
    fix p
    assume "p \<in> set (zip ks vs)"
    then have "fst p \<in> set ks" by (metis prod.collapse set_zip_leftD)
    then show "fst p \<notin> VInt ` set ds \<longleftrightarrow> fst p \<notin> VInt ` set ds'" using assms by blast
  qed
  then show ?thesis by (simp add: kept_def)
qed

lemma vcmp_int: "vcmp (VInt a) (VInt b) = i64_cmp a b"
  by (simp add: vcmp_def value_cmp_def)

lemma dropWhile_ascending:
  assumes "ascending ds"
  shows "ascending (dropWhile (\<lambda>d. i64_cmp d i = Less) ds)"
    and "i64_cmp i j \<noteq> Greater \<Longrightarrow> j \<in> set (dropWhile (\<lambda>d. i64_cmp d i = Less) ds) \<longleftrightarrow> j \<in> set ds"
    and "dropWhile (\<lambda>d. i64_cmp d i = Less) ds \<noteq> [] \<and> hd (dropWhile (\<lambda>d. i64_cmp d i = Less) ds) = i \<longleftrightarrow> i \<in> set ds"
proof -
  show "ascending (dropWhile (\<lambda>d. i64_cmp d i = Less) ds)"
    using assms by (induction ds) (auto simp: ascending_def)
  show "i64_cmp i j \<noteq> Greater \<Longrightarrow> j \<in> set (dropWhile (\<lambda>d. i64_cmp d i = Less) ds) \<longleftrightarrow> j \<in> set ds"
    using i64_order.cmp_flip [of j i] by (induction ds) auto
  show "dropWhile (\<lambda>d. i64_cmp d i = Less) ds \<noteq> [] \<and> hd (dropWhile (\<lambda>d. i64_cmp d i = Less) ds) = i \<longleftrightarrow> i \<in> set ds"
    using assms
  proof (induction ds)
    case (Cons d ds)
    show ?case
    proof (cases "i64_cmp d i")
      case Less
      then show ?thesis using Cons i64_order.cmp_refl [of i] by (auto simp: ascending_def)
    next
      case Equal
      then show ?thesis using i64_order.cmp_Equal [of d i] by simp
    next
      case Greater
      then have "i64_cmp i d = Less" using i64_order.cmp_flip [of i d] by (simp add: flip_iff)
      then have "i64_cmp i e = Less" if "e \<in> set ds" for e
        using Cons.prems that i64_order.cmp_less_le_trans [of i d e] by (simp add: ascending_def)
      then have "i \<notin> set (d # ds)" using Greater i64_order.cmp_refl [of i] by force
      then show ?thesis using Greater by auto
    qed
  qed simp
qed

lemma kept_simps:
  "kept ds [] [] = ([], [])"
  "kept ds (k # ks) (v # vs) = (if k \<in> VInt ` set ds then kept ds ks vs else (k # fst (kept ds ks vs), v # snd (kept ds ks vs)))"
  by (simp_all add: kept_def)

lemma kept_length: "length (fst (kept ds ks vs)) \<le> length ks" "length (snd (kept ds ks vs)) = length (fst (kept ds ks vs))"
proof -
  have "length (filter P (zip ks vs)) \<le> length ks" for P by (rule order_trans [OF length_filter_le]) simp
  then show "length (fst (kept ds ks vs)) \<le> length ks" by (simp add: kept_def Let_def)
qed (simp add: kept_def Let_def)

lemma compact_leaf_spec:
  assumes "sorted_wrt (\<lambda>a b. vcmp a b = Less) ks" and "set ks \<subseteq> keys_of TInt" and "length vs = length ks" and "ascending ds"
  shows "\<exists>ds'. compact_leaf ds ks vs = (fst (kept ds ks vs), snd (kept ds ks vs), ds', length ks - length (fst (kept ds ks vs))) \<and>
     ascending ds' \<and> (\<forall>j. (\<forall>k \<in> set ks. vcmp k (VInt j) = Less) \<longrightarrow> (j \<in> set ds' \<longleftrightarrow> j \<in> set ds))"
  using assms
proof (induction ks arbitrary: vs ds)
  case Nil
  then show ?case by (simp add: kept_simps)
next
  case (Cons k ks)
  obtain v ws where vs: "vs = v # ws" using Cons.prems(3) by (cases vs) auto
  obtain i where k: "k = VInt i" using Cons.prems(2) by (auto simp: keys_of_int)
  have later: "\<forall>l \<in> set ks. vcmp (VInt i) l = Less" and rest: "sorted_wrt (\<lambda>a b. vcmp a b = Less) ks" "set ks \<subseteq> keys_of TInt" "length ws = length ks"
    using Cons.prems unfolding k vs by auto
  define c where "c = dropWhile (\<lambda>d. i64_cmp d i = Less) ds"
  note c = dropWhile_ascending [OF Cons.prems(4), of i, folded c_def]
  define e where "e = (if i \<in> set ds then tl c else c)"
  have e: "ascending e" using c(1) unfolding e_def ascending_def by (cases c) auto
  have mem: "j \<in> set e \<longleftrightarrow> j \<in> set ds" if j: "i64_cmp i j = Less" for j
  proof -
    have "j \<noteq> i" using j i64_order.cmp_refl [of i] by auto
    then show ?thesis using c(2) [of j] c(3) j unfolding e_def by (cases c) auto
  qed
  have "\<forall>l \<in> set ks. l \<in> VInt ` set e \<longleftrightarrow> l \<in> VInt ` set ds"
  proof
    fix l
    assume "l \<in> set ks"
    moreover from this obtain j where "l = VInt j" using rest(2) keys_of_int [of l] by blast
    ultimately show "l \<in> VInt ` set e \<longleftrightarrow> l \<in> VInt ` set ds" using mem [of j] later by (auto simp: vcmp_int)
  qed
  then have ke: "kept e ks ws = kept ds ks ws" by (rule kept_cong)
  obtain ds' where r: "compact_leaf e ks ws = (fst (kept ds ks ws), snd (kept ds ks ws), ds', length ks - length (fst (kept ds ks ws)))"
      "ascending ds'" "\<forall>j. (\<forall>k \<in> set ks. vcmp k (VInt j) = Less) \<longrightarrow> (j \<in> set ds' \<longleftrightarrow> j \<in> set e)"
    using Cons.IH [OF rest e] unfolding ke by blast
  have "compact_leaf ds (k # ks) vs = (fst (kept ds (k # ks) vs), snd (kept ds (k # ks) vs), ds', length (k # ks) - length (fst (kept ds (k # ks) vs)))"
    using r(1) c(3) kept_length(1) [of ds ks ws]
    by (cases "i \<in> set ds") (auto simp: k vs kept_simps e_def c_def [symmetric] Let_def Suc_diff_le)
  moreover have "\<forall>j. (\<forall>k \<in> set (k # ks). vcmp k (VInt j) = Less) \<longrightarrow> (j \<in> set ds' \<longleftrightarrow> j \<in> set ds)"
    using r(3) mem by (auto simp: k vcmp_int)
  ultimately show ?case using r(2) by blast
qed

end
