(* ===== verification/Btree_Batch.thy ===== *)
theory Btree_Batch
  imports Btree_Int
begin

text \<open>
  The batch delete of the integer fast path: one pass over the leaf chain removes the keys of an ascending
  list. The pass is described leaf by leaf and then for the whole tree, and compared with deleting the
  keys one at a time.
\<close>

lemma kept_nil: "length vs = length ks \<Longrightarrow> kept [] ks vs = (ks, vs)"
  by (simp add: kept_def)

definition removed :: "u64 list \<Rightarrow> (val \<times> row_id) list \<Rightarrow> nat" where
  "removed ds ps = length (filter (\<lambda>p. fst p \<in> VInt ` set ds) ps)"

lemma removed_append: "removed ds (ps @ qs) = removed ds ps + removed ds qs"
  by (simp add: removed_def)

lemma removed_kept: "length vs = length ks \<Longrightarrow> length ks - length (fst (kept ds ks vs)) = removed ds (zip ks vs)"
  using sum_length_filter_compl [of "\<lambda>p. fst p \<in> VInt ` set ds" "zip ks vs"] by (simp add: kept_def removed_def Let_def)

lemma removed_cong:
  "\<forall>k \<in> set (map fst ps). k \<in> VInt ` set ds \<longleftrightarrow> k \<in> VInt ` set ds' \<Longrightarrow> removed ds ps = removed ds' ps"
  unfolding removed_def by (intro arg_cong [of _ _ length] filter_cong) auto

definition leaf_ok :: "node list \<Rightarrow> leaf \<Rightarrow> bool" where
  "leaf_ok ns l \<longleftrightarrow> (case l of (i, ks, vs, nxt) \<Rightarrow> i < length ns \<and> ns ! i = Leaf ks vs nxt \<and> length vs = length ks)"

definition leaf_kept :: "u64 list \<Rightarrow> node list \<Rightarrow> leaf \<Rightarrow> bool" where
  "leaf_kept ds ns l \<longleftrightarrow> (case l of (i, ks, vs, nxt) \<Rightarrow> ns ! i = Leaf (fst (kept ds ks vs)) (snd (kept ds ks vs)) nxt)"

lemma leaf_kept_cong:
  "\<forall>k \<in> set (map fst (leaf_pairs l)). k \<in> VInt ` set ds \<longleftrightarrow> k \<in> VInt ` set ds' \<Longrightarrow> leaf_ok ns l \<Longrightarrow> leaf_kept ds ns' l \<longleftrightarrow> leaf_kept ds' ns' l"
  using kept_cong [of "fst (snd l)" ds ds' "fst (snd (snd l))"] by (cases l) (simp add: leaf_kept_def leaf_ok_def del: set_map)

lemma compact_step:
  assumes "leaf_ok ns (i, ks, vs, nxt)" and "between (keys_of TInt) None ks None" and "ascending ds" and "ds \<noteq> []"
  shows "\<exists>ds'. compact_leaves ns (Some i) ds n
        = compact_leaves (ns[i := Leaf (fst (kept ds ks vs)) (snd (kept ds ks vs)) nxt]) nxt ds' (n + removed ds (zip ks vs)) \<and>
     ascending ds' \<and> (\<forall>j. (\<forall>k \<in> set ks. vcmp k (VInt j) = Less) \<longrightarrow> (j \<in> set ds' \<longleftrightarrow> j \<in> set ds))"
proof -
  have n: "i < length ns" "ns ! i = Leaf ks vs nxt" "length vs = length ks" using assms(1) by (simp_all add: leaf_ok_def)
  have ks: "sorted_wrt (\<lambda>a b. vcmp a b = Less) ks" "set ks \<subseteq> keys_of TInt" using assms(2) by (auto simp: between_def)
  obtain ds' where c: "compact_leaf ds ks vs = (fst (kept ds ks vs), snd (kept ds ks vs), ds', removed ds (zip ks vs))"
      "ascending ds'" "\<forall>j. (\<forall>k \<in> set ks. vcmp k (VInt j) = Less) \<longrightarrow> (j \<in> set ds' \<longleftrightarrow> j \<in> set ds)"
    using compact_leaf_spec [OF ks n(3) assms(3)] unfolding removed_kept [OF n(3)] by blast
  then show ?thesis
    using n assms(4) by (intro exI [of _ ds']) (simp add: compact_leaves.simps [of ns "Some i"] index_run_def)
qed

lemma compact_leaves_nil:
  assumes "\<forall>m \<in> set (l # ls). leaf_ok ns m"
  shows "\<exists>ns'. compact_leaves ns (Some (fst l)) [] n = Some (ns', n + removed [] (pairs_of (l # ls))) \<and> length ns' = length ns \<and>
     (\<forall>j < length ns. j \<notin> fst ` set (l # ls) \<longrightarrow> ns' ! j = ns ! j) \<and> (\<forall>m \<in> set (l # ls). leaf_kept [] ns' m)"
proof -
  have "leaf_kept [] ns m" if "leaf_ok ns m" for m
    using that by (cases m) (auto simp: leaf_kept_def leaf_ok_def kept_nil)
  then show ?thesis
    using assms by (simp add: compact_leaves.simps [of ns "Some (fst l)"] removed_def)
qed

lemma compact_leaves_spec:
  assumes "chain (l # ls) None" and "\<forall>m \<in> set (l # ls). leaf_ok ns m" and "distinct (map fst (l # ls))"
    and "between (keys_of TInt) None (map fst (pairs_of (l # ls))) None" and "ascending ds"
  shows "\<exists>ns'. compact_leaves ns (Some (fst l)) ds n = Some (ns', n + removed ds (pairs_of (l # ls))) \<and> length ns' = length ns \<and>
     (\<forall>j < length ns. j \<notin> fst ` set (l # ls) \<longrightarrow> ns' ! j = ns ! j) \<and> (\<forall>m \<in> set (l # ls). leaf_kept ds ns' m)"
  using assms
proof (induction ls arbitrary: l ns ds n)
  case Nil
  obtain i ks vs nxt where l: "l = (i, ks, vs, nxt)" by (cases l)
  have nxt: "nxt = None" using Nil.prems(1) unfolding l by simp
  have ok: "leaf_ok ns (i, ks, vs, nxt)" using Nil.prems(2) unfolding l by simp
  have n: "i < length ns" "length vs = length ks" using ok by (simp_all add: leaf_ok_def)
  show ?case
  proof (cases "ds = []")
    case True
    then show ?thesis using compact_leaves_nil [OF Nil.prems(2)] by blast
  next
    case False
    have "between (keys_of TInt) None ks None" using Nil.prems(4) n(2) unfolding l by simp
    then obtain ds' where "compact_leaves ns (Some i) ds n
        = compact_leaves (ns[i := Leaf (fst (kept ds ks vs)) (snd (kept ds ks vs)) nxt]) nxt ds' (n + removed ds (zip ks vs))"
      using compact_step [OF ok _ Nil.prems(5) False] by blast
    then show ?thesis
      using n unfolding nxt l by (simp add: compact_leaves.simps [of _ None] leaf_kept_def)
  qed
next
  case (Cons m ls)
  obtain i ks vs nxt where l: "l = (i, ks, vs, nxt)" by (cases l)
  have nxt: "nxt = Some (fst m)" and ch: "chain (m # ls) None" using Cons.prems(1) unfolding l by simp_all
  have ok: "leaf_ok ns (i, ks, vs, nxt)" using Cons.prems(2) unfolding l by simp
  have n: "i < length ns" "length vs = length ks" using ok by (simp_all add: leaf_ok_def)
  have b: "between (keys_of TInt) None ks None" "between (keys_of TInt) None (map fst (pairs_of (m # ls))) None"
    and later: "\<forall>k \<in> set ks. \<forall>k' \<in> set (map fst (pairs_of (m # ls))). vcmp k k' = Less"
    using Cons.prems(4) n(2) unfolding l by (auto simp: between_def sorted_wrt_append)
  show ?case
  proof (cases "ds = []")
    case True
    then show ?thesis using compact_leaves_nil [OF Cons.prems(2)] by blast
  next
    case False
    define ns1 where "ns1 = ns[i := Leaf (fst (kept ds ks vs)) (snd (kept ds ks vs)) nxt]"
    obtain ds' where c: "compact_leaves ns (Some i) ds n = compact_leaves ns1 nxt ds' (n + removed ds (zip ks vs))" "ascending ds'"
        "\<forall>j. (\<forall>k \<in> set ks. vcmp k (VInt j) = Less) \<longrightarrow> (j \<in> set ds' \<longleftrightarrow> j \<in> set ds)"
      using compact_step [OF ok b(1) Cons.prems(5) False] unfolding ns1_def by blast
    have fresh: "i \<notin> fst ` set (m # ls)" and dm: "distinct (map fst (m # ls))" using Cons.prems(3) unfolding l by simp_all
    have ok1: "\<forall>x \<in> set (m # ls). leaf_ok ns1 x"
    proof
      fix x
      assume x: "x \<in> set (m # ls)"
      then have "fst x \<noteq> i" using fresh by blast
      then show "leaf_ok ns1 x" using Cons.prems(2) x unfolding ns1_def by (cases x) (auto simp: leaf_ok_def)
    qed
    have same: "k \<in> VInt ` set ds' \<longleftrightarrow> k \<in> VInt ` set ds" if k: "k \<in> set (map fst (pairs_of (m # ls)))" for k
    proof -
      obtain j where j: "k = VInt j" using b(2) k keys_of_int [of k] unfolding between_def by blast
      then have "\<forall>k' \<in> set ks. vcmp k' (VInt j) = Less" using later k by blast
      then have "j \<in> set ds' \<longleftrightarrow> j \<in> set ds" using c(3) by blast
      then show ?thesis unfolding j by auto
    qed
    obtain ns' where r: "compact_leaves ns1 (Some (fst m)) ds' (n + removed ds (zip ks vs))
          = Some (ns', n + removed ds (zip ks vs) + removed ds' (pairs_of (m # ls)))" "length ns' = length ns1"
        "\<forall>j < length ns1. j \<notin> fst ` set (m # ls) \<longrightarrow> ns' ! j = ns1 ! j" "\<forall>x \<in> set (m # ls). leaf_kept ds' ns' x"
      using Cons.IH [OF ch ok1 dm b(2) c(2), of "n + removed ds (zip ks vs)"] by blast
    have "removed ds' (pairs_of (m # ls)) = removed ds (pairs_of (m # ls))" using same by (intro removed_cong) blast
    moreover have "\<forall>x \<in> set (m # ls). leaf_kept ds ns' x"
    proof
      fix x
      assume x: "x \<in> set (m # ls)"
      then have "set (leaf_pairs x) \<subseteq> set (pairs_of (m # ls))" by (auto simp: pairs_of_def)
      then have "set (map fst (leaf_pairs x)) \<subseteq> set (map fst (pairs_of (m # ls)))" by (auto simp del: pairs_of_simps)
      then have "\<forall>k \<in> set (map fst (leaf_pairs x)). k \<in> VInt ` set ds' \<longleftrightarrow> k \<in> VInt ` set ds"
        using same by blast
      then show "leaf_kept ds ns' x" using leaf_kept_cong [of x ds' ds ns1 ns'] ok1 r(4) x by blast
    qed
    moreover have "leaf_kept ds ns' l"
      using r(3) fresh n(1) unfolding l ns1_def by (simp add: leaf_kept_def)
    ultimately show ?thesis
      using c(1) r(1-3) n(2) unfolding l nxt by (auto simp: ns1_def removed_append add.assoc)
  qed
qed

lemma kept_subseq: "length vs = length ks \<Longrightarrow> subseq (fst (kept ds ks vs)) ks"
  by (induction vs ks rule: list_induct2) (auto simp: kept_simps)

lemma kept_zip: "zip (fst (kept ds ks vs)) (snd (kept ds ks vs)) = filter (\<lambda>p. fst p \<notin> VInt ` set ds) (zip ks vs)"
  by (simp add: kept_def Let_def zip_map_fst_snd)

lemma pairs_of_kept:
  assumes "\<And>i ks vs nxt. (i, ks, vs, nxt) \<in> set ls \<Longrightarrow> f i = kept ds ks vs"
  shows "pairs_of (map (upd_leaf f) ls) = filter (\<lambda>p. fst p \<notin> VInt ` set ds) (pairs_of ls)"
  using assms
proof (induction ls)
  case (Cons l ls)
  obtain i ks vs nxt where l: "l = (i, ks, vs, nxt)" by (cases l)
  then have "f i = kept ds ks vs" using Cons.prems [of i ks vs nxt] by simp
  moreover have "pairs_of (map (upd_leaf f) ls) = filter (\<lambda>p. fst p \<notin> VInt ` set ds) (pairs_of ls)"
    using Cons.prems by (intro Cons.IH) (meson list.set_intros(2))
  ultimately show ?case unfolding l by (simp add: kept_zip)
qed simp

lemma tree_in_leaf_ok:
  assumes "tree_in K ns root tr"
  shows "\<forall>l \<in> set (leaves tr). leaf_ok ns l"
proof
  fix l
  assume "l \<in> set (leaves tr)"
  then show "leaf_ok ns l"
    using assms repr_leaf [of ns tr "fst l" "fst (snd l)" "fst (snd (snd l))" "snd (snd (snd l))"]
    unfolding tree_in_def leaf_ok_def by (simp add: split_beta)
qed

lemma tree_in_kept:
  assumes t: "tree_in K ns root tr" and ls: "\<forall>l \<in> set (leaves tr). leaf_kept ds ns' l" and len: "length ns' = length ns"
    and other: "\<forall>j < length ns. j \<notin> fst ` set (leaves tr) \<longrightarrow> ns' ! j = ns ! j"
  shows "\<exists>tr'. tree_in K ns' root tr' \<and> entries tr' = filter (\<lambda>p. fst p \<notin> VInt ` set ds) (entries tr)"
proof -
  define f where "f j = (case ns ! j of Leaf ks vs nxt \<Rightarrow> kept ds ks vs | _ \<Rightarrow> ([], []))" for j
  note ok = tree_in_leaf_ok [OF t]
  have f: "f i = kept ds ks vs" if "(i, ks, vs, nxt) \<in> set (leaves tr)" for i ks vs nxt
    using ok that by (auto simp: leaf_ok_def f_def)
  have "shrinks f (leaves tr)"
    unfolding shrinks_def
  proof
    fix l
    assume "l \<in> set (leaves tr)"
    then show "case l of (i, ks, vs, nxt) \<Rightarrow> subseq (fst (f i)) ks \<and> length (snd (f i)) = length (fst (f i))"
      using f [of "fst l" "fst (snd l)" "fst (snd (snd l))" "snd (snd (snd l))"] ok kept_length(2) kept_subseq
      by (auto simp: leaf_ok_def split_beta)
  qed
  moreover have "leaves_set f ns (leaves tr) ns'"
    unfolding leaves_set_def
  proof (intro conjI allI impI ballI)
    fix l
    assume "l \<in> set (leaves tr)"
    then show "case l of (i, ks, vs, nxt) \<Rightarrow> i < length ns' \<and> ns' ! i = Leaf (fst (f i)) (snd (f i)) nxt"
      using f [of "fst l" "fst (snd l)" "fst (snd (snd l))" "snd (snd (snd l))"] ls ok len
      by (auto simp: leaf_ok_def leaf_kept_def split_beta)
  next
    fix j ks cs
    assume j: "j < length ns" "ns ! j = Internal ks cs"
    then have "j \<notin> fst ` set (leaves tr)" using ok by (auto simp: leaf_ok_def)
    then show "j < length ns'" "ns' ! j = Internal ks cs" using j len other by simp_all
  qed
  ultimately have "tree_in K ns' root (tmap f tr)" by (rule tree_in_tmap [OF t])
  moreover have "entries (tmap f tr) = filter (\<lambda>p. fst p \<notin> VInt ` set ds) (entries tr)"
    unfolding entries_def tmap_leaves by (rule pairs_of_kept [OF f])
  ultimately show ?thesis by blast
qed

lemma delete_many_int_spec:
  assumes st: "bt_state (keys_of TInt) t ps" and raw: "bt_kind t = Raw" and ds: "ascending ds"
  shows "\<exists>t'. delete_many_int t ds = Some (t', removed ds ps) \<and> bt_kind t' = Raw \<and> bt_empty_rids t' = bt_empty_rids t \<and>
     bt_state (keys_of TInt) t' (filter (\<lambda>p. fst p \<notin> VInt ` set ds) ps)"
proof (cases "ds = []")
  case True
  then show ?thesis using assms by (simp add: delete_many_int_def removed_def)
next
  case False
  have rel: "bt_rel (keys_of TInt) t ps" and n: "bt_total t = length ps" "bt_distinct t = length ps"
    using st raw by (auto simp: bt_state_def distinct_of_def)
  obtain tr pre i ks vs nxt post where l: "tree_in (keys_of TInt) (bt_nodes t) (bt_root t) tr" "leaves tr = pre @ (i, ks, vs, nxt) # post"
      "ps = pairs_of pre @ zip ks vs @ pairs_of post" "descend pick_first (bt_nodes t) (bt_root t) = Some i"
      "\<forall>k \<in> set (map fst (pairs_of pre)). False"
    by (rule typed.leaf_of [OF rel typed.picks_first])
  let ?rest = "(i, ks, vs, nxt) # post"
  have ok: "\<forall>m \<in> set (leaves tr). leaf_ok (bt_nodes t) m" by (rule tree_in_leaf_ok [OF l(1)])
  have d: "distinct (map fst (leaves tr))" using l(1) distinct_leaves unfolding tree_in_def by blast
  have pre: "pairs_of pre = []" using l(5) by (cases "pairs_of pre") auto
  have c: "chain ?rest None" "\<forall>m \<in> set ?rest. leaf_ok (bt_nodes t) m" "distinct (map fst ?rest)"
      "between (keys_of TInt) None (map fst (pairs_of ?rest)) None"
    using l(1-3) chain_append [of pre "(i, ks, vs, nxt)" post None] ok d typed.rel_between [OF rel] pre
    unfolding tree_in_def by auto
  obtain ns' where r: "compact_leaves (bt_nodes t) (Some i) ds 0 = Some (ns', removed ds ps)" "length ns' = length (bt_nodes t)"
      "\<forall>j < length (bt_nodes t). j \<notin> fst ` set ?rest \<longrightarrow> ns' ! j = bt_nodes t ! j" "\<forall>m \<in> set ?rest. leaf_kept ds ns' m"
    using compact_leaves_spec [OF c ds, of 0] l(3) pre by auto
  have "leaf_kept ds ns' m" if m: "m \<in> set pre" for m
  proof -
    obtain j ks' vs' nxt' where mj: "m = (j, ks', vs', nxt')" by (cases m)
    have o: "j < length (bt_nodes t)" "bt_nodes t ! j = Leaf ks' vs' nxt'" "length vs' = length ks'"
    proof -
      have "leaf_ok (bt_nodes t) (j, ks', vs', nxt')" using ok m unfolding l(2) mj by simp
      then show "j < length (bt_nodes t)" "bt_nodes t ! j = Leaf ks' vs' nxt'" "length vs' = length ks'"
        by (simp_all add: leaf_ok_def)
    qed
    have "leaf_pairs m = []" using pre m by (auto simp: pairs_of_def)
    then have "ks' = []" "vs' = []" using o(3) unfolding mj by (cases ks'; cases vs'; simp)+
    moreover have "j \<notin> fst ` set ?rest" using d m unfolding l(2) mj by (force simp: image_iff)
    ultimately show ?thesis using r(3) o unfolding mj by (simp add: leaf_kept_def kept_simps)
  qed
  then have "\<forall>m \<in> set (leaves tr). leaf_kept ds ns' m" using r(4) unfolding l(2) by auto
  moreover have "\<forall>j < length (bt_nodes t). j \<notin> fst ` set (leaves tr) \<longrightarrow> ns' ! j = bt_nodes t ! j"
    using r(3) unfolding l(2) by auto
  ultimately have "bt_rel (keys_of TInt) (t\<lparr>bt_nodes := ns'\<rparr>) (filter (\<lambda>p. fst p \<notin> VInt ` set ds) ps)"
    using tree_in_kept [OF l(1) _ r(2)] l(2,3) unfolding bt_rel_def by (simp add: entries_def)
  moreover have "length ps - removed ds ps = length (filter (\<lambda>p. fst p \<notin> VInt ` set ds) ps)"
    using sum_length_filter_compl [of "\<lambda>p. fst p \<in> VInt ` set ds" ps] by (simp add: removed_def)
  ultimately show ?thesis
    unfolding delete_many_int_def using False l(4) r(1) n raw by (simp add: bt_state_def distinct_of_def bt_rel_def)
qed

subsection \<open>The fast paths\<close>

lemma filter_keys_iterate:
  "foldl (\<lambda>qs d. filter (\<lambda>p. fst p \<noteq> VInt d) qs) ps ds = filter (\<lambda>p. fst p \<notin> VInt ` set ds) ps"
  by (induction ds arbitrary: ps) (auto intro!: arg_cong [of _ _ "\<lambda>P. filter P _"])

lemma run_deletes:
  assumes "bt_state (keys_of TInt) t ps" and "bt_kind t = Raw"
  shows "\<exists>t'. run_index t (map (\<lambda>d. IDelete (VInt d)) ds) = Some t' \<and> bt_kind t' = Raw \<and> bt_empty_rids t' = bt_empty_rids t \<and>
     bt_state (keys_of TInt) t' (filter (\<lambda>p. fst p \<notin> VInt ` set ds) ps)"
  unfolding filter_keys_iterate [symmetric] using assms
proof (induction ds arbitrary: t ps)
  case (Cons d ds)
  have k: "VInt d \<in> keys_of TInt" by (simp add: keys_of_int)
  obtain t' where "bt_delete t (VInt d) = Some (t', VInt d \<in> set (map fst ps))" "bt_state (keys_of TInt) t' (filter (\<lambda>p. fst p \<noteq> VInt d) ps)"
      "bt_kind t' = bt_kind t" "bt_dirty t'" "bt_version t' = bt_version t" "bt_empty_rids t' = bt_empty_rids t"
    by (rule typed.bt_delete_spec [OF Cons.prems(1) k])
  then show ?case using Cons.IH [of t' "filter (\<lambda>p. fst p \<noteq> VInt d) ps"] Cons.prems(2) by auto
qed auto

text \<open>
  C37. On an index built from integer keys the specialised insert, lookup and delete compute exactly what
  the generic ones compute. The batch delete of an ascending list of keys returns, leaves the entries
  and statistics that deleting the keys one by one leaves, and counts what it removed.
\<close>

theorem int_fast_paths:
  assumes "\<forall>op \<in> set ops. op_key op \<in> keys_of TInt" and "run_index bt_create ops = Some t" and "ascending ds"
  shows "insert_int t i rid = bt_insert t (VInt i) rid \<and> lookup_int t i = bt_lookup t (VInt i) \<and>
     delete_int t i = bt_delete t (VInt i) \<and>
     (\<exists>t1 t2 n ps. delete_many_int t ds = Some (t1, n) \<and> run_index t (map (\<lambda>d. IDelete (VInt d)) ds) = Some t2 \<and>
        bt_rel (keys_of TInt) t1 ps \<and> bt_rel (keys_of TInt) t2 ps \<and>
        ordered_pairs t1 = ordered_pairs t2 \<and> bt_stats t1 = bt_stats t2 \<and> n + bt_total t1 = bt_total t)"
proof -
  have "bt_kind bt_create = Raw" by (simp add: bt_create_def)
  then obtain ps where t: "bt_state (keys_of TInt) t ps" "bt_kind t = Raw"
    using run_index_refines [OF bt_state_create _ assms(1)] assms(2) by auto
  then have rel: "bt_rel (keys_of TInt) t ps" by (simp add: bt_state_def)
  let ?qs = "filter (\<lambda>p. fst p \<notin> VInt ` set ds) ps"
  obtain t1 where t1: "delete_many_int t ds = Some (t1, removed ds ps)" "bt_kind t1 = Raw" "bt_empty_rids t1 = bt_empty_rids t"
      "bt_state (keys_of TInt) t1 ?qs"
    using delete_many_int_spec [OF t assms(3)] by blast
  obtain t2 where t2: "run_index t (map (\<lambda>d. IDelete (VInt d)) ds) = Some t2" "bt_kind t2 = Raw" "bt_empty_rids t2 = bt_empty_rids t"
      "bt_state (keys_of TInt) t2 ?qs"
    using run_deletes [OF t] by blast
  have "bt_rel (keys_of TInt) t1 ?qs" "bt_rel (keys_of TInt) t2 ?qs" using t1(4) t2(4) by (simp_all add: bt_state_def)
  moreover from this have "ordered_pairs t1 = ordered_pairs t2" by (simp add: typed.ordered_pairs_spec)
  moreover have "bt_stats t1 = bt_stats t2" using t1 t2 by (simp add: bt_stats_def bt_state_def)
  moreover have "removed ds ps + bt_total t1 = bt_total t"
    using t(1) t1(4) sum_length_filter_compl [of "\<lambda>p. fst p \<in> VInt ` set ds" ps] by (simp add: removed_def bt_state_def)
  ultimately show ?thesis
    using insert_int_eq [OF rel t(2)] lookup_int_eq [OF rel] delete_int_eq [OF rel t(2)] t1(1) t2(1) by blast
qed

theorem int_fast_paths_witness:
  "\<exists>t t1 n. run_index bt_create sample_ops = Some t \<and>
     insert_int t 5 \<lparr>rid_page = 1, rid_slot = 2\<rparr> = bt_insert t (VInt 5) \<lparr>rid_page = 1, rid_slot = 2\<rparr> \<and>
     lookup_int t 1 = bt_lookup t (VInt 1) \<and> delete_many_int t [1, 5] = Some (t1, n) \<and> n + bt_total t1 = bt_total t"
proof -
  have k: "\<forall>op \<in> set sample_ops. op_key op \<in> keys_of TInt" by (simp add: sample_ops_def keys_of_int)
  have "bt_kind bt_create = Raw" by (simp add: bt_create_def)
  then obtain t where t: "run_index bt_create sample_ops = Some t"
    using run_index_refines [OF bt_state_create _ k] by auto
  have a: "ascending [1, 5]" by (simp add: ascending_def i64_cmp_def cmp_of_def)
  show ?thesis
    using int_fast_paths [OF k t a, of 5 "\<lparr>rid_page = 1, rid_slot = 2\<rparr>"] int_fast_paths [OF k t a, of 1] t by blast
qed

end
