(* ===== verification/Composite_Key.thy ===== *)
theory Composite_Key
  imports Btree_Unique
begin

text \<open>
  The encoding of \<open>(value, row id)\<close> as one byte string: no value's encoding is a prefix of another's, and
  within a type whose encoding is not length-prefixed the byte order is the order of values, then of
  row ids.
\<close>

unbundle bit_operations_syntax

subsection \<open>Big-endian integers\<close>

lemma le_to_nat_append: "le_to_nat (as @ bs) = le_to_nat as + 256 ^ length as * le_to_nat bs"
  by (induction as) (simp_all add: algebra_simps)

lemma bytes_cmp_be:
  "length as = length bs \<Longrightarrow> bytes_cmp as bs = cmp_of (le_to_nat (rev as)) (le_to_nat (rev bs))"
proof (induction as bs rule: list_induct2)
  case (Cons a as b bs)
  let ?n = "256 ^ length bs :: nat" and ?x = "le_to_nat (rev as)" and ?y = "le_to_nat (rev bs)"
  have l: "?x < ?n" "?y < ?n" using le_to_nat_less [of "rev as"] le_to_nat_less [of "rev bs"] Cons.hyps by simp_all
  have lt: "x + ?n * u < y + ?n * v" if "u < v" "x < ?n" for x y u v
  proof -
    have "?n * u + ?n \<le> ?n * v" using mult_le_mono2 [of "Suc u" v ?n] that(1) by simp
    then show ?thesis using that(2) by linarith
  qed
  consider "a < b" | "b < a" | "a = b" by fastforce
  then show ?case
  proof cases
    case 1
    then show ?thesis using lt [of "unat a" "unat b" ?x ?y] l Cons.hyps by (simp add: le_to_nat_append cmp_of_def word_less_nat_alt)
  next
    case 2
    then show ?thesis
      using lt [of "unat b" "unat a" ?y ?x] l Cons.hyps by (simp add: le_to_nat_append cmp_of_def word_less_nat_alt)
  next
    case 3
    then show ?thesis using Cons.IH Cons.hyps by (simp add: le_to_nat_append cmp_of_def)
  qed
qed (simp add: cmp_of_def)

lemma length_u64_to_be [simp]: "length (u64_to_be w) = 8"
  by (simp add: u64_to_be_def)

lemma bytes_cmp_u64: "bytes_cmp (u64_to_be a) (u64_to_be b) = cmp_of (unat a) (unat b)"
proof -
  have "le_to_nat (u64_to_le w) = unat w" for w by (simp add: u64_to_le_def le_to_nat_to_le)
  then show ?thesis by (subst bytes_cmp_be) (simp_all add: u64_to_be_def)
qed

lemma u64_to_be_inject [simp]: "u64_to_be a = u64_to_be b \<longleftrightarrow> a = b"
  unfolding u64_to_be_def by (metis rev_rev_ident u64_from_to_le)

subsection \<open>Signed integers and floats\<close>

definition high :: u64 where
  "high = push_bit 63 1"

lemma bit_high: "bit high n \<longleftrightarrow> n = 63"
  by (auto simp only: high_def bit_push_bit_iff bit_1_iff possible_bit_word) simp

lemma unat_high: "unat high = 2 ^ 63"
  by (simp add: high_def push_bit_eq_mult)

lemma bit_63: "bit (w :: u64) 63 \<longleftrightarrow> 2 ^ 63 \<le> unat w"
proof -
  have "bit w 63 \<longleftrightarrow> odd (unat w div 2 ^ 63)"
    using bit_unsigned_iff [of w 63, where ?'a = nat] by (simp add: bit_iff_odd)
  moreover have "unat w div 2 ^ 63 = (if 2 ^ 63 \<le> unat w then 1 else 0)"
    using unat_u64_less [of w] by (simp add: div_nat_eqI)
  ultimately show ?thesis by (simp split: if_splits)
qed

lemma sint_unat: "sint (w :: u64) = (if 2 ^ 63 \<le> unat w then int (unat w) - 2 ^ 64 else int (unat w))"
proof -
  have "sint w = signed_take_bit 63 (uint w)" by (simp add: sint_uint)
  also have "\<dots> = uint w - 2 ^ 64 * of_bool (bit (uint w) 63)"
    using uint_lt2p [of w] by (simp add: signed_take_bit_eq_take_bit_minus take_bit_int_eq_self)
  also have "bit (uint w) 63 \<longleftrightarrow> bit w 63" by (simp add: bit_uint_iff)
  finally show ?thesis unfolding bit_63 by simp
qed

lemma xor_high:
  fixes w :: u64
  shows "unat (w XOR high) = (if 2 ^ 63 \<le> unat w then unat w - 2 ^ 63 else unat w + 2 ^ 63)"
proof -
  have add: "unat (v XOR high) = unat v + 2 ^ 63" if v: "\<not> bit v 63" for v :: u64
  proof -
    have "v + high = v OR high" using v by (intro disjunctive_add) (auto simp: bit_high)
    moreover have "v XOR high = v OR high" using v by (intro bit_eqI) (auto simp: bit_xor_iff bit_or_iff bit_high)
    moreover have "unat (v + high) = unat v + 2 ^ 63"
      using v unfolding bit_63 by (subst unat_plus_if') (simp add: unat_high)
    ultimately show ?thesis by simp
  qed
  show ?thesis
  proof (cases "bit w 63")
    case True
    then have "\<not> bit (w XOR high) 63" by (simp add: bit_xor_iff bit_high)
    from add [OF this] have "unat w = unat (w XOR high) + 2 ^ 63" by (simp add: xor.assoc)
    then show ?thesis using True unfolding bit_63 by simp
  next
    case False
    then show ?thesis using add [OF False] unfolding bit_63 by simp
  qed
qed

lemma sign_flip_unat: "int (unat (sign_flip w)) = sint w + 2 ^ 63"
  unfolding sign_flip_def high_def [symmetric] xor_high sint_unat by (auto simp: of_nat_diff)

lemma float_ordered_unat: "int (unat (float_ordered w)) = total_key w + 2 ^ 63"
proof -
  have "drop_bit 63 w = 1 \<longleftrightarrow> bit w 63"
  proof -
    have "drop_bit 63 w = of_bool (bit w 63)"
    proof (rule bit_eqI)
      fix n
      have "n = 0" if "bit w (63 + n)" using bit_imp_le_length [OF that] by simp
      then show "bit (drop_bit 63 w) n \<longleftrightarrow> bit (of_bool (bit w 63) :: u64) n"
        by (auto simp: bit_drop_bit_eq bit_of_bool_iff)
    qed
    then show ?thesis by simp
  qed
  moreover have "unat (NOT w) = 2 ^ 64 - 1 - unat w"
  proof -
    have "NOT w = - 1 - w" by (simp add: not_eq_complement)
    moreover have "unat (- 1 - w) = unat (- 1 :: u64) - unat w" by (rule unat_sub) simp
    moreover have "unat (- 1 :: u64) = 2 ^ 64 - 1" by (simp add: unsigned_minus_1_eq_mask mask_eq_exp_minus_1)
    ultimately show ?thesis by simp
  qed
  ultimately have "unat (float_ordered w) = (if 2 ^ 63 \<le> unat w then 2 ^ 64 - 1 - unat w else unat w + 2 ^ 63)"
    unfolding float_ordered_def sign_flip_def high_def [symmetric] by (simp add: bit_63 xor_high)
  moreover have arith: "int (if 2 ^ 63 \<le> n then 2 ^ 64 - 1 - n else n + 2 ^ 63)
      = (if n < 2 ^ 63 then int n else - int (n - 2 ^ 63) - 1) + 2 ^ 63" if "n < 18446744073709551616" for n
    using that by (auto simp: of_nat_diff)
  ultimately show ?thesis
    using arith [OF unat_u64_less [of w]] by (simp only: total_key_def)
qed

subsection \<open>Strings\<close>

lemma escaped_cmp: "bytes_cmp (encode_str_escaped a) (encode_str_escaped b) = bytes_cmp a b"
  by (induction a b rule: bytes_cmp.induct) (auto simp: word_gt_0)

lemma escaped_prefix: "prefix (encode_str_escaped a) (encode_str_escaped b) \<Longrightarrow> a = b"
  by (induction a b rule: bytes_cmp.induct) (auto split: if_splits)

subsection \<open>Values\<close>

text \<open>The values of a column: a UUID has 16 bytes and a length fits its \<open>u32\<close> field.\<close>

definition indexable :: "val \<Rightarrow> bool" where
  "indexable v \<longleftrightarrow>
     (case v of VUuid u \<Rightarrow> length u = 16 | VBytes b \<Rightarrow> length b < 2 ^ 32 | VJson b \<Rightarrow> length b < 2 ^ 32 | _ \<Rightarrow> True)"

lemma length_u32_to_be [simp]: "length (u32_to_be w) = 4"
  by (simp add: u32_to_be_def)

lemma u32_to_be_inject [simp]: "u32_to_be a = u32_to_be b \<longleftrightarrow> a = b"
  unfolding u32_to_be_def by (metis rev_rev_ident u32_from_to_le)

lemma prefix_eq: "prefix a b \<Longrightarrow> length a = length b \<Longrightarrow> a = b"
  by (auto simp: prefix_def)

lemma prefix_split: "prefix (a @ b) (c @ d) \<Longrightarrow> length a = length c \<Longrightarrow> a = c \<and> prefix b d"
  by (auto simp: prefix_def append_eq_append_conv2)

lemma sign_flip_inject: "sign_flip a = sign_flip b \<longleftrightarrow> a = b"
  by (metis sign_flip_unat add_right_cancel sint_inj)

lemma float_ordered_inject: "float_ordered a = float_ordered b \<longleftrightarrow> a = b"
  by (metis float_ordered_unat add_right_cancel total_key_eq_iff)

lemma length_prefixed:
  assumes "prefix (u32_to_be (word_of_nat (length a)) @ a) (u32_to_be (word_of_nat (length b)) @ b)"
    and "length a < 2 ^ 32" and "length b < 2 ^ 32"
  shows "a = b"
proof -
  have *: "u32_to_be (word_of_nat (length a)) = u32_to_be (word_of_nat (length b)) \<and> prefix a b"
    by (rule prefix_split [OF assms(1)]) simp
  then have "unat (word_of_nat (length a) :: u32) = unat (word_of_nat (length b) :: u32)"
    unfolding u32_to_be_inject by simp
  moreover have "unat (word_of_nat (length a) :: u32) = length a" "unat (word_of_nat (length b) :: u32) = length b"
    using assms(2,3) by simp_all
  ultimately have "length a = length b" by (simp only:)
  then show ?thesis using prefix_eq * by blast
qed

lemma tag_inject: "type_id_to_u8 a = type_id_to_u8 b \<longleftrightarrow> a = b"
  by (metis type_id_roundtrip option.inject)

lemma type_id_of_iff:
  "type_id_of v = TInt \<longleftrightarrow> (\<exists>i. v = VInt i)" "type_id_of v = TFloat \<longleftrightarrow> (\<exists>f. v = VFloat f)" "type_id_of v = TBool \<longleftrightarrow> (\<exists>b. v = VBool b)"
  "type_id_of v = TStr \<longleftrightarrow> (\<exists>s. v = VStr s)" "type_id_of v = TDateTime \<longleftrightarrow> (\<exists>i. v = VDateTime i)" "type_id_of v = TUuid \<longleftrightarrow> (\<exists>u. v = VUuid u)"
  "type_id_of v = TBytes \<longleftrightarrow> (\<exists>b. v = VBytes b)" "type_id_of v = TJson \<longleftrightarrow> (\<exists>b. v = VJson b)" "type_id_of v = TEmpty \<longleftrightarrow> v = VEmpty"
  by (cases v; simp)+

lemma encode_prefix_free:
  assumes "indexable v" and "indexable w" and p: "prefix (encode_composite_value v) (encode_composite_value w)"
  shows "v = w"
proof -
  note e = encode_composite_value_def
  have t: "type_id_of w = type_id_of v" using p by (simp add: e tag_inject)
  show ?thesis
  proof (cases v)
    case (VInt a)
    then obtain b where "w = VInt b" using t by (auto simp: type_id_of_iff)
    then show ?thesis using p VInt prefix_eq [of "u64_to_be (sign_flip a)" "u64_to_be (sign_flip b)"] by (simp add: e sign_flip_inject)
  next
    case (VFloat a)
    then obtain b where "w = VFloat b" using t by (auto simp: type_id_of_iff)
    then show ?thesis using p VFloat prefix_eq [of "u64_to_be (float_ordered a)" "u64_to_be (float_ordered b)"] by (simp add: e float_ordered_inject)
  next
    case (VBool a)
    then obtain b where "w = VBool b" using t by (auto simp: type_id_of_iff)
    then show ?thesis using p VBool by (simp add: e split: if_splits)
  next
    case (VStr a)
    then obtain b where "w = VStr b" using t by (auto simp: type_id_of_iff)
    then show ?thesis using p VStr escaped_prefix [of a b] by (simp add: e)
  next
    case (VDateTime a)
    then obtain b where "w = VDateTime b" using t by (auto simp: type_id_of_iff)
    then show ?thesis using p VDateTime prefix_eq [of "u64_to_be (sign_flip a)" "u64_to_be (sign_flip b)"] by (simp add: e sign_flip_inject)
  next
    case (VUuid a)
    then obtain b where "w = VUuid b" using t by (auto simp: type_id_of_iff)
    then show ?thesis using p VUuid assms(1,2) prefix_eq [of a b] by (simp add: e indexable_def)
  next
    case (VBytes a)
    then obtain b where "w = VBytes b" using t by (auto simp: type_id_of_iff)
    then show ?thesis using p VBytes assms(1,2) length_prefixed [of a b] by (simp add: e indexable_def)
  next
    case (VJson a)
    then obtain b where "w = VJson b" using t by (auto simp: type_id_of_iff)
    then show ?thesis using p VJson assms(1,2) length_prefixed [of a b] by (simp add: e indexable_def)
  next
    case VEmpty
    then show ?thesis using t by (simp add: type_id_of_iff)
  qed
qed

text \<open>Within an ordered type, byte order is value order.\<close>

lemma cmp_of_shift:
  assumes "int m = a + c" and "int n = b + c"
  shows "cmp_of m n = cmp_of a b"
proof -
  have "m < n \<longleftrightarrow> a < b" "m = n \<longleftrightarrow> a = b" using assms by linarith+
  then show ?thesis by (simp add: cmp_of_def)
qed

lemma sign_flip_cmp: "cmp_of (unat (sign_flip a)) (unat (sign_flip b)) = i64_cmp a b"
  unfolding i64_cmp_def by (rule cmp_of_shift [OF sign_flip_unat sign_flip_unat])

lemma float_ordered_cmp: "cmp_of (unat (float_ordered a)) (unat (float_ordered b)) = total_cmp a b"
  unfolding total_cmp_def by (rule cmp_of_shift [OF float_ordered_unat float_ordered_unat])

lemma encode_cmp:
  assumes "v \<in> keys_of ty" and "w \<in> keys_of ty" and "ty \<noteq> TBytes" and "ty \<noteq> TJson"
  shows "bytes_cmp (encode_composite_value v) (encode_composite_value w) = vcmp v w"
proof -
  note simps = encode_composite_value_def vcmp_def value_cmp_def bytes_cmp_u64 sign_flip_cmp float_ordered_cmp escaped_cmp
  have t: "type_id_of v = ty" "type_id_of w = ty" using assms(1,2) by (auto simp: keys_of_def)
  show ?thesis
    using t assms(3,4) by (cases ty) (auto simp: type_id_of_iff simps cmp_of_def [of "_ :: bool"])
qed

subsection \<open>Row ids\<close>

lemma rid_bits_bit: "bit (rid_bits r) n \<longleftrightarrow> (if n < 16 then bit (rid_slot r) n else n < 48 \<and> bit (rid_page r) (n - 16))"
  unfolding rid_bits_def
  by (auto simp: bit_or_iff bit_push_bit_iff bit_ucast_iff dest: bit_imp_le_length)

lemma rid_bits_parts: "ucast (drop_bit 16 (rid_bits r)) = rid_page r" "ucast (rid_bits r AND 0xFFFF) = rid_slot r"
proof -
  show "ucast (drop_bit 16 (rid_bits r)) = rid_page r"
    by (intro bit_eqI) (auto simp: bit_ucast_iff bit_drop_bit_eq rid_bits_bit)
  have m: "(0xFFFF :: u64) = mask 16" by (simp add: mask_eq_exp_minus_1)
  show "ucast (rid_bits r AND 0xFFFF) = rid_slot r"
    unfolding m by (intro bit_eqI) (auto simp: bit_ucast_iff bit_and_iff bit_mask_iff rid_bits_bit)
qed

lemma rid_bits_unat: "unat (rid_bits r) = 65536 * unat (rid_page r) + unat (rid_slot r)"
proof -
  have e: "rid_bits r = push_bit 16 (ucast (rid_page r)) + ucast (rid_slot r)"
    unfolding rid_bits_def by (subst disjunctive_add) (auto simp: bit_push_bit_iff bit_ucast_iff dest: bit_imp_le_length)
  define n where "n = 65536 * unat (rid_page r) + unat (rid_slot r)"
  have "rid_bits r = word_of_nat n" unfolding n_def using e by (simp add: push_bit_eq_mult)
  moreover have "n < 18446744073709551616"
    unfolding n_def using unat_u32_less [of "rid_page r"] unat_u16_less [of "rid_slot r"] by linarith
  ultimately show ?thesis unfolding n_def [symmetric] by (simp add: unat_of_nat)
qed

lemma rid_lt_bits: "rid_lt a b \<longleftrightarrow> unat (rid_bits a) < unat (rid_bits b)"
proof -
  have "65536 * p + s < 65536 * p' + s' \<longleftrightarrow> p < p' \<or> p = p' \<and> s < s'" if "s < 65536" "s' < 65536" for p p' s s' :: nat
    using that by linarith
  from this [OF unat_u16_less unat_u16_less] show ?thesis
    unfolding rid_bits_unat rid_lt_def by (simp add: word_less_nat_alt word_unat_eq_iff)
qed

lemma rid_bits_inject: "rid_bits a = rid_bits b \<longleftrightarrow> a = b"
  by (metis rid_bits_parts row_id.equality unit.exhaust)

lemma rid_roundtrip: "rid_from_composite (make_composite_key v r) = Some r"
  by (simp add: rid_from_composite_def make_composite_key_def u64_from_be_def u64_to_be_def Let_def rid_bits_parts)

subsection \<open>Composite keys\<close>

definition composite_key :: "val \<Rightarrow> u64 \<Rightarrow> val" where
  "composite_key v w = VBytes (encode_composite_value v @ u64_to_be w)"

definition composite_keys :: "val set" where
  "composite_keys = {composite_key v w | v w. indexable v}"

lemma composite_key_simps:
  "make_composite_key v r = composite_key v (rid_bits r)" "make_prefix_start v = composite_key v 0" "make_prefix_end v = composite_key v (- 1)"
  "composite_prefix_bytes (composite_key v w) = encode_composite_value v"
  by (simp_all add: composite_key_def make_composite_key_def make_prefix_start_def make_prefix_end_def composite_prefix_bytes_def)

lemma composite_keys_set: "composite_set composite_keys"
  unfolding composite_set_def composite_keys_def
proof (intro conjI ballI impI; clarify)
  fix v w
  assume "indexable v"
  then show "\<exists>b. composite_key v w = VBytes b \<and> 8 \<le> length b \<and>
      VBytes (take (length b - 8) b @ u64_to_be 0) \<in> {composite_key v w | v w. indexable v}"
    by (auto simp: composite_key_def)
next
  fix v w v' w'
  assume "indexable v" "indexable v'" "prefix (composite_prefix_bytes (composite_key v w)) (composite_prefix_bytes (composite_key v' w'))"
  then have "v = v'" unfolding composite_key_simps by (rule encode_prefix_free)
  then show "composite_prefix_bytes (composite_key v w) = composite_prefix_bytes (composite_key v' w')"
    by (simp add: composite_key_simps)
qed

text \<open>Composite keys compare by value encoding, then by row id.\<close>

lemma composite_cmp:
  assumes "indexable v" and "indexable v'"
  shows "vcmp (composite_key v w) (composite_key v' w')
     = then_cmp (bytes_cmp (encode_composite_value v) (encode_composite_value v')) (cmp_of (unat w) (unat w'))"
proof (cases "v = v'")
  case True
  then show ?thesis
    by (simp add: composite_key_def vcmp_bytes bytes_cmp_append bytes_cmp_u64 bytes_order.cmp_refl)
next
  case False
  let ?a = "encode_composite_value v" and ?b = "encode_composite_value v'"
  have np: "\<not> prefix ?a ?b" "\<not> prefix ?b ?a" using encode_prefix_free assms False by blast+
  show ?thesis
  proof (cases "bytes_cmp ?a ?b")
    case Less
    then have "bytes_cmp (?b @ u64_to_be w') (?a @ u64_to_be w) = Greater"
      using bytes_cmp_extend [of ?b ?a] np(1) bytes_cmp_flip [of ?b ?a] by simp
    then show ?thesis
      using Less bytes_cmp_flip [of "?a @ u64_to_be w" "?b @ u64_to_be w'"] by (simp add: composite_key_def vcmp_bytes)
  next
    case Equal
    then show ?thesis using np(1) bytes_cmp_Equal [of ?a ?b] by simp
  next
    case Greater
    then show ?thesis using bytes_cmp_extend [of ?a ?b] np(2) by (simp add: composite_key_def vcmp_bytes)
  qed
qed

lemma composite_key_inject: "indexable v \<Longrightarrow> indexable v' \<Longrightarrow> composite_key v w = composite_key v' w' \<longleftrightarrow> v = v' \<and> w = w'"
  by (auto simp: composite_key_def append_eq_append_conv dest: encode_prefix_free [of v v'])

lemma composite_order: "cmp_order vcmp composite_keys"
  using keys_of_order [of TBytes]
  by (rule cmp_order.cmp_subset) (auto simp: composite_keys_def composite_key_def keys_of_image)

interpretation composite: key_order composite_keys
  by (rule key_order.intro) (rule composite_order)

end
