(* ===== verification/Btree_Nonunique.thy ===== *)
theory Btree_Nonunique
  imports Composite_Key
begin

text \<open>
  A non-unique index as a set of \<open>(value, row id)\<close> pairs: what the scans over composite keys return, in
  which order, and what the statistics count.
\<close>

datatype pair_op = PInsert val row_id | PDelete val row_id

fun pair_value :: "pair_op \<Rightarrow> val" where
  "pair_value (PInsert v _) = v"
| "pair_value (PDelete v _) = v"

fun pair_index_step :: "btree \<Rightarrow> pair_op \<Rightarrow> btree run" where
  "pair_index_step t (PInsert v rid) = insert_non_unique t v rid"
| "pair_index_step t (PDelete v rid) = map_option fst (delete_non_unique t v rid)"

fun run_pairs :: "btree \<Rightarrow> pair_op list \<Rightarrow> btree run" where
  "run_pairs t [] = Some t"
| "run_pairs t (op # ops) = Option.bind (pair_index_step t op) (\<lambda>t'. run_pairs t' ops)"

fun set_step :: "(val \<times> row_id) set \<Rightarrow> pair_op \<Rightarrow> (val \<times> row_id) set" where
  "set_step S (PInsert v rid) = insert (v, rid) S"
| "set_step S (PDelete v rid) = S - {(v, rid)}"

definition pair_key :: "val \<times> row_id \<Rightarrow> val" where
  "pair_key p = make_composite_key (fst p) (snd p)"

text \<open>The tree holds the pairs of \<open>S\<close>.\<close>

definition holds_pairs :: "btree \<Rightarrow> (val \<times> row_id) set \<Rightarrow> bool" where
  "holds_pairs t S \<longleftrightarrow>
     (\<exists>ps. bt_state composite_keys t ps \<and> set (map fst ps) = pair_key ` S) \<and> bt_kind t = Composite \<and>
     (\<forall>p \<in> S. indexable (fst p))"

lemma pair_key_in: "indexable v \<Longrightarrow> make_composite_key v rid \<in> composite_keys"
  by (auto simp: composite_keys_def composite_key_simps)

lemma pair_key_inject: "indexable (fst p) \<Longrightarrow> indexable (fst q) \<Longrightarrow> pair_key p = pair_key q \<longleftrightarrow> p = q"
  by (cases p; cases q) (simp add: pair_key_def composite_key_simps composite_key_inject rid_bits_inject)

lemma pair_step_refines:
  assumes h: "holds_pairs t S" and v: "indexable (pair_value op)"
  shows "\<exists>t'. pair_index_step t op = Some t' \<and> holds_pairs t' (set_step S op) \<and> bt_empty_rids t' = bt_empty_rids t"
proof -
  obtain ps where st: "bt_state composite_keys t ps" and keys: "set (map fst ps) = pair_key ` S" and kind: "bt_kind t = Composite"
    and ix: "\<forall>p \<in> S. indexable (fst p)"
    using h unfolding holds_pairs_def by blast
  show ?thesis
  proof (cases op)
    case (PInsert v rid)
    define u where "u = t\<lparr>bt_kind := Composite, bt_version := (if bt_version t < BTREE_VERSION then BTREE_VERSION else bt_version t)\<rparr>"
    have u: "bt_state composite_keys u ps" "bt_kind u = Composite" "bt_empty_rids u = bt_empty_rids t"
      using st kind unfolding u_def by (simp_all add: bt_state_def bt_rel_def)
    have k: "make_composite_key v rid \<in> composite_keys" using v PInsert by (intro pair_key_in) simp
    obtain t' where t': "bt_insert u (make_composite_key v rid) rid = Some t'"
        "bt_state composite_keys t' (kput (make_composite_key v rid) rid ps)" "bt_kind t' = bt_kind u" "bt_dirty t'"
        "bt_version t' = bt_version u" "bt_empty_rids t' = bt_empty_rids u"
      by (rule composite.bt_insert_spec [OF u(1) k])
    have "set (map fst (kput (make_composite_key v rid) rid ps)) = pair_key ` insert (v, rid) S"
    proof -
      have "bt_rel composite_keys t ps" using st unfolding bt_state_def by blast
      from composite.kput_keys [OF composite.rel_keys [OF this] k] show ?thesis
        unfolding keys by (simp add: pair_key_def)
    qed
    then have "holds_pairs t' (insert (v, rid) S)"
      using t'(2,3) u(2) ix v PInsert unfolding holds_pairs_def by auto
    then show ?thesis
      using t'(1,6) u(3) PInsert by (simp add: insert_non_unique_def Let_def u_def)
  next
    case (PDelete v rid)
    have u: "bt_state composite_keys (t\<lparr>bt_kind := Composite\<rparr>) ps"
      using st kind by (simp add: bt_state_def bt_rel_def)
    have k: "make_composite_key v rid \<in> composite_keys" using v PDelete by (intro pair_key_in) simp
    obtain t' where t': "bt_delete (t\<lparr>bt_kind := Composite\<rparr>) (make_composite_key v rid) = Some (t', make_composite_key v rid \<in> set (map fst ps))"
        "bt_state composite_keys t' (filter (\<lambda>p. fst p \<noteq> make_composite_key v rid) ps)" "bt_kind t' = bt_kind (t\<lparr>bt_kind := Composite\<rparr>)"
        "bt_dirty t'" "bt_version t' = bt_version (t\<lparr>bt_kind := Composite\<rparr>)" "bt_empty_rids t' = bt_empty_rids (t\<lparr>bt_kind := Composite\<rparr>)"
      by (rule composite.bt_delete_spec [OF u k])
    have "set (map fst (filter (\<lambda>p. fst p \<noteq> make_composite_key v rid) ps)) = set (map fst ps) - {pair_key (v, rid)}"
      by (auto simp: pair_key_def)
    also have "\<dots> = pair_key ` (S - {(v, rid)})"
      unfolding keys using ix v PDelete pair_key_inject [of _ "(v, rid)"] by auto
    finally have e: "set (map fst (filter (\<lambda>p. fst p \<noteq> make_composite_key v rid) ps)) = pair_key ` (S - {(v, rid)})" .
    have "bt_kind t' = Composite" using t'(3) by simp
    then have "holds_pairs t' (S - {(v, rid)})" using t'(2) e ix unfolding holds_pairs_def by blast
    then show ?thesis using t'(1,6) PDelete by (simp add: delete_non_unique_def)
  qed
qed

lemma run_pairs_refines:
  assumes "holds_pairs t S" and "\<forall>op \<in> set ops. indexable (pair_value op)"
  shows "\<exists>t'. run_pairs t ops = Some t' \<and> holds_pairs t' (foldl set_step S ops) \<and> bt_empty_rids t' = bt_empty_rids t"
  using assms
proof (induction ops arbitrary: t S)
  case (Cons op ops)
  obtain t1 where s: "pair_index_step t op = Some t1" "holds_pairs t1 (set_step S op)" "bt_empty_rids t1 = bt_empty_rids t"
    using pair_step_refines [OF Cons.prems(1), of op] Cons.prems(2) by auto
  then show ?case using Cons.IH [OF s(2)] Cons.prems(2) by auto
qed auto

lemma holds_pairs_create: "holds_pairs bt_create_non_unique {}"
proof -
  have "bt_rel composite_keys bt_create_non_unique []" by (simp add: bt_create_non_unique_def)
  then show ?thesis
    by (auto simp: holds_pairs_def bt_state_def distinct_of_def composite_keys_set bt_create_non_unique_def bt_create_def
        intro!: exI [of _ "[]"])
qed

subsection \<open>Reading the pairs\<close>

definition entry_less :: "val \<times> row_id \<Rightarrow> val \<times> row_id \<Rightarrow> bool" where
  "entry_less p q \<longleftrightarrow>
     bytes_cmp (encode_composite_value (fst p)) (encode_composite_value (fst q)) = Less \<or> fst p = fst q \<and> rid_lt (snd p) (snd q)"

lemma pair_key_less:
  assumes "indexable (fst p)" and "indexable (fst q)" and "vcmp (pair_key p) (pair_key q) = Less"
  shows "entry_less p q"
proof (cases "bytes_cmp (encode_composite_value (fst p)) (encode_composite_value (fst q))")
  case Equal
  then have "fst p = fst q"
    using encode_prefix_free [OF assms(1,2)] bytes_cmp_Equal [of "encode_composite_value (fst p)" "encode_composite_value (fst q)"] by simp
  then show ?thesis
    using assms(3) Equal composite_cmp [OF assms(1,2)]
    by (simp add: entry_less_def pair_key_def composite_key_simps rid_lt_bits cmp_of_def split: if_splits)
qed (use assms composite_cmp [OF assms(1,2)] in \<open>simp_all add: entry_less_def pair_key_def composite_key_simps\<close>)

lemma list_of_image: "set ys \<subseteq> f ` S \<Longrightarrow> \<exists>xs. ys = map f xs \<and> set xs \<subseteq> S"
proof (induction ys)
  case (Cons y ys)
  then obtain xs x where "ys = map f xs" "set xs \<subseteq> S" "y = f x" "x \<in> S" by auto
  then show ?case by (intro exI [of _ "x # xs"]) simp
qed simp

lemma composite_rids_keys: "map fst ps = map pair_key qs \<Longrightarrow> composite_rids ps = map snd qs"
proof (induction ps arbitrary: qs)
  case (Cons p ps)
  then obtain q qs' where q: "qs = q # qs'" "fst p = pair_key q" "map fst ps = map pair_key qs'" by (cases qs) auto
  have "composite_rids (p # ps) = snd q # composite_rids ps"
    using q(2) by (cases p) (simp add: composite_rids_def map_filter_simps pair_key_def rid_roundtrip)
  then show ?case using Cons.IH [OF q(3)] q(1) by simp
qed (simp add: composite_rids_def map_filter_simps)

lemma composite_rids_filter:
  assumes "map fst ps = map pair_key qs"
  shows "composite_rids (filter (\<lambda>p. P (fst p)) ps) = map snd (filter (\<lambda>q. P (pair_key q)) qs)"
  using arg_cong [OF assms, of "filter P"] by (intro composite_rids_keys) (simp add: filter_map comp_def)

text \<open>The pairs in key order.\<close>

lemma holds_pairs_list:
  assumes "holds_pairs t S"
  obtains ps qs where "bt_state composite_keys t ps" "map fst ps = map pair_key qs" "set qs = S" "distinct qs" "sorted_wrt entry_less qs"
proof -
  obtain ps where st: "bt_state composite_keys t ps" and keys: "set (map fst ps) = pair_key ` S" and ix: "\<forall>p \<in> S. indexable (fst p)"
    using assms unfolding holds_pairs_def by blast
  obtain qs where qs: "map fst ps = map pair_key qs" "set qs \<subseteq> S"
    using list_of_image [of "map fst ps" pair_key S] keys by auto
  have rel: "bt_rel composite_keys t ps" using st unfolding bt_state_def by blast
  have "inj_on pair_key S" using ix pair_key_inject by (intro inj_onI) blast
  moreover have "pair_key ` set qs = pair_key ` S" using keys unfolding qs(1) by simp
  ultimately have set: "set qs = S" using inj_on_image_eq_iff [of pair_key S "set qs" S] qs(2) by simp
  have "distinct (map pair_key qs)" using composite.between_distinct [OF composite.rel_between [OF rel]] unfolding qs(1) .
  then have d: "distinct qs" by (simp add: distinct_map)
  have sk: "sorted_wrt (\<lambda>p q. vcmp (pair_key p) (pair_key q) = Less) qs"
    using composite.rel_between [OF rel] unfolding qs(1) between_def sorted_wrt_map by blast
  have s: "sorted_wrt entry_less qs"
  proof (rule sorted_wrt_mono_rel [OF _ sk])
    fix p q
    assume "p \<in> set qs" and "q \<in> set qs" and "vcmp (pair_key p) (pair_key q) = Less"
    then show "entry_less p q" using ix qs(2) by (intro pair_key_less) auto
  qed
  from that [OF st qs(1) set d s] show thesis .
qed

lemma prefix_bounds:
  assumes "indexable (fst q)" and "indexable a"
  shows "vcmp (pair_key q) (make_prefix_start a) \<noteq> Less \<longleftrightarrow> bytes_cmp (encode_composite_value (fst q)) (encode_composite_value a) \<noteq> Less"
    and "vcmp (pair_key q) (make_prefix_end a) \<noteq> Greater \<longleftrightarrow> bytes_cmp (encode_composite_value (fst q)) (encode_composite_value a) \<noteq> Greater"
proof -
  have top: "unat w \<le> unat (- 1 :: u64)" for w :: u64 by (simp add: word_le_nat_alt [symmetric])
  show "vcmp (pair_key q) (make_prefix_start a) \<noteq> Less \<longleftrightarrow> bytes_cmp (encode_composite_value (fst q)) (encode_composite_value a) \<noteq> Less"
    using composite_cmp [OF assms]
    by (cases "bytes_cmp (encode_composite_value (fst q)) (encode_composite_value a)")
      (simp_all add: pair_key_def composite_key_simps cmp_of_def)
  show "vcmp (pair_key q) (make_prefix_end a) \<noteq> Greater \<longleftrightarrow> bytes_cmp (encode_composite_value (fst q)) (encode_composite_value a) \<noteq> Greater"
    using composite_cmp [OF assms] top [of "rid_bits (snd q)"]
    by (cases "bytes_cmp (encode_composite_value (fst q)) (encode_composite_value a)")
      (auto simp add: pair_key_def composite_key_simps cmp_of_def)
qed

lemma prefix_same:
  assumes "indexable (fst q)" and "indexable v"
  shows "vcmp (pair_key q) (make_prefix_start v) \<noteq> Less \<and> vcmp (pair_key q) (make_prefix_end v) \<noteq> Greater \<longleftrightarrow> fst q = v"
  unfolding prefix_bounds [OF assms]
  using encode_prefix_free [OF assms] bytes_cmp_Equal [of "encode_composite_value (fst q)" "encode_composite_value v"]
  by (cases "bytes_cmp (encode_composite_value (fst q)) (encode_composite_value v)") auto

lemma empty_lowest: "bytes_cmp (encode_composite_value v) (encode_composite_value VEmpty) \<noteq> Less"
  by (cases v) (simp_all add: encode_composite_value_def)

lemma prefix_keys: "indexable v \<Longrightarrow> make_prefix_start v \<in> composite_keys" "indexable v \<Longrightarrow> make_prefix_end v \<in> composite_keys"
  by (auto simp: composite_keys_def composite_key_simps)

text \<open>The value lies between the bounds, an absent bound leaving the side open.\<close>

definition within :: "(val \<Rightarrow> val \<Rightarrow> ordering) \<Rightarrow> val option \<Rightarrow> val option \<Rightarrow> val \<Rightarrow> bool" where
  "within c start stop v \<longleftrightarrow>
     (case start of None \<Rightarrow> True | Some a \<Rightarrow> c v a \<noteq> Less) \<and> (case stop of None \<Rightarrow> True | Some b \<Rightarrow> c v b \<noteq> Greater)"

lemma read_pairs:
  assumes st: "bt_state composite_keys t ps" and ix: "\<forall>q \<in> set qs. indexable (fst q)"
    and keys: "map fst ps = map pair_key qs"
    and b: "\<forall>a \<in> set_option start. indexable a" "\<forall>a \<in> set_option stop. indexable a"
  shows "range_rids t start stop
    = Some (map snd (filter (\<lambda>q. within (\<lambda>v w. bytes_cmp (encode_composite_value v) (encode_composite_value w)) start stop (fst q)) qs))"
proof -
  have rel: "bt_rel composite_keys t ps" using st unfolding bt_state_def by blast
  have e: "indexable VEmpty" by (simp add: indexable_def)
  have ir: "in_range x y = (\<lambda>p. (\<lambda>k. vcmp k x \<noteq> Less \<and> vcmp k y \<noteq> Greater) (fst p))" for x y
    by (simp add: fun_eq_iff in_range_def)
  note spec = composite.range_spec [OF rel prefix_keys] composite.range_from_spec [OF rel prefix_keys(1)] composite.range_to_spec [OF rel prefix_keys(2)]
  note rids = composite_rids_filter [OF keys]
  note sel = rids [of "\<lambda>k. vcmp k x \<noteq> Less" for x] rids [of "\<lambda>k. vcmp k x \<noteq> Greater" for x]
    rids [of "\<lambda>k. vcmp k x \<noteq> Less \<and> vcmp k y \<noteq> Greater" for x y]
  show ?thesis
    using b ix e
    by (cases start; cases stop)
      (simp_all add: range_rids_def spec ir within_def prefix_bounds empty_lowest sel cong: filter_cong)
qed

lemma read_prefix:
  assumes st: "bt_state composite_keys t ps" and ix: "\<forall>q \<in> set qs. indexable (fst q)" and v: "indexable v"
    and keys: "map fst ps = map pair_key qs"
  shows "lookup_prefix t v = Some (map snd (filter (\<lambda>q. fst q = v) qs))"
    and "count_prefix_capped t v cap = Some (min cap (length (filter (\<lambda>q. fst q = v) qs)))"
proof -
  have rel: "bt_rel composite_keys t ps" using st unfolding bt_state_def by blast
  have "map fst (filter (in_range (make_prefix_start v) (make_prefix_end v)) ps)
      = filter (\<lambda>k. vcmp k (make_prefix_start v) \<noteq> Less \<and> vcmp k (make_prefix_end v) \<noteq> Greater) (map pair_key qs)"
    unfolding keys [symmetric] by (simp add: filter_map comp_def in_range_def [abs_def])
  also have "\<dots> = map pair_key (filter (\<lambda>q. fst q = v) qs)"
    using ix v by (simp add: filter_map comp_def prefix_same cong: filter_cong)
  finally have m: "map fst (filter (in_range (make_prefix_start v) (make_prefix_end v)) ps) = map pair_key (filter (\<lambda>q. fst q = v) qs)" .
  from m show "lookup_prefix t v = Some (map snd (filter (\<lambda>q. fst q = v) qs))"
    using composite.range_spec [OF rel prefix_keys [OF v]] by (simp add: lookup_prefix_def composite_rids_keys)
  from m show "count_prefix_capped t v cap = Some (min cap (length (filter (\<lambda>q. fst q = v) qs)))"
    using composite.count_range_spec [OF rel prefix_keys [OF v]]
    by (simp add: count_prefix_capped_def arg_cong [OF m, of length, simplified])
qed

lemma pair_stats:
  assumes "bt_state composite_keys t ps" and "map fst ps = map pair_key qs" and "set qs = S" and "distinct qs"
    and ix: "\<forall>q \<in> S. indexable (fst q)" and "bt_kind t = Composite" and "bt_empty_rids t = []"
  shows "bt_stats t = \<lparr>st_total = card S, st_distinct = card (fst ` S), st_empty = 0\<rparr>"
proof -
  have "length ps = card S"
    using arg_cong [OF assms(2), of length] distinct_card [OF assms(4)] assms(3) by simp
  moreover have "composite_prefix_bytes ` set (map fst ps) = encode_composite_value ` fst ` S"
    unfolding assms(2) using assms(3) by (simp add: image_image pair_key_def composite_key_simps)
  moreover have "card (encode_composite_value ` fst ` S) = card (fst ` S)"
  proof (rule card_image, rule inj_onI)
    fix v w
    assume "v \<in> fst ` S" and "w \<in> fst ` S" and e: "encode_composite_value v = encode_composite_value w"
    then have "indexable v" "indexable w" using ix by auto
    then show "v = w" by (rule encode_prefix_free) (simp add: e)
  qed
  ultimately show ?thesis using assms(1,6,7) by (simp add: bt_state_def bt_stats_def distinct_of_def)
qed

lemma set_steps_values: "\<forall>op \<in> set ops. P (pair_value op) \<Longrightarrow> \<forall>p \<in> S. P (fst p) \<Longrightarrow> \<forall>p \<in> foldl set_step S ops. P (fst p)"
proof (induction ops arbitrary: S)
  case (Cons op ops)
  have "\<forall>p \<in> set_step S op. P (fst p)" using Cons.prems by (cases op) auto
  then show ?case using Cons.IH [of "set_step S op"] Cons.prems(1) by simp
qed simp

lemma entry_less_same: "sorted_wrt entry_less qs \<Longrightarrow> sorted_wrt rid_lt (map snd (filter (\<lambda>q. fst q = v) qs))"
  by (induction qs) (auto simp: entry_less_def bytes_order.cmp_refl)

lemma typed_pairs:
  assumes "\<forall>q \<in> set qs. fst q \<in> keys_of ty" and ty: "ty \<noteq> TBytes" "ty \<noteq> TJson"
    and "set_option start \<union> set_option stop \<subseteq> keys_of ty" and s: "sorted_wrt entry_less qs"
  shows "sorted_wrt (\<lambda>p q. vcmp (fst p) (fst q) = Less \<or> fst p = fst q \<and> rid_lt (snd p) (snd q)) qs"
    and "filter (\<lambda>q. within (\<lambda>v w. bytes_cmp (encode_composite_value v) (encode_composite_value w)) start stop (fst q)) qs
       = filter (\<lambda>q. within vcmp start stop (fst q)) qs"
proof -
  note enc = encode_cmp [OF _ _ ty]
  show "sorted_wrt (\<lambda>p q. vcmp (fst p) (fst q) = Less \<or> fst p = fst q \<and> rid_lt (snd p) (snd q)) qs"
  proof (rule sorted_wrt_mono_rel [OF _ s])
    fix p q
    assume "p \<in> set qs" and "q \<in> set qs" and "entry_less p q"
    then show "vcmp (fst p) (fst q) = Less \<or> fst p = fst q \<and> rid_lt (snd p) (snd q)"
      using enc [of "fst p" "fst q"] assms(1) by (simp add: entry_less_def)
  qed
  show "filter (\<lambda>q. within (\<lambda>v w. bytes_cmp (encode_composite_value v) (encode_composite_value w)) start stop (fst q)) qs
       = filter (\<lambda>q. within vcmp start stop (fst q)) qs"
    using assms(1,4) enc by (intro filter_cong refl) (auto simp: within_def split: option.splits)
qed

text \<open>
  C38. A non-unique index is a set of \<open>(value, row id)\<close> pairs. Running any sequence of inserts and deletes
  of pairs on a fresh tree returns a tree that holds the set the sequence builds. A point lookup returns
  exactly the row ids paired with the value, in row id order, the capped count is their number up to the
  cap, and the statistics are the number of pairs and of different values; recounting them changes
  nothing. For values whose encoding keeps their order (every type but bytes and JSON), a range scan with
  any combination of bounds returns the row ids of the values in the range, by value and then row id.
\<close>

theorem nonunique_index_refines:
  assumes "\<forall>op \<in> set ops. pair_value op \<in> keys_of ty \<and> indexable (pair_value op)" and "indexable v"
    and "set_option start \<union> set_option stop \<subseteq> {a \<in> keys_of ty. indexable a}"
  shows "\<exists>t qs. run_pairs bt_create_non_unique ops = Some t \<and>
     set qs = foldl set_step {} ops \<and> distinct qs \<and> sorted_wrt entry_less qs \<and>
     lookup_prefix t v = Some (map snd (filter (\<lambda>q. fst q = v) qs)) \<and>
     sorted_wrt rid_lt (map snd (filter (\<lambda>q. fst q = v) qs)) \<and>
     count_prefix_capped t v cap = Some (min cap (length (filter (\<lambda>q. fst q = v) qs))) \<and>
     bt_stats t = \<lparr>st_total = card (set qs), st_distinct = card (fst ` set qs), st_empty = 0\<rparr> \<and> recount t = Some t \<and>
     (ty \<noteq> TBytes \<and> ty \<noteq> TJson \<longrightarrow>
        sorted_wrt (\<lambda>p q. vcmp (fst p) (fst q) = Less \<or> fst p = fst q \<and> rid_lt (snd p) (snd q)) qs \<and>
        range_rids t start stop = Some (map snd (filter (\<lambda>q. within vcmp start stop (fst q)) qs)))"
proof -
  obtain t where t: "run_pairs bt_create_non_unique ops = Some t" "holds_pairs t (foldl set_step {} ops)" "bt_empty_rids t = []"
    using run_pairs_refines [OF holds_pairs_create, of ops] assms(1) by (auto simp: bt_create_non_unique_def bt_create_def)
  obtain ps qs where q: "bt_state composite_keys t ps" "map fst ps = map pair_key qs" "set qs = foldl set_step {} ops" "distinct qs"
      "sorted_wrt entry_less qs"
    by (rule holds_pairs_list [OF t(2)])
  have ty: "\<forall>q \<in> set qs. fst q \<in> keys_of ty" and ix: "\<forall>q \<in> set qs. indexable (fst q)"
    using set_steps_values [of ops "\<lambda>v. v \<in> keys_of ty" "{}"] set_steps_values [of ops indexable "{}"] assms(1) q(3) by simp_all
  have kind: "bt_kind t = Composite" using t(2) unfolding holds_pairs_def by blast
  have bounds: "\<forall>a \<in> set_option start. indexable a" "\<forall>a \<in> set_option stop. indexable a"
      "set_option start \<union> set_option stop \<subseteq> keys_of ty"
    using assms(3) by blast+
  have "bt_stats t = \<lparr>st_total = card (set qs), st_distinct = card (fst ` set qs), st_empty = 0\<rparr>"
    by (rule pair_stats [OF q(1,2) refl q(4) ix kind t(3)])
  moreover have "range_rids t start stop = Some (map snd (filter (\<lambda>q. within vcmp start stop (fst q)) qs))" if "ty \<noteq> TBytes" "ty \<noteq> TJson"
    using read_pairs [OF q(1) ix q(2) bounds(1,2)] typed_pairs(2) [OF ty that bounds(3) q(5)] by simp
  ultimately show ?thesis
    using t(1) q(3,4,5) read_prefix [OF q(1) ix assms(2) q(2)] entry_less_same [OF q(5)] composite.recount_spec [OF q(1)]
      typed_pairs(1) [OF ty _ _ bounds(3) q(5)]
    by (intro exI [of _ t] exI [of _ qs]) simp
qed

definition sample_pairs :: "pair_op list" where
  "sample_pairs =
     [PInsert (VStr [1]) \<lparr>rid_page = 2, rid_slot = 0\<rparr>, PInsert (VStr []) \<lparr>rid_page = 1, rid_slot = 1\<rparr>,
      PInsert (VStr [1]) \<lparr>rid_page = 1, rid_slot = 5\<rparr>, PDelete (VStr []) \<lparr>rid_page = 1, rid_slot = 1\<rparr>]"

theorem nonunique_index_refines_witness:
  "VStr [1] \<in> keys_of TStr \<and> indexable (VStr [1]) \<and>
   (\<exists>t qs. run_pairs bt_create_non_unique sample_pairs = Some t \<and>
      set qs = {(VStr [1], \<lparr>rid_page = 2, rid_slot = 0\<rparr>), (VStr [1], \<lparr>rid_page = 1, rid_slot = 5\<rparr>)} \<and> distinct qs \<and>
      lookup_prefix t (VStr [1]) = Some (map snd (filter (\<lambda>q. fst q = VStr [1]) qs)) \<and>
      range_rids t (Some (VStr [])) None = Some (map snd (filter (\<lambda>q. within vcmp (Some (VStr [])) None (fst q)) qs)))"
proof -
  have k: "VStr s \<in> keys_of TStr" "indexable (VStr s)" for s by (simp_all add: keys_of_def indexable_def)
  then have "\<forall>op \<in> set sample_pairs. pair_value op \<in> keys_of TStr \<and> indexable (pair_value op)" by (simp add: sample_pairs_def)
  moreover have m: "foldl set_step {} sample_pairs
      = {(VStr [1], \<lparr>rid_page = 2, rid_slot = 0\<rparr>), (VStr [1], \<lparr>rid_page = 1, rid_slot = 5\<rparr>)}"
    by (auto simp: sample_pairs_def)
  ultimately show ?thesis
    using nonunique_index_refines [of sample_pairs TStr "VStr [1]" "Some (VStr [])" None 1] k unfolding m by auto
qed

end
