(* ===== verification/Btree_File.thy ===== *)
theory Btree_File
  imports Btree Cursor
begin

text \<open>
  The index file of a B+ tree (\<^verbatim>\<open>crates/storage/src/btree.rs\<close>). The file is its bytes, absent before the first
  save. Writing a sibling file, syncing it and renaming it over the target is the parameter
  \<open>write_file\<close>, which takes the new contents and the old file and answers with the file and the outcome;
  \<open>crc\<close> is the checksum of the crate \<open>crc32fast\<close>.
\<close>

datatype idx_error =
    IndexFileTooLarge nat | IndexFileTooShort | IndexCrcMismatch u32 u32 | BadIndexMagic
  | UnsupportedIndexVersion u16 | UnreasonableNodeCount nat | IndexCountTooLarge | UnknownNodeTag u8
  | EmptyRidCountTooLarge | EmptyRidsNotOrdered | IndexTrailingBytes | RootOutOfRange
  | TruncatedIndex | NonUtf8InIndex | UnknownValueTag u8

definition BTREE_MAGIC :: bytes where
  "BTREE_MAGIC = [0x42, 0x49, 0x44, 0x58]"

definition NODE_TAG_INTERNAL :: u8 where "NODE_TAG_INTERNAL = 0"
definition NODE_TAG_LEAF :: u8 where "NODE_TAG_LEAF = 1"

subsection \<open>The writer\<close>

definition write_value :: "val \<Rightarrow> bytes" where
  "write_value v =
     type_id_to_u8 (type_id_of v) #
     (case v of
        VInt i \<Rightarrow> u64_to_le i
      | VFloat f \<Rightarrow> u64_to_le f
      | VBool b \<Rightarrow> [if b then 1 else 0]
      | VStr s \<Rightarrow> u32_to_le (word_of_nat (length s)) @ s
      | VDateTime d \<Rightarrow> u64_to_le d
      | VUuid u \<Rightarrow> u
      | VBytes b \<Rightarrow> u32_to_le (word_of_nat (length b)) @ b
      | VJson b \<Rightarrow> u32_to_le (word_of_nat (length b)) @ b
      | VEmpty \<Rightarrow> [])"

definition write_rid :: "row_id \<Rightarrow> bytes" where
  "write_rid rid = u32_to_le (rid_page rid) @ u16_to_le (rid_slot rid)"

definition write_index :: "nat \<Rightarrow> bytes" where
  "write_index i = u32_to_le (word_of_nat i)"

fun write_node :: "node \<Rightarrow> bytes" where
  "write_node (Internal ks cs) =
     [NODE_TAG_INTERNAL] @ write_index (length ks) @ concat (map write_value ks) @
     write_index (length cs) @ concat (map write_index cs)"
| "write_node (Leaf ks vs nxt) =
     [NODE_TAG_LEAF] @ write_index (length ks) @ concat (map write_value ks) @ concat (map write_rid vs) @
     (case nxt of Some i \<Rightarrow> [1] @ write_index i | None \<Rightarrow> [0])"

definition tree_bytes :: "(bytes \<Rightarrow> u32) \<Rightarrow> btree \<Rightarrow> bytes" where
  "tree_bytes crc t =
     (let buf = BTREE_MAGIC @ u16_to_le (bt_version t) @ write_index (bt_root t) @ write_index (length (bt_nodes t)) @
            concat (map write_node (bt_nodes t)) @
            (if bt_version t \<ge> 2 then write_index (length (bt_empty_rids t)) @ concat (map write_rid (bt_empty_rids t)) else [])
      in buf @ u32_to_le (crc buf))"

type_synonym ('e) file_writer = "bytes \<Rightarrow> bytes option \<Rightarrow> bytes option \<times> ('e + unit)"

definition save_to :: "(bytes \<Rightarrow> u32) \<Rightarrow> 'e file_writer \<Rightarrow> btree \<Rightarrow> bytes option \<Rightarrow> bytes option \<times> ('e + unit)" where
  "save_to crc write_file t file = write_file (tree_bytes crc t) file"

definition bt_save :: "(bytes \<Rightarrow> u32) \<Rightarrow> 'e file_writer \<Rightarrow> btree \<Rightarrow> bytes option \<Rightarrow> (btree \<times> bytes option \<times> ('e + unit)) run" where
  "bt_save crc write_file t file =
     Option.bind (recount t) (\<lambda>t.
     case save_to crc write_file t file of
       (file', Inl e) \<Rightarrow> Some (t, file', Inl e)
     | (file', Inr _) \<Rightarrow> Some (t\<lparr>bt_dirty := False\<rparr>, file', Inr ()))"

definition save_if_dirty :: "(bytes \<Rightarrow> u32) \<Rightarrow> 'e file_writer \<Rightarrow> btree \<Rightarrow> bytes option \<Rightarrow> (btree \<times> bytes option \<times> ('e + unit)) run" where
  "save_if_dirty crc write_file t file =
     (if \<not> bt_dirty t then Some (t, file, Inr ()) else bt_save crc write_file t file)"

definition bt_is_dirty :: "btree \<Rightarrow> bool" where
  "bt_is_dirty t = bt_dirty t"

definition mark_dirty :: "btree \<Rightarrow> btree" where
  "mark_dirty t = t\<lparr>bt_dirty := True\<rparr>"

definition discard_dirty :: "btree \<Rightarrow> btree" where
  "discard_dirty t = t\<lparr>bt_dirty := False\<rparr>"

subsection \<open>The reader\<close>

definition idx_read_u8 :: "bytes \<Rightarrow> nat \<Rightarrow> (idx_error + u8 \<times> nat) run" where
  "idx_read_u8 buf pos =
     (if pos \<ge> length buf then Some (Inl TruncatedIndex)
      else do { v \<leftarrow> index_run buf pos; Some (Inr (v, pos + 1)) })"

definition idx_read_u16 :: "bytes \<Rightarrow> nat \<Rightarrow> (idx_error + u16 \<times> nat) run" where
  "idx_read_u16 buf pos =
     (if pos + 2 > length buf then Some (Inl TruncatedIndex)
      else do { v \<leftarrow> slice_run buf pos (pos + 2); Some (Inr (u16_from_le v, pos + 2)) })"

definition idx_read_u32 :: "bytes \<Rightarrow> nat \<Rightarrow> (idx_error + u32 \<times> nat) run" where
  "idx_read_u32 buf pos =
     (if pos + 4 > length buf then Some (Inl TruncatedIndex)
      else do { v \<leftarrow> slice_run buf pos (pos + 4); Some (Inr (u32_from_le v, pos + 4)) })"

definition idx_read_u64 :: "bytes \<Rightarrow> nat \<Rightarrow> (idx_error + u64 \<times> nat) run" where
  "idx_read_u64 buf pos =
     (if pos + 8 > length buf then Some (Inl TruncatedIndex)
      else do { v \<leftarrow> slice_run buf pos (pos + 8); Some (Inr (u64_from_le v, pos + 8)) })"

definition check_serialized_count :: "nat \<Rightarrow> nat \<Rightarrow> nat \<Rightarrow> idx_error + unit" where
  "check_serialized_count count minimum_bytes remaining =
     (if count > remaining div minimum_bytes then Inl IndexCountTooLarge else Inr ())"

definition idx_type_id :: "u8 \<Rightarrow> idx_error + type_id" where
  "idx_type_id v = (case type_id_from_u8 v of None \<Rightarrow> Inl (UnknownValueTag v) | Some t \<Rightarrow> Inr t)"

text \<open>The length-prefixed bytes of a string, a byte string or a JSON document.\<close>

definition read_blob :: "bytes \<Rightarrow> nat \<Rightarrow> (idx_error + bytes \<times> nat) run" where
  "read_blob buf pos =
     try_res (idx_read_u32 buf pos) (\<lambda>(n, pos).
     if unat n > length buf - pos then Some (Inl TruncatedIndex)
     else do { v \<leftarrow> slice_run buf pos (pos + unat n); Some (Inr (v, pos + unat n)) })"

definition read_value :: "bytes \<Rightarrow> nat \<Rightarrow> (idx_error + val \<times> nat) run" where
  "read_value buf pos =
     try_res (idx_read_u8 buf pos) (\<lambda>(tag, pos).
     try_res (Some (idx_type_id tag)) (\<lambda>ty.
     case ty of
       TInt \<Rightarrow> try_res (idx_read_u64 buf pos) (\<lambda>(v, pos). Some (Inr (VInt v, pos)))
     | TFloat \<Rightarrow> try_res (idx_read_u64 buf pos) (\<lambda>(v, pos). Some (Inr (VFloat v, pos)))
     | TBool \<Rightarrow> try_res (idx_read_u8 buf pos) (\<lambda>(b, pos). Some (Inr (VBool (b \<noteq> 0), pos)))
     | TStr \<Rightarrow> try_res (read_blob buf pos) (\<lambda>(s, pos).
         if utf8_valid s then Some (Inr (VStr s, pos)) else Some (Inl NonUtf8InIndex))
     | TDateTime \<Rightarrow> try_res (idx_read_u64 buf pos) (\<lambda>(v, pos). Some (Inr (VDateTime v, pos)))
     | TUuid \<Rightarrow>
         if pos + 16 > length buf then Some (Inl TruncatedIndex)
         else do { u \<leftarrow> slice_run buf pos (pos + 16); Some (Inr (VUuid u, pos + 16)) }
     | TBytes \<Rightarrow> try_res (read_blob buf pos) (\<lambda>(v, pos). Some (Inr (VBytes v, pos)))
     | TJson \<Rightarrow> try_res (read_blob buf pos) (\<lambda>(v, pos). Some (Inr (VJson v, pos)))
     | TEmpty \<Rightarrow> Some (Inr (VEmpty, pos))))"

definition read_rid :: "bytes \<Rightarrow> nat \<Rightarrow> (idx_error + row_id \<times> nat) run" where
  "read_rid buf pos =
     try_res (idx_read_u32 buf pos) (\<lambda>(p, pos).
     try_res (idx_read_u16 buf pos) (\<lambda>(s, pos).
     Some (Inr (\<lparr>rid_page = p, rid_slot = s\<rparr>, pos))))"

definition read_index :: "bytes \<Rightarrow> nat \<Rightarrow> (idx_error + nat \<times> nat) run" where
  "read_index buf pos = try_res (idx_read_u32 buf pos) (\<lambda>(i, pos). Some (Inr (unat i, pos)))"

definition read_node :: "bytes \<Rightarrow> nat \<Rightarrow> (idx_error + node \<times> nat) run" where
  "read_node buf pos =
     try_res (idx_read_u8 buf pos) (\<lambda>(tag, pos).
     if tag = NODE_TAG_INTERNAL then
       try_res (read_index buf pos) (\<lambda>(n_keys, pos).
       try_res (Some (check_serialized_count n_keys 1 (length buf - pos - 4))) (\<lambda>_.
       try_res (read_many read_value n_keys buf pos) (\<lambda>(keys, pos).
       try_res (read_index buf pos) (\<lambda>(n_children, pos).
       try_res (Some (check_serialized_count n_children 4 (length buf - pos))) (\<lambda>_.
       try_res (read_many read_index n_children buf pos) (\<lambda>(children, pos).
       Some (Inr (Internal keys children, pos))))))))
     else if tag = NODE_TAG_LEAF then
       try_res (read_index buf pos) (\<lambda>(n_keys, pos).
       try_res (Some (check_serialized_count n_keys 7 (length buf - pos - 1))) (\<lambda>_.
       try_res (read_many read_value n_keys buf pos) (\<lambda>(keys, pos).
       try_res (read_many read_rid n_keys buf pos) (\<lambda>(vals, pos).
       try_res (idx_read_u8 buf pos) (\<lambda>(has_next, pos).
       try_res (if has_next \<noteq> 0 then try_res (read_index buf pos) (\<lambda>(i, pos). Some (Inr (Some i, pos))) else Some (Inr (None, pos)))
         (\<lambda>(nxt, pos).
       Some (Inr (Leaf keys vals nxt, pos))))))))
     else Some (Inl (UnknownNodeTag tag)))"

text \<open>\<open>empty_rids.windows(2).any(|pair| pair[0] >= pair[1])\<close>\<close>

fun windows_unordered :: "row_id list \<Rightarrow> bool" where
  "windows_unordered (a # b # rest) \<longleftrightarrow> \<not> rid_lt a b \<or> windows_unordered (b # rest)"
| "windows_unordered _ \<longleftrightarrow> False"

definition read_empty_rids :: "u16 \<Rightarrow> bytes \<Rightarrow> nat \<Rightarrow> (idx_error + row_id list \<times> nat) run" where
  "read_empty_rids version buf pos =
     (if version \<ge> 2 then
        try_res (read_index buf pos) (\<lambda>(count, pos).
        if count > (length buf - pos) div 6 then Some (Inl EmptyRidCountTooLarge)
        else
          try_res (read_many read_rid count buf pos) (\<lambda>(rids, pos).
          if windows_unordered rids then Some (Inl EmptyRidsNotOrdered) else Some (Inr (rids, pos))))
      else Some (Inr ([], pos)))"

definition read_tree :: "bytes \<Rightarrow> (idx_error + btree) run" where
  "read_tree buf =
     (if length buf < 14 \<or> sub buf 0 4 \<noteq> BTREE_MAGIC then Some (Inl BadIndexMagic)
      else
        try_res (idx_read_u16 buf 4) (\<lambda>(version, pos).
        if version = 0 \<or> version > BTREE_VERSION then Some (Inl (UnsupportedIndexVersion version))
        else
          try_res (read_index buf pos) (\<lambda>(root, pos).
          try_res (read_index buf pos) (\<lambda>(n_nodes, pos).
          if n_nodes > 10000000 then Some (Inl (UnreasonableNodeCount n_nodes))
          else
            try_res (Some (check_serialized_count n_nodes 6 (length buf - pos))) (\<lambda>_.
            try_res (read_many read_node n_nodes buf pos) (\<lambda>(nodes, pos).
            try_res (read_empty_rids version buf pos) (\<lambda>(rids, pos).
            if pos \<noteq> length buf then Some (Inl IndexTrailingBytes)
            else if root \<ge> length nodes \<and> nodes \<noteq> [] then Some (Inl RootOutOfRange)
            else Some (Inr \<lparr>bt_nodes = nodes, bt_root = root, bt_dirty = False, bt_version = version,
                            bt_empty_rids = rids, bt_total = 0, bt_distinct = 0, bt_kind = Raw\<rparr>))))))))"

definition bt_load :: "(bytes \<Rightarrow> u32) \<Rightarrow> bytes \<Rightarrow> (idx_error + btree) run" where
  "bt_load crc file =
     (if length file > 512 * 1024 * 1024 then Some (Inl (IndexFileTooLarge (length file)))
      else if length file < 18 then Some (Inl IndexFileTooShort)
      else do {
        let data_len = length file - 4;
        sc \<leftarrow> slice_run file data_len (data_len + 4);
        let stored_crc = u32_from_le sc;
        buf \<leftarrow> slice_run file 0 data_len;
        let computed_crc = crc buf;
        if stored_crc \<noteq> computed_crc then Some (Inl (IndexCrcMismatch stored_crc computed_crc))
        else try_res (read_tree buf) (\<lambda>tree. Option.bind (recount tree) (\<lambda>t. Some (Inr t)))
      })"

end
