(* ===== verification/Spec2Isabelle.thy ===== *)
theory Spec2Isabelle
  imports Page_Correct Row_Correct Wal_Correct Wal_Group_Commit Catalog_Correct Btree_Batch Btree_Nonunique Btree_Codec
begin

text \<open>
  A verification development for PowDB, an embedded and client/server database written in Rust
  (\<^verbatim>\<open>src/crates\<close>). It models the storage engine, \<^verbatim>\<open>crates/storage/src\<close>, from the bytes of a page up.

  \<^bold>\<open>The program.\<close> A table keeps its rows in 4 KB slotted pages (\<^verbatim>\<open>page.rs\<close>). A row is a self-describing
  byte string (\<^verbatim>\<open>row.rs\<close>) whose long values may live out of line on overflow pages. JSON columns hold
  documents in the binary form PJ1 (\<^verbatim>\<open>pj1.rs\<close>). Every change is first described by a record of the
  write-ahead log (\<^verbatim>\<open>wal.rs\<close>), whose payloads (\<^verbatim>\<open>catalog/wal_payload.rs\<close>, \<^verbatim>\<open>ddl_payload.rs\<close>) recovery
  decodes again; committers share fsyncs by group commit. The schemas, indexes and links are kept in
  the catalog file (\<^verbatim>\<open>catalog/file.rs\<close>). Values are compared by \<open>Ord for Value\<close> (\<^verbatim>\<open>types.rs\<close>).

  \<^bold>\<open>Conventions\<close> (\<^theory_text>\<open>Powdb_Prelude\<close>, \<^theory_text>\<open>Utf8\<close>, \<^theory_text>\<open>Cursor\<close>). Machine integers are words of their width and
  wrap where the release build wraps; a \<open>String\<close> is its UTF-8 bytes, an \<open>f64\<close> its 64 bits, a file its
  bytes. A computation that may panic or not return has type \<open>'a run\<close>, where \<open>None\<close> is the panic; a
  Rust \<open>Option\<close> is an option inside it and a \<open>Result\<close> a sum with the error on the left. A slice or an
  index outside its buffer is a panic, so freedom from panics is a theorem and never an assumption.
  Code outside the sources is a parameter: the checksum of the crate \<open>crc32fast\<close> is the argument
  \<open>crc\<close>, and whether an fsync succeeds is an argument of the operation that issues it.

  \<^bold>\<open>Slotted page\<close> (\<^theory_text>\<open>Page\<close>, lemmas in \<^theory_text>\<open>Page_Fields\<close>, \<^theory_text>\<open>Page_Store\<close>, \<^theory_text>\<open>Page_Compact\<close>, \<^theory_text>\<open>Page_Ops\<close>,
  \<^theory_text>\<open>Page_Integrity\<close>, properties in \<^theory_text>\<open>Page_Correct\<close>). Each method of \<open>Page\<close> is one definition on the raw
  bytes. \<open>page_wf\<close> is the invariant, \<open>slots\<close> the abstract contents, one optional row per slot index. C1
  to C6: insert, update, compact and replayed insert as operations on the slots, no panic in any
  sequence of operations, and stable row ids. C7 to C10: checksums, the offline verifier, the two
  scans, overflow pages. The locale \<open>slot_store\<close> is the interface the heap relies on.

  \<^bold>\<open>Rows\<close> (\<^theory_text>\<open>Value_Types\<close>, \<^theory_text>\<open>Row\<close>, lemmas in \<^theory_text>\<open>Row_Image\<close>, \<^theory_text>\<open>Row_Decode\<close>, \<^theory_text>\<open>Row_Agree\<close>, \<^theory_text>\<open>Row_Patch\<close>,
  \<^theory_text>\<open>Row_Roundtrip\<close>, \<^theory_text>\<open>Row_Spill\<close>, properties in \<^theory_text>\<open>Row_Correct\<close>). Both row versions with all encoders and
  decoders. C11 to C16: round trips, agreement of the decoders on arbitrary bytes, patching a column
  in place against re-encoding, rows with out-of-line values, and the spill planner.

  \<^bold>\<open>Write-ahead log\<close> (\<^theory_text>\<open>Wal\<close>, \<^theory_text>\<open>Wal_Handle\<close>, lemmas in \<^theory_text>\<open>Wal_Recovery\<close>, \<^theory_text>\<open>Wal_Log\<close>, properties in
  \<^theory_text>\<open>Wal_Correct\<close> and \<^theory_text>\<open>Wal_Group_Commit\<close>). The record format, the recovery parser with its probe behind
  damage, and the handle over a buffered writer, which the locale \<open>redo_log\<close> abstracts to a list of
  flushed and a list of pending records. C17 to C20: soundness of recovery, torn tails, commit and
  rollback, discarding pending records. Group commit is a step relation over interleaved committers
  and the background flusher; C21 to C23 are its safety, its progress, and the race of the flusher
  with a failing leader.

  \<^bold>\<open>Catalog\<close> (\<^theory_text>\<open>Catalog_Payload\<close>, \<^theory_text>\<open>Catalog_File\<close>, lemmas in \<^theory_text>\<open>Payload_Codec\<close>, \<^theory_text>\<open>Catalog_Codec\<close>,
  properties in \<^theory_text>\<open>Catalog_Correct\<close>). The encoders and decoders of every payload and of the catalog file in
  its seven versions. The locale \<open>cursor_codec\<close> is the contract of one field, and the sections are
  its instances. C24 to C30: round trips, well-formedness of an accepted catalog, totality of the
  readers, what happens to an old catalog that is written again, and identity of JSON paths.

  \<^bold>\<open>PJ1 documents\<close> (\<^theory_text>\<open>Pj1\<close>, lemmas in \<^theory_text>\<open>Pj1_Layout\<close>, \<^theory_text>\<open>Pj1_Order\<close>, \<^theory_text>\<open>Pj1_Validate\<close>, properties in
  \<^theory_text>\<open>Pj1_Correct\<close>) \<^bold>\<open>and the order of values\<close> (\<^theory_text>\<open>Value_Order\<close>, \<^theory_text>\<open>Value_Cmp\<close>). The validator accepts exactly
  the canonical encodings (C31), the comparison ends and is a total order on them (C32), paths and
  objects behave as on the document tree (C33, C34). The order of values is total within a type and
  cyclic across types (C35). The locale \<open>cmp_order\<close> is the contract of a three-way comparison.

  \<^bold>\<open>Loops and bounds.\<close> No definition uses fuel. A loop that need not end on damaged input is a
  \<open>partial_function\<close> whose divergence is \<open>None\<close> (\<open>bridge_gap\<close>, \<open>cmp_node\<close>), and the properties prove
  that it returns where the code relies on it.

  \<^bold>\<open>Not modelled.\<close> Heap files, tables, recovery replay, transactions and views drive files, memory
  maps and locks over the formats above. The query language, planner and executor, the server, the
  wire protocol, authentication, replication, backup and the command line stand on those layers and
  on third-party crates (tokio, rustls, argon2, serde, sha2). Parsing and rendering JSON text is not
  modelled.
\<close>

end
